(* ===== verification/Prelude.thy ===== *)
theory Prelude
  imports Main "HOL-Library.Word" "HOL-Library.Multiset" "HOL-Library.Monad_Syntax"
    "HOL-Library.Signed_Division"
begin

section \<open>Shared vocabulary of the development\<close>

text \<open>
  What every component uses: unsigned 32-bit arithmetic on \<open>nat\<close> with the wrap-around
  written out, the C rule for signed division, checked copies in and out of byte arrays
  (the model of \<open>memcpy\<close>), and the generic facts on lists and options that carry the
  component proofs.  A computation of type \<open>'a option\<close> is a C++ computation that may have
  undefined behaviour (a null, dangling or indeterminate pointer, an access out of bounds,
  a division by zero): \<open>None\<close> is that behaviour.
\<close>

named_theorems u32_simps \<open>unsigned 32-bit arithmetic that does not wrap\<close>
named_theorems mem_simps \<open>checked reads and writes of byte arrays\<close>

type_synonym bytes = "char list"

subsection \<open>Unsigned 32-bit arithmetic (uint32_t)\<close>

definition u32 :: "nat \<Rightarrow> nat" where
  "u32 x = x mod 2 ^ 32"

definition add32 :: "nat \<Rightarrow> nat \<Rightarrow> nat" where
  "add32 a b = (a + b) mod 2 ^ 32"

definition sub32 :: "nat \<Rightarrow> nat \<Rightarrow> nat" where
  "sub32 a b = (a + (2 ^ 32 - b mod 2 ^ 32)) mod 2 ^ 32"

text \<open>Subtraction of two \<open>size_t\<close> values, which wraps at \<open>2 ^ 64\<close>.\<close>

definition sub64 :: "nat \<Rightarrow> nat \<Rightarrow> nat" where
  "sub64 a b = (if b \<le> a then a - b else a + 2 ^ 64 - b)"

lemma sub64_le [u32_simps]: "b \<le> a \<Longrightarrow> sub64 a b = a - b"
  by (simp add: sub64_def)

text \<open>The operator \<open>%\<close> of C++: undefined when the divisor is zero.\<close>

definition umod :: "nat \<Rightarrow> nat \<Rightarrow> nat option" where
  "umod a b = (if b = 0 then None else Some (a mod b))"

lemma u32_small [u32_simps]: "x < 2 ^ 32 \<Longrightarrow> u32 x = x"
  by (simp add: u32_def)

lemma u32_less [simp]: "u32 x < 2 ^ 32"
  by (simp add: u32_def)

lemma add32_small [u32_simps]: "a + b < 2 ^ 32 \<Longrightarrow> add32 a b = a + b"
  by (simp add: add32_def)

lemma sub32_small [u32_simps]:
  assumes "b \<le> a" "a < 2 ^ 32"
  shows "sub32 a b = a - b"
proof -
  have "b mod 2 ^ 32 = b"
    using assms by simp
  moreover have "a + (2 ^ 32 - b) = (a - b) + 2 ^ 32"
    using assms by simp
  ultimately have "sub32 a b = (a - b + 2 ^ 32) mod 2 ^ 32"
    by (simp only: sub32_def)
  also have "\<dots> = (a - b) mod 2 ^ 32"
    by (simp only: mod_add_self2)
  finally show ?thesis
    using assms by simp
qed

lemma umod_Some [u32_simps]: "0 < b \<Longrightarrow> umod a b = Some (a mod b)"
  by (simp add: umod_def)

subsection \<open>Signed division of C++\<close>

text \<open>
  \<open>/\<close> and \<open>%\<close> truncate towards zero: \<open>sdiv\<close> and \<open>smod\<close> of the library.  On a
  non-negative dividend and a positive divisor they are \<open>div\<close> and \<open>mod\<close>.
\<close>

lemma sdiv_nonneg: "0 \<le> (a::int) \<Longrightarrow> 0 < b \<Longrightarrow> a sdiv b = a div b"
  by (auto simp: signed_divide_int_def sgn_if)

lemma smod_nonneg: "0 \<le> (a::int) \<Longrightarrow> 0 < b \<Longrightarrow> a smod b = a mod b"
  by (cases "a = 0") (simp_all add: signed_modulo_int_def sgn_if)

subsection \<open>Checked copies (memcpy)\<close>

text \<open>
  \<open>rd src off n\<close> is the bytes that a copy of \<open>n\<close> bytes from \<open>src + off\<close> moves,
  \<open>wr dst off xs\<close> the array after the bytes \<open>xs\<close> were copied to \<open>dst + off\<close>; both are
  undefined out of the array's bounds.
\<close>

definition rd :: "bytes \<Rightarrow> nat \<Rightarrow> nat \<Rightarrow> bytes option" where
  "rd src off n = (if off + n \<le> length src then Some (take n (drop off src)) else None)"

definition wr :: "bytes \<Rightarrow> nat \<Rightarrow> bytes \<Rightarrow> bytes option" where
  "wr dst off xs =
     (if off + length xs \<le> length dst
      then Some (take off dst @ xs @ drop (off + length xs) dst) else None)"

lemma rd_Some [mem_simps]: "off + n \<le> length src \<Longrightarrow> rd src off n = Some (take n (drop off src))"
  by (simp add: rd_def)

lemma wr_Some [mem_simps]:
  "off + length xs \<le> length dst \<Longrightarrow>
   wr dst off xs = Some (take off dst @ xs @ drop (off + length xs) dst)"
  by (simp add: wr_def)

lemma rd_length: "rd src off n = Some xs \<Longrightarrow> length xs = n"
  by (auto simp: rd_def split: if_splits)

lemma wr_length: "wr dst off xs = Some d \<Longrightarrow> length d = length dst"
  by (auto simp: wr_def split: if_splits)

lemma rd_wr_same: "wr dst off xs = Some d \<Longrightarrow> rd d off (length xs) = Some xs"
  by (auto simp: rd_def wr_def split: if_splits)

lemma mod_once: "(x::nat) < 2 * c \<Longrightarrow> x mod c = (if x < c then x else x - c)"
  by (auto simp: le_mod_geq)

lemma take_append_le: "k \<le> length xs \<Longrightarrow> take k (xs @ ys) = take k xs"
  by simp

lemma split_at:
  assumes "n \<le> length xs"
  obtains ys zs where "xs = ys @ zs" "length ys = n"
  using assms by (intro that [of "take n xs" "drop n xs"]) auto

end
