(* ===== verification/NetBuffer.thy ===== *)
theory NetBuffer
  imports Prelude
begin

section \<open>The chained ring buffers (net/Buffer.h)\<close>

text \<open>
  \<open>Buffer\<close> is a node of a singly linked chain; its byte array is a ring: \<open>count\<close> bytes from
  \<open>pop\<close> on, wrapping at \<open>capacity\<close>, with \<open>push\<close> the next free position.  Nodes live in an
  explicit memory, because head, tail and \<open>next\<close> pointers of a connection alias the same
  nodes.  A C++ pointer is \<open>Addr a\<close>, \<open>Null\<close>, or \<open>Indet\<close> when it was never written: reading a
  node through the last two, or through a pointer to a deleted node, is undefined (\<open>None\<close>).
  The array allocated with a node belongs to it and is deleted with it, so it is a field.
\<close>

subsection \<open>Memory\<close>

datatype ptr = Indet | Null | Addr nat

record buffer =
  b_bytes :: bytes
  b_capacity :: nat
  b_count :: nat
  b_push :: nat
  b_pop :: nat
  b_next :: ptr

text \<open>
  The memory: the live nodes, the next address that was never used, and the content that a
  fresh array happens to hold.
\<close>

record mem =
  cells :: "nat \<Rightarrow> buffer option"
  fresh :: nat
  junk :: char

fun deref :: "mem \<Rightarrow> ptr \<Rightarrow> buffer option" where
  "deref m (Addr a) = cells m a"
| "deref m Null = None"
| "deref m Indet = None"

definition store :: "mem \<Rightarrow> ptr \<Rightarrow> buffer \<Rightarrow> mem option" where
  "store m p b =
     (case p of Addr a \<Rightarrow> (case cells m a of None \<Rightarrow> None
                           | Some _ \<Rightarrow> Some (m\<lparr>cells := (cells m)(a \<mapsto> b)\<rparr>))
      | _ \<Rightarrow> None)"

text \<open>The test \<open>if (p)\<close> reads the pointer itself: undefined for one never written.\<close>

definition ptr_true :: "ptr \<Rightarrow> bool option" where
  "ptr_true p = (case p of Indet \<Rightarrow> None | Null \<Rightarrow> Some False | Addr _ \<Rightarrow> Some True)"

subsection \<open>BufferPool\<close>

text \<open>
  The pool allocates every node with \<open>new\<close> and deletes it on \<open>put\<close>; of its fields only
  \<open>capacity_\<close> is ever read (\<open>size_\<close> and \<open>count_\<close> are stored and not used).
\<close>

record pool =
  pool_capacity :: nat
  pool_size :: nat
  pool_count :: nat

definition BufferPool :: "nat \<Rightarrow> nat \<Rightarrow> pool" where
  "BufferPool cap sz = \<lparr>pool_capacity = cap, pool_size = sz, pool_count = 0\<rparr>"

definition take_buf :: "pool \<Rightarrow> mem \<Rightarrow> ptr \<times> mem" where
  "take_buf pl m =
     (let b = \<lparr>b_bytes = replicate (pool_capacity pl) (junk m), b_capacity = pool_capacity pl,
               b_count = 0, b_push = 0, b_pop = 0, b_next = Null\<rparr>
      in (Addr (fresh m), m\<lparr>cells := (cells m)(fresh m \<mapsto> b), fresh := Suc (fresh m)\<rparr>))"

definition put_buf :: "mem \<Rightarrow> ptr \<Rightarrow> mem option" where
  "put_buf m p =
     (case p of Addr a \<Rightarrow> (case cells m a of None \<Rightarrow> None
                           | Some _ \<Rightarrow> Some (m\<lparr>cells := (cells m)(a := None)\<rparr>))
      | _ \<Rightarrow> None)"

definition putNext :: "mem \<Rightarrow> ptr \<Rightarrow> (ptr \<times> mem) option" where
  "putNext m p = do {
     b \<leftarrow> deref m p;
     m' \<leftarrow> put_buf m p;
     Some (b_next b, m') }"

definition takeNext :: "pool \<Rightarrow> mem \<Rightarrow> ptr \<Rightarrow> (ptr \<times> mem) option" where
  "takeNext pl m p = do {
     let (n, m') = take_buf pl m;
     b \<leftarrow> deref m' p;
     m'' \<leftarrow> store m' p (b\<lparr>b_next := n\<rparr>);
     Some (n, m'') }"

subsection \<open>The ring of one node\<close>

text \<open>
  The bytes a node holds, oldest first, and the shape that every operation keeps.  \<open>push\<close>
  and \<open>pop\<close> may both equal \<open>capacity\<close>, the position of a node that was filled exactly:
  the code's comparisons treat it as the position 0 that it stands for.
\<close>

definition ring_bytes :: "buffer \<Rightarrow> bytes" where
  "ring_bytes b = take (b_count b) (drop (b_pop b) (b_bytes b) @ take (b_pop b) (b_bytes b))"

definition ring_ok :: "buffer \<Rightarrow> bool" where
  "ring_ok b \<longleftrightarrow> length (b_bytes b) = b_capacity b \<and> 0 < b_capacity b \<and> b_capacity b < 2 ^ 31
     \<and> b_pop b \<le> b_capacity b \<and> b_push b \<le> b_capacity b
     \<and> (if b_pop b < b_push b then b_count b = b_push b - b_pop b
        else b_count b = b_capacity b - b_pop b + b_push b \<or> b_count b = 0 \<and> b_push b = b_pop b)"

lemma ring_okD:
  assumes "ring_ok b"
  shows "length (b_bytes b) = b_capacity b" "0 < b_capacity b" "b_capacity b < 2 ^ 32"
    "b_pop b \<le> b_capacity b" "b_push b \<le> b_capacity b" "b_count b \<le> b_capacity b"
  using assms by (auto simp: ring_ok_def split: if_splits)

lemma length_ring_bytes [simp]: "ring_ok b \<Longrightarrow> length (ring_bytes b) = b_count b"
  using ring_okD [of b] by (simp add: ring_bytes_def)

text \<open>The two-sided copy out of a ring: up to its end, then from its start.\<close>

definition copy_out :: "buffer \<Rightarrow> nat \<Rightarrow> nat \<Rightarrow> bytes option" where
  "copy_out b rearcount n =
     (if rearcount < n then do {
        x \<leftarrow> rd (b_bytes b) (b_pop b) rearcount;
        y \<leftarrow> rd (b_bytes b) 0 (n - rearcount);
        Some (x @ y) }
      else rd (b_bytes b) (b_pop b) n)"

lemma copy_out_ring:
  assumes "ring_ok b" "n \<le> b_count b"
  shows "copy_out b (b_capacity b - b_pop b) n = Some (take n (ring_bytes b))"
proof -
  note ok = ring_okD [OF assms(1)]
  have n: "min n (b_count b) = n"
    using assms(2) by simp
  show ?thesis
  proof (cases "b_capacity b - b_pop b < n")
    case True
    then have "n - (b_capacity b - b_pop b) \<le> b_pop b"
      "min (b_capacity b - b_pop b) (b_count b) = b_capacity b - b_pop b"
      "min (n + b_pop b - b_capacity b) (b_count b + b_pop b - b_capacity b) = n + b_pop b - b_capacity b"
      using assms(2) ok(6) by linarith+
    with True ok show ?thesis
      by (simp add: copy_out_def ring_bytes_def rd_def n)
  next
    case False
    then have "n - min (b_capacity b - b_pop b) (b_count b) = 0" "b_pop b + n \<le> b_capacity b"
      using assms(2) ok(4) by linarith+
    with False ok show ?thesis
      by (simp add: copy_out_def ring_bytes_def rd_def n)
  qed
qed

text \<open>The two-sided copy into a ring.\<close>

definition copy_in :: "buffer \<Rightarrow> nat \<Rightarrow> bytes \<Rightarrow> buffer option" where
  "copy_in b rearcount xs =
     (if rearcount < length xs then do {
        d1 \<leftarrow> wr (b_bytes b) (b_push b) (take rearcount xs);
        d2 \<leftarrow> wr d1 0 (drop rearcount xs);
        Some (b\<lparr>b_bytes := d2\<rparr>) }
      else do {
        d \<leftarrow> wr (b_bytes b) (b_push b) xs;
        Some (b\<lparr>b_bytes := d\<rparr>) })"

text \<open>
  The copies on an array cut where the pointers stand, so that each is an equation between
  concatenations.
\<close>

lemma copy_in_plain:
  assumes "b_bytes b = A @ B @ C" "b_push b = length A" "length xs = length B" "length xs \<le> r"
  shows "copy_in b r xs = Some (b\<lparr>b_bytes := A @ xs @ C\<rparr>)"
  using assms by (simp add: copy_in_def wr_def)

lemma copy_in_wrap:
  assumes "b_bytes b = A1 @ A2 @ B @ C" "b_push b = length (A1 @ A2 @ B)"
    "length Y = length C" "length Z = length A1" "Z \<noteq> []"
  shows "copy_in b (length C) (Y @ Z) = Some (b\<lparr>b_bytes := Z @ A2 @ B @ Y\<rparr>)"
  using assms by (cases "A1 = []") (simp_all add: copy_in_def wr_def)

lemma copy_in_before:
  assumes d: "length (b_bytes b) = cap" and le: "b_pop b \<le> b_push b" "b_push b \<le> cap"
    and free: "length xs \<le> cap - b_push b + b_pop b"
  shows "\<exists>d'. copy_in b (cap - b_push b) xs = Some (b\<lparr>b_bytes := d'\<rparr>) \<and> length d' = cap
    \<and> take (b_push b - b_pop b + length xs) (drop (b_pop b) d' @ take (b_pop b) d')
      = take (b_push b - b_pop b) (drop (b_pop b) (b_bytes b)) @ xs"
proof -
  obtain A R where 1: "b_bytes b = A @ R" "length A = b_pop b"
    by (rule split_at [of "b_pop b" "b_bytes b"]) (use d le in auto)
  obtain B C where 2: "R = B @ C" "length B = b_push b - b_pop b"
    by (rule split_at [of "b_push b - b_pop b" R]) (use 1 d le in auto)
  have C: "length C = cap - b_push b"
    using 1 2 d le by auto
  show ?thesis
  proof (cases "cap - b_push b < length xs")
    case True
    obtain Y Z where 3: "xs = Y @ Z" "length Y = length C"
      by (rule split_at [of "length C" xs]) (use True C in auto)
    obtain A1 A2 where 4: "A = A1 @ A2" "length A1 = length Z"
      by (rule split_at [of "length Z" A]) (use 3 C free 1 in auto)
    have "copy_in b (length C) (Y @ Z) = Some (b\<lparr>b_bytes := Z @ A2 @ B @ Y\<rparr>)"
      using 1 2 3 4 C True le by (intro copy_in_wrap [of _ A1]) auto
    then show ?thesis
      using 1 2 3 4 C d by (intro exI [of _ "Z @ A2 @ B @ Y"]) auto
  next
    case False
    obtain C1 C2 where 3: "C = C1 @ C2" "length C1 = length xs"
      by (rule split_at [of "length xs" C]) (use False C in auto)
    have "copy_in b (cap - b_push b) xs = Some (b\<lparr>b_bytes := (A @ B) @ xs @ C2\<rparr>)"
      using 1 2 3 False le by (intro copy_in_plain [of _ _ C1]) auto
    then show ?thesis
      using 1 2 3 d by (intro exI [of _ "A @ B @ xs @ C2"]) auto
  qed
qed

lemma copy_in_after:
  assumes d: "length (b_bytes b) = cap" and le: "b_push b \<le> b_pop b" "b_pop b \<le> cap"
    and free: "length xs \<le> b_pop b - b_push b"
  shows "\<exists>d'. copy_in b (cap - b_push b) xs = Some (b\<lparr>b_bytes := d'\<rparr>) \<and> length d' = cap
    \<and> take (cap - b_pop b + b_push b + length xs) (drop (b_pop b) d' @ take (b_pop b) d')
      = take (cap - b_pop b + b_push b) (drop (b_pop b) (b_bytes b) @ take (b_pop b) (b_bytes b)) @ xs"
proof -
  obtain A R where 1: "b_bytes b = A @ R" "length A = b_push b"
    by (rule split_at [of "b_push b" "b_bytes b"]) (use d le in auto)
  obtain B S where 2: "R = B @ S" "length B = length xs"
    by (rule split_at [of "length xs" R]) (use 1 d le free in auto)
  obtain C D where 3: "S = C @ D" "length C = b_pop b - b_push b - length xs"
    by (rule split_at [of "b_pop b - b_push b - length xs" S]) (use 1 2 d le free in auto)
  have D: "length D = cap - b_pop b"
    using 1 2 3 d le free by auto
  have "copy_in b (cap - b_push b) xs = Some (b\<lparr>b_bytes := A @ xs @ C @ D\<rparr>)"
    using 1 2 3 D free le by (intro copy_in_plain [of _ _ B]) auto
  then show ?thesis
    using 1 2 3 D d le free by (intro exI [of _ "A @ xs @ C @ D"]) auto
qed

lemma copy_in_ring:
  assumes ok: "ring_ok b" and len: "length xs \<le> b_capacity b - b_count b"
  shows "\<exists>d. copy_in b (b_capacity b - b_push b) xs = Some (b\<lparr>b_bytes := d\<rparr>)
    \<and> length d = b_capacity b
    \<and> take (b_count b + length xs) (drop (b_pop b) d @ take (b_pop b) d) = ring_bytes b @ xs"
proof (cases "b_pop b < b_push b \<or> b_count b = 0 \<and> b_push b = b_pop b")
  case True
  then have c: "b_count b = b_push b - b_pop b" and le: "b_pop b \<le> b_push b"
    using ok by (auto simp: ring_ok_def)
  have free: "length xs \<le> b_capacity b - b_push b + b_pop b"
    using len c le ring_okD(5) [OF ok] by linarith
  have "ring_bytes b = take (b_push b - b_pop b) (drop (b_pop b) (b_bytes b))"
    using ring_okD(1,5) [OF ok] by (simp add: ring_bytes_def c)
  with copy_in_before [OF ring_okD(1) [OF ok] le ring_okD(5) [OF ok] free] show ?thesis
    by (simp only: c)
next
  case False
  then have c: "b_count b = b_capacity b - b_pop b + b_push b" and le: "b_push b \<le> b_pop b"
    using ok by (auto simp: ring_ok_def split: if_splits)
  have free: "length xs \<le> b_pop b - b_push b"
    using len c le ring_okD(4) [OF ok] by linarith
  from copy_in_after [OF ring_okD(1) [OF ok] le ring_okD(4) [OF ok] free] show ?thesis
    by (simp only: c ring_bytes_def)
qed

subsection \<open>Moving the pointers of one node\<close>

text \<open>
  The two ways the code moves a position by \<open>n\<close>: modulo the capacity when the copy did not
  cross the end, to the rest of the length when it did.
\<close>

definition advance :: "nat \<Rightarrow> nat \<Rightarrow> nat \<Rightarrow> nat" where
  "advance cap p n = (if cap - p < n then n - (cap - p) else (p + n) mod cap)"

lemma advance_if:
  assumes "0 < cap" "p \<le> cap" "n \<le> cap"
  shows "advance cap p n = (if p + n < cap then p + n else p + n - cap)"
proof (cases "p + n < 2 * cap")
  case True
  then show ?thesis using assms by (auto simp: advance_def mod_once)
next
  case False
  then have "p = cap" "n = cap" using assms by linarith+
  then show ?thesis using assms by (simp add: advance_def)
qed

definition pop_by :: "nat \<Rightarrow> buffer \<Rightarrow> buffer" where
  "pop_by n b = b\<lparr>b_pop := advance (b_capacity b) (b_pop b) n, b_count := b_count b - n\<rparr>"

definition push_by :: "nat \<Rightarrow> buffer \<Rightarrow> buffer" where
  "push_by n b = b\<lparr>b_push := advance (b_capacity b) (b_push b) n, b_count := b_count b + n\<rparr>"

lemma take_drop_rotate:
  assumes d: "length d = cap" and c: "p \<le> cap" "n \<le> c" "c \<le> cap" and n: "p + n \<le> cap"
  shows "take (c - n) (drop (p + n) d @ take (p + n) d) = drop n (take c (drop p d @ take p d))"
proof -
  obtain A R where 1: "d = A @ R" "length A = p"
    by (rule split_at [of p d]) (use assms in auto)
  obtain B C where 2: "R = B @ C" "length B = n"
    by (rule split_at [of n R]) (use 1 d n in auto)
  have "drop n (drop p d @ take p d) = C @ A" "drop (p + n) d @ take (p + n) d = (C @ A) @ B"
    using 1 2 by simp_all
  moreover have "c - n \<le> length (C @ A)"
    using 1 2 d c n by auto
  ultimately show ?thesis
    by (simp only: drop_take take_append_le)
qed

lemma take_drop_rotate_wrap:
  assumes d: "length d = cap" and c: "p \<le> cap" "n \<le> c" "c \<le> cap" and n: "q + cap = p + n"
  shows "take (c - n) (drop q d @ take q d) = drop n (take c (drop p d @ take p d))"
proof -
  have qp: "q \<le> p" using c n by linarith
  obtain A R where 1: "d = A @ R" "length A = q"
    by (rule split_at [of q d]) (use qp d c in auto)
  obtain B C where 2: "R = B @ C" "length B = p - q"
    by (rule split_at [of "p - q" R]) (use 1 qp d c in auto)
  have len: "length C = cap - p" "length (C @ A) = n"
    using 1 2 d c n qp by auto
  have "drop p d @ take p d = (C @ A) @ B" "drop q d @ take q d = B @ C @ A"
    using 1 2 qp by simp_all
  moreover have "drop n ((C @ A) @ B) = B"
    unfolding len(2) [symmetric] by simp
  moreover have "c - n \<le> length B"
    using 2 c n by linarith
  ultimately show ?thesis
    by (simp only: drop_take take_append_le)
qed

lemma pop_by_bytes:
  assumes ok: "ring_ok b" and n: "n \<le> b_count b"
  shows "ring_bytes (pop_by n b) = drop n (ring_bytes b)"
proof -
  note k = ring_okD [OF ok]
  have le: "n \<le> b_capacity b" using n k(6) by linarith
  show ?thesis
  proof (cases "b_pop b + n < b_capacity b")
    case True
    with take_drop_rotate [OF k(1,4) n k(6)] show ?thesis
      by (simp add: pop_by_def ring_bytes_def advance_if [OF k(2,4) le])
  next
    case False
    then have "b_pop b + n - b_capacity b + b_capacity b = b_pop b + n" by linarith
    with take_drop_rotate_wrap [OF k(1,4) n k(6) this] False show ?thesis
      by (simp add: pop_by_def ring_bytes_def advance_if [OF k(2,4) le])
  qed
qed

lemma ring_ok_pop_by:
  assumes ok: "ring_ok b" and n: "n < b_count b"
  shows "ring_ok (pop_by n b)"
proof -
  have le: "n \<le> b_capacity b" using n ring_okD(6) [OF ok] by linarith
  show ?thesis
    using ok n by (auto simp: ring_ok_def pop_by_def advance_if [OF ring_okD(2,4) [OF ok] le] split: if_splits)
qed

lemma ring_ok_push_by:
  assumes ok: "ring_ok b" and n: "n < b_capacity b - b_count b" and d: "length d = b_capacity b"
  shows "ring_ok (push_by n (b\<lparr>b_bytes := d\<rparr>))"
proof -
  have le: "n \<le> b_capacity b" using n by linarith
  show ?thesis
    using ok n d
    by (auto simp: ring_ok_def push_by_def advance_if [OF ring_okD(2,5) [OF ok] le] split: if_splits)
qed

end
