(* ===== verification/Channel.thy ===== *)
theory Channel
  imports Prelude
begin

section \<open>Channels (net/Channel.h, net/Channel.cpp)\<close>

text \<open>
  A \<open>Channel\<close> is one file descriptor registered with a loop: the events it asks for, the
  edge-triggered events it received and did not yet handle, and whether it waits in the loop's
  list of active channels.  Its calls into the loop (\<open>addChannel\<close>, \<open>updateChannel\<close>,
  \<open>removeChannel\<close>, \<open>addActivedChannel\<close>) are returned to the caller as a list of requests,
  which the loop's model carries out.
\<close>

subsection \<open>State and simple operations\<close>

record channel =
  ch_fd :: nat
  ch_read :: bool
  ch_write :: bool
  ch_rclose :: bool
  ch_rerror :: bool
  ch_rread :: bool
  ch_rwrite :: bool
  ch_started :: bool
  ch_actived :: bool
  ch_closed :: bool
  ch_readable :: bool
  ch_writeable :: bool

datatype loop_request = AddChannel | UpdateChannel | RemoveChannel | AddActived

definition new_channel :: "nat \<Rightarrow> channel" where
  "new_channel fd = \<lparr>ch_fd = fd, ch_read = False, ch_write = False, ch_rclose = False,
     ch_rerror = False, ch_rread = False, ch_rwrite = False, ch_started = False,
     ch_actived = False, ch_closed = False, ch_readable = False, ch_writeable = False\<rparr>"

definition enableRead :: "channel \<Rightarrow> channel" where
  "enableRead c = c\<lparr>ch_read := True\<rparr>"

definition disableRead :: "channel \<Rightarrow> channel" where
  "disableRead c = c\<lparr>ch_read := False\<rparr>"

definition enableWrite :: "channel \<Rightarrow> channel" where
  "enableWrite c = c\<lparr>ch_write := True\<rparr>"

definition disableWrite :: "channel \<Rightarrow> channel" where
  "disableWrite c = c\<lparr>ch_write := False\<rparr>"

definition enableAll :: "channel \<Rightarrow> channel" where
  "enableAll c = c\<lparr>ch_read := True, ch_write := True\<rparr>"

definition disableAll :: "channel \<Rightarrow> channel" where
  "disableAll c = c\<lparr>ch_read := False, ch_write := False\<rparr>"

definition disableReadable :: "channel \<Rightarrow> channel" where
  "disableReadable c = c\<lparr>ch_readable := False\<rparr>"

definition disableWriteable :: "channel \<Rightarrow> channel" where
  "disableWriteable c = c\<lparr>ch_writeable := False\<rparr>"

subsection \<open>Registration with the loop\<close>

definition open_ch :: "channel \<Rightarrow> channel \<times> loop_request list" where
  "open_ch c = (if \<not> ch_started c then (c\<lparr>ch_started := True\<rparr>, [AddChannel]) else (c, []))"

definition update_ch :: "channel \<Rightarrow> channel \<times> loop_request list" where
  "update_ch c = (if ch_started c then (c, [UpdateChannel]) else (c, []))"

definition close_ch :: "channel \<Rightarrow> channel \<times> loop_request list" where
  "close_ch c = (if ch_started c then (c\<lparr>ch_started := False\<rparr>, [RemoveChannel]) else (c, []))"

subsection \<open>Events from the poller\<close>

definition addActivedChannel_ch :: "channel \<Rightarrow> channel \<times> loop_request list" where
  "addActivedChannel_ch c =
     (if \<not> ch_actived c then (c\<lparr>ch_actived := True\<rparr>, [AddActived]) else (c, []))"

definition onClose_ch :: "channel \<Rightarrow> channel \<times> loop_request list" where
  "onClose_ch c =
     (if \<not> ch_closed c \<and> \<not> ch_rclose c
      then addActivedChannel_ch (c\<lparr>ch_closed := True, ch_rclose := True\<rparr>) else (c, []))"

definition onError_ch :: "channel \<Rightarrow> channel \<times> loop_request list" where
  "onError_ch c =
     (if \<not> ch_rerror c then addActivedChannel_ch (c\<lparr>ch_rerror := True\<rparr>) else (c, []))"

definition onRead_ch :: "channel \<Rightarrow> channel \<times> loop_request list" where
  "onRead_ch c =
     (if ch_read c \<and> \<not> ch_readable c \<and> \<not> ch_rread c
      then addActivedChannel_ch (c\<lparr>ch_readable := True, ch_rread := True\<rparr>) else (c, []))"

definition onWrite_ch :: "channel \<Rightarrow> channel \<times> loop_request list" where
  "onWrite_ch c =
     (if ch_write c \<and> \<not> ch_writeable c \<and> \<not> ch_rwrite c
      then addActivedChannel_ch (c\<lparr>ch_writeable := True, ch_rwrite := True\<rparr>) else (c, []))"

subsection \<open>Handling the events\<close>

text \<open>
  \<open>handleEvents\<close> runs the callbacks of the pending events, close first, then error, read and
  write.  A callback is code of the channel's owner and may change the channel, so the state
  \<open>'w\<close> of the owner is passed through, with \<open>get\<close> and \<open>upd\<close> its access to the channel; a
  callback that is not set is skipped, and one with undefined behaviour gives \<open>None\<close>.
\<close>

record 'w callbacks =
  closeCallback :: "('w \<Rightarrow> 'w option) option"
  errorCallback :: "('w \<Rightarrow> 'w option) option"
  readCallback :: "('w \<Rightarrow> 'w option) option"
  writeCallback :: "('w \<Rightarrow> 'w option) option"

definition fire ::
  "('w \<Rightarrow> channel) \<Rightarrow> ((channel \<Rightarrow> channel) \<Rightarrow> 'w \<Rightarrow> 'w) \<Rightarrow> (channel \<Rightarrow> bool)
   \<Rightarrow> (channel \<Rightarrow> channel) \<Rightarrow> ('w \<Rightarrow> 'w option) option \<Rightarrow> 'w \<Rightarrow> 'w option" where
  "fire get upd flag clear cb w =
     (if flag (get w)
      then (case cb of None \<Rightarrow> Some (upd clear w) | Some f \<Rightarrow> f (upd clear w))
      else Some w)"

definition handleEvents ::
  "('w \<Rightarrow> channel) \<Rightarrow> ((channel \<Rightarrow> channel) \<Rightarrow> 'w \<Rightarrow> 'w) \<Rightarrow> 'w callbacks \<Rightarrow> 'w \<Rightarrow> 'w option" where
  "handleEvents get upd cbs w0 = do {
     let w = upd (\<lambda>c. c\<lparr>ch_actived := False\<rparr>) w0;
     w1 \<leftarrow> fire get upd ch_rclose (\<lambda>c. c\<lparr>ch_rclose := False\<rparr>) (closeCallback cbs) w;
     w2 \<leftarrow> fire get upd ch_rerror (\<lambda>c. c\<lparr>ch_rerror := False\<rparr>) (errorCallback cbs) w1;
     w3 \<leftarrow> fire get upd ch_rread (\<lambda>c. c\<lparr>ch_rread := False\<rparr>) (readCallback cbs) w2;
     fire get upd ch_rwrite (\<lambda>c. c\<lparr>ch_rwrite := False\<rparr>) (writeCallback cbs) w3 }"

end
