(* ===== verification/TcpState.thy ===== *)
theory TcpState
  imports NetBuffer Channel
begin

section \<open>The state of a TCP connection (net/TcpConnection.h)\<close>

text \<open>
  The fields of \<open>TcpConnection\<close> that its code reads and writes: the socket, the two flags of
  its life cycle, its channel, and the two chains of ring buffers with their sizes.  The
  constructor leaves the four pointers and the two sizes unset; the pointers start as
  \<open>Indet\<close>, and the sizes as arbitrary values, an argument of the model's constructor.
\<close>

record conn =
  sockFd :: nat
  establish_flag :: bool
  close_flag :: bool
  chan :: channel
  readHead :: ptr
  readTail :: ptr
  readSize :: nat
  writeHead :: ptr
  writeTail :: ptr
  writeSize :: nat

definition new_conn :: "nat \<Rightarrow> nat \<Rightarrow> nat \<Rightarrow> conn" where
  "new_conn fd rsize wsize =
     \<lparr>sockFd = fd, establish_flag = False, close_flag = False,
      chan = enableAll (new_channel fd),
      readHead = Indet, readTail = Indet, readSize = rsize,
      writeHead = Indet, writeTail = Indet, writeSize = wsize\<rparr>"

definition GetReadBufferSize :: "conn \<Rightarrow> nat" where
  "GetReadBufferSize c = readSize c"

definition GetWriteBufferSize :: "conn \<Rightarrow> nat" where
  "GetWriteBufferSize c = writeSize c"

definition upd_chan :: "(channel \<Rightarrow> channel) \<Rightarrow> conn \<Rightarrow> conn" where
  "upd_chan f c = c\<lparr>chan := f (chan c)\<rparr>"

subsection \<open>Chains of nodes in memory\<close>

text \<open>
  \<open>chain m p as\<close>: starting at pointer \<open>p\<close> and following \<open>next\<close>, the live nodes at the addresses
  \<open>as\<close> are met, and then the null pointer.
\<close>

fun chain :: "mem \<Rightarrow> ptr \<Rightarrow> nat list \<Rightarrow> bool" where
  "chain m p [] = (p = Null)"
| "chain m p (a # as) =
     (p = Addr a \<and> (case cells m a of None \<Rightarrow> False | Some b \<Rightarrow> chain m (b_next b) as))"

definition node :: "mem \<Rightarrow> nat \<Rightarrow> buffer" where
  "node m a = the (cells m a)"

definition chain_bytes :: "mem \<Rightarrow> nat list \<Rightarrow> bytes" where
  "chain_bytes m as = concat (map (\<lambda>a. ring_bytes (node m a)) as)"

definition mem_ok :: "mem \<Rightarrow> bool" where
  "mem_ok m \<longleftrightarrow> (\<forall>a\<ge>fresh m. cells m a = None)"

text \<open>What a step on one connection leaves alone: every node that is not in its chain.\<close>

definition same_but :: "nat set \<Rightarrow> mem \<Rightarrow> mem \<Rightarrow> bool" where
  "same_but A m m' \<longleftrightarrow> (\<forall>a<fresh m. a \<notin> A \<longrightarrow> cells m' a = cells m a) \<and> fresh m \<le> fresh m'"

lemma same_but_refl [simp]: "same_but A m m"
  by (simp add: same_but_def)

lemma same_but_trans:
  assumes "same_but A m1 m2" "same_but B m2 m3" "B \<subseteq> A \<union> {fresh m1..}"
  shows "same_but A m1 m3"
  unfolding same_but_def
proof (intro conjI allI impI)
  fix a assume a: "a < fresh m1" "a \<notin> A"
  then have "a \<notin> B" "a < fresh m2"
    using assms by (auto simp: same_but_def)
  then show "cells m3 a = cells m1 a"
    using a assms by (auto simp: same_but_def)
qed (use assms in \<open>auto simp: same_but_def\<close>)

lemma chain_cells: "chain m p as \<Longrightarrow> a \<in> set as \<Longrightarrow> \<exists>b. cells m a = Some b"
  by (induction m p as rule: chain.induct) (auto split: option.splits)

lemma chain_node: "chain m p as \<Longrightarrow> a \<in> set as \<Longrightarrow> cells m a = Some (node m a)"
  using chain_cells by (fastforce simp: node_def)

lemma chain_fresh: "mem_ok m \<Longrightarrow> chain m p as \<Longrightarrow> a \<in> set as \<Longrightarrow> a < fresh m"
  by (metis chain_cells mem_ok_def not_le option.distinct(1))

lemma chain_cong:
  "chain m p as \<Longrightarrow> (\<And>a. a \<in> set as \<Longrightarrow> cells m' a = cells m a) \<Longrightarrow> chain m' p as"
  by (induction m p as rule: chain.induct) (auto split: option.splits)

lemma chain_Cons_cases:
  assumes "chain m p (a # as)"
  obtains b where "p = Addr a" "cells m a = Some b" "node m a = b" "chain m (b_next b) as"
  using assms by (auto simp: node_def split: option.splits)

lemma chain_bytes_Nil [simp]: "chain_bytes m [] = []"
  by (simp add: chain_bytes_def)

lemma chain_bytes_Cons [simp]:
  "chain_bytes m (a # as) = ring_bytes (node m a) @ chain_bytes m as"
  by (simp add: chain_bytes_def)

lemma chain_bytes_append [simp]:
  "chain_bytes m (as @ bs) = chain_bytes m as @ chain_bytes m bs"
  by (simp add: chain_bytes_def)

lemma chain_bytes_cong:
  "(\<And>a. a \<in> set as \<Longrightarrow> cells m' a = cells m a) \<Longrightarrow> chain_bytes m' as = chain_bytes m as"
  by (auto simp: chain_bytes_def node_def intro!: arg_cong [of _ _ concat])

text \<open>The memory after one node was written or deleted.\<close>

definition set_cell :: "mem \<Rightarrow> nat \<Rightarrow> buffer \<Rightarrow> mem" where
  "set_cell m a b = m\<lparr>cells := (cells m)(a \<mapsto> b)\<rparr>"

definition del_cell :: "mem \<Rightarrow> nat \<Rightarrow> mem" where
  "del_cell m a = m\<lparr>cells := (cells m)(a := None)\<rparr>"

lemma cells_set_cell [simp]: "cells (set_cell m a b) x = (if x = a then Some b else cells m x)"
  by (simp add: set_cell_def)

lemma cells_del_cell [simp]: "cells (del_cell m a) x = (if x = a then None else cells m x)"
  by (simp add: del_cell_def)

lemma fresh_set_del [simp]: "fresh (set_cell m a b) = fresh m" "fresh (del_cell m a) = fresh m"
  by (simp_all add: set_cell_def del_cell_def)

lemma node_set_cell [simp]: "node (set_cell m a b) x = (if x = a then b else node m x)"
  by (simp add: node_def)

lemma node_del_cell: "x \<noteq> a \<Longrightarrow> node (del_cell m a) x = node m x"
  by (simp add: node_def)

lemma same_but_set_del [simp]:
  "a \<in> A \<Longrightarrow> same_but A m (set_cell m a b)" "a \<in> A \<Longrightarrow> same_but A m (del_cell m a)"
  by (auto simp: same_but_def)

lemma store_Addr: "cells m a = Some b0 \<Longrightarrow> store m (Addr a) b = Some (set_cell m a b)"
  by (simp add: store_def set_cell_def)

lemma putNext_Addr: "cells m a = Some b \<Longrightarrow> putNext m (Addr a) = Some (b_next b, del_cell m a)"
  by (simp add: putNext_def put_buf_def del_cell_def)

lemma mem_ok_set_del [simp]:
  "mem_ok m \<Longrightarrow> a < fresh m \<Longrightarrow> mem_ok (set_cell m a b)" "mem_ok m \<Longrightarrow> mem_ok (del_cell m a)"
  by (auto simp: mem_ok_def)

lemma chain_set_cell_other: "a \<notin> set as \<Longrightarrow> chain (set_cell m a b) p as = chain m p as"
  by (induction as arbitrary: p) (auto split: option.splits)

lemma chain_del_cell_other: "a \<notin> set as \<Longrightarrow> chain (del_cell m a) p as = chain m p as"
  by (induction as arbitrary: p) (auto split: option.splits)

lemma chain_set_cell:
  "chain m p as \<Longrightarrow> b_next b = b_next (node m a) \<Longrightarrow> chain (set_cell m a b) p as"
  by (induction as arbitrary: p) (auto simp: node_def split: option.splits)

lemma chain_bytes_set_other [simp]: "a \<notin> set as \<Longrightarrow> chain_bytes (set_cell m a b) as = chain_bytes m as"
  by (intro chain_bytes_cong) auto

lemma chain_bytes_del_other [simp]: "a \<notin> set as \<Longrightarrow> chain_bytes (del_cell m a) as = chain_bytes m as"
  by (intro chain_bytes_cong) auto

lemma chain_bytes_empty: "(\<And>a. a \<in> set as \<Longrightarrow> b_count (node m a) = 0) \<Longrightarrow> chain_bytes m as = []"
  by (induction as) (auto simp: ring_bytes_def)

text \<open>A node that was never popped holds its bytes from the start of its array.\<close>

lemma ring_bytes_pop0: "ring_ok b \<Longrightarrow> b_pop b = 0 \<Longrightarrow> ring_bytes b = take (b_count b) (b_bytes b)"
  by (simp add: ring_bytes_def)

lemma rd_pop0: "ring_ok b \<Longrightarrow> b_pop b = 0 \<Longrightarrow> n \<le> b_count b \<Longrightarrow>
    rd (b_bytes b) 0 n = Some (take n (ring_bytes b))"
  using ring_okD [of b] by (simp add: rd_def ring_bytes_pop0 min_def)

subsection \<open>The receiving side\<close>

text \<open>
  \<open>read_shape m c as k\<close>: the receive chain of the connection is at the addresses \<open>as\<close>, the
  tail pointer is the node with index \<open>k\<close>; at most one node, allocated ahead by \<open>onRead\<close>,
  follows it and is empty; nodes behind the head were never popped.  \<open>read_ok\<close> adds that
  \<open>readSize_\<close> is the number of bytes held.
\<close>

definition read_shape :: "mem \<Rightarrow> conn \<Rightarrow> nat list \<Rightarrow> nat \<Rightarrow> bool" where
  "read_shape m c as k \<longleftrightarrow> chain m (readHead c) as \<and> distinct as \<and> k < length as
     \<and> length as \<le> k + 2 \<and> readTail c = Addr (as ! k)
     \<and> list_all (\<lambda>a. ring_ok (node m a)) as
     \<and> list_all (\<lambda>a. b_pop (node m a) = 0) (tl as)
     \<and> list_all (\<lambda>a. b_count (node m a) = 0) (drop (Suc k) as)"

definition read_ok :: "mem \<Rightarrow> conn \<Rightarrow> nat list \<Rightarrow> nat \<Rightarrow> bool" where
  "read_ok m c as k \<longleftrightarrow> read_shape m c as k \<and> readSize c = length (chain_bytes m as)"

subsection \<open>The sending side\<close>

text \<open>
  The send chain: the tail pointer is its last node, nodes behind the head were never popped.
\<close>

definition write_ok :: "mem \<Rightarrow> conn \<Rightarrow> nat list \<Rightarrow> bool" where
  "write_ok m c as \<longleftrightarrow> chain m (writeHead c) as \<and> distinct as \<and> as \<noteq> []
     \<and> writeTail c = Addr (last as)
     \<and> list_all (\<lambda>a. ring_ok (node m a)) as
     \<and> list_all (\<lambda>a. b_pop (node m a) = 0) (tl as)
     \<and> writeSize c = length (chain_bytes m as)"

definition pool_ok :: "pool \<Rightarrow> bool" where
  "pool_ok pl \<longleftrightarrow> 0 < pool_capacity pl \<and> pool_capacity pl < 2 ^ 31"

text \<open>A chain grows at its last node.\<close>

definition alloc_cell :: "mem \<Rightarrow> buffer \<Rightarrow> mem" where
  "alloc_cell m b = m\<lparr>cells := (cells m)(fresh m \<mapsto> b), fresh := Suc (fresh m)\<rparr>"

definition fresh_buffer :: "pool \<Rightarrow> mem \<Rightarrow> buffer" where
  "fresh_buffer pl m = \<lparr>b_bytes = replicate (pool_capacity pl) (junk m), b_capacity = pool_capacity pl,
     b_count = 0, b_push = 0, b_pop = 0, b_next = Null\<rparr>"

lemma cells_alloc [simp]: "cells (alloc_cell m b) x = (if x = fresh m then Some b else cells m x)"
  by (simp add: alloc_cell_def)

lemma fresh_alloc [simp]: "fresh (alloc_cell m b) = Suc (fresh m)"
  by (simp add: alloc_cell_def)

lemma node_alloc [simp]: "node (alloc_cell m b) x = (if x = fresh m then b else node m x)"
  by (simp add: node_def)

lemma mem_ok_alloc [simp]: "mem_ok m \<Longrightarrow> mem_ok (alloc_cell m b)"
  by (simp add: mem_ok_def)

lemma ring_ok_fresh [simp]: "pool_ok pl \<Longrightarrow> ring_ok (fresh_buffer pl m)"
  by (simp add: ring_ok_def fresh_buffer_def pool_ok_def)

lemma fresh_buffer_fields [simp]:
  "b_pop (fresh_buffer pl m) = 0" "b_push (fresh_buffer pl m) = 0" "b_count (fresh_buffer pl m) = 0"
  "b_next (fresh_buffer pl m) = Null" "b_capacity (fresh_buffer pl m) = pool_capacity pl"
  "length (b_bytes (fresh_buffer pl m)) = pool_capacity pl" "ring_bytes (fresh_buffer pl m) = []"
  by (simp_all add: fresh_buffer_def ring_bytes_def)

lemma take_buf_alloc: "take_buf pl m = (Addr (fresh m), alloc_cell m (fresh_buffer pl m))"
  by (simp add: take_buf_def alloc_cell_def fresh_buffer_def Let_def)

lemma takeNext_alloc:
  assumes "cells m t = Some b" "t < fresh m"
  shows "takeNext pl m (Addr t) = Some (Addr (fresh m),
    set_cell (alloc_cell m (fresh_buffer pl m)) t (b\<lparr>b_next := Addr (fresh m)\<rparr>))"
  using assms by (simp add: takeNext_def take_buf_alloc store_Addr Let_def)

lemma chain_extend:
  assumes "chain m p as" "as \<noteq> []" "distinct as" "fresh m \<notin> set as" "b_next f = Null"
    and "b_next b = Addr (fresh m)"
  shows "chain (set_cell (alloc_cell m f) (last as) b) p (as @ [fresh m])"
  using assms
proof (induction as arbitrary: p)
  case (Cons a as)
  show ?case
  proof (cases "as = []")
    case True
    with Cons.prems show ?thesis by (auto split: option.splits)
  next
    case False
    then have "a \<noteq> last as" using Cons.prems(3) by (metis distinct.simps(2) last_in_set)
    with False Cons show ?thesis by (auto split: option.splits)
  qed
qed simp

subsection \<open>What one side leaves to the other\<close>

text \<open>
  A step on the chain \<open>as\<close> that ends in the chain \<open>as'\<close> takes new nodes from unused memory only and
  touches no node outside \<open>as\<close>: the other chain of the connection is as it was.
\<close>

definition framed :: "mem \<Rightarrow> nat list \<Rightarrow> mem \<Rightarrow> nat list \<Rightarrow> bool" where
  "framed m as m' as' \<longleftrightarrow> same_but (set as) m m' \<and> set as' \<subseteq> set as \<union> {fresh m..}"

lemma framed_refl [simp]: "framed m as m as"
  by (auto simp: framed_def)

lemma framed_trans:
  assumes f: "framed m as m1 as1" "framed m1 as1 m2 as2"
  shows "framed m as m2 as2"
proof -
  have s: "same_but (set as) m m1" "same_but (set as1) m1 m2" and sub: "set as1 \<subseteq> set as \<union> {fresh m..}"
    "set as2 \<subseteq> set as1 \<union> {fresh m1..}"
    using f by (simp_all add: framed_def)
  have "fresh m \<le> fresh m1"
    using s(1) by (simp add: same_but_def)
  then have "set as2 \<subseteq> set as \<union> {fresh m..}"
    using sub by auto
  then show ?thesis
    using same_but_trans [OF s sub(1)] by (simp add: framed_def)
qed

lemma framed_other:
  assumes f: "framed m as m' as'" and mo: "mem_ok m" and ch: "chain m p bs" and dis: "set as \<inter> set bs = {}"
  shows "chain m' p bs" "chain_bytes m' bs = chain_bytes m bs" "set as' \<inter> set bs = {}"
    "\<And>b. b \<in> set bs \<Longrightarrow> node m' b = node m b"
proof -
  have same: "cells m' b = cells m b" if "b \<in> set bs" for b
    using that f dis chain_fresh [OF mo ch] by (auto simp: framed_def same_but_def)
  show "chain m' p bs" "chain_bytes m' bs = chain_bytes m bs"
    using chain_cong [OF ch] same chain_bytes_cong by blast+
  show "node m' b = node m b" if "b \<in> set bs" for b
    using same [OF that] by (simp add: node_def)
  show "set as' \<inter> set bs = {}"
    using f dis chain_fresh [OF mo ch] unfolding framed_def by fastforce
qed

text \<open>The fields of the sending side, and of the receiving side.\<close>

definition same_write :: "conn \<Rightarrow> conn \<Rightarrow> bool" where
  "same_write c c' \<longleftrightarrow> writeHead c' = writeHead c \<and> writeTail c' = writeTail c \<and> writeSize c' = writeSize c"

definition same_read :: "conn \<Rightarrow> conn \<Rightarrow> bool" where
  "same_read c c' \<longleftrightarrow> readHead c' = readHead c \<and> readTail c' = readTail c \<and> readSize c' = readSize c"

lemma same_write_refl [simp]: "same_write c c" "same_write c (upd_chan f c)" "same_write c (c\<lparr>close_flag := b\<rparr>)"
  by (simp_all add: same_write_def upd_chan_def)

lemma same_read_refl [simp]: "same_read c c" "same_read c (upd_chan f c)" "same_read c (c\<lparr>close_flag := b\<rparr>)"
  by (simp_all add: same_read_def upd_chan_def)

lemma same_write_trans: "same_write c c1 \<Longrightarrow> same_write c1 c2 \<Longrightarrow> same_write c c2"
  by (simp add: same_write_def)

lemma same_read_trans: "same_read c c1 \<Longrightarrow> same_read c1 c2 \<Longrightarrow> same_read c c2"
  by (simp add: same_read_def)

lemma framed_write_ok:
  assumes "framed m as m' as'" "mem_ok m" "set as \<inter> set bs = {}" "same_write c c'" and ok: "write_ok m c bs"
  shows "write_ok m' c' bs"
proof -
  have ch: "chain m (writeHead c) bs"
    using ok by (simp add: write_ok_def)
  note f = framed_other [OF assms(1,2) ch assms(3)]
  have sub: "set (tl bs) \<subseteq> set bs"
    by (cases bs) auto
  have L: "list_all (\<lambda>b. P (node m' b)) xs = list_all (\<lambda>b. P (node m b)) xs" if "set xs \<subseteq> set bs" for P xs
    using that f(4) by (intro list.pred_cong) auto
  note L' = L [OF order_refl, where P = ring_ok] L [OF sub, where P = "\<lambda>b. b_pop b = 0"]
  show ?thesis
    using ok f(1,2) assms(4) unfolding write_ok_def same_write_def L' by simp
qed

lemma framed_read_ok:
  assumes "framed m as m' as'" "mem_ok m" "set as \<inter> set bs = {}" "same_read c c'" and ok: "read_ok m c bs k"
  shows "read_ok m' c' bs k"
proof -
  have ch: "chain m (readHead c) bs"
    using ok by (simp add: read_ok_def read_shape_def)
  note f = framed_other [OF assms(1,2) ch assms(3)]
  have sub: "set (tl bs) \<subseteq> set bs" "set (drop (Suc k) bs) \<subseteq> set bs"
    by (auto dest: list.set_sel in_set_dropD) (cases bs; simp)
  have L: "list_all (\<lambda>b. P (node m' b)) xs = list_all (\<lambda>b. P (node m b)) xs" if "set xs \<subseteq> set bs" for P xs
    using that f(4) by (intro list.pred_cong) auto
  note L' = L [OF order_refl, where P = ring_ok] L [OF sub(1), where P = "\<lambda>b. b_pop b = 0"]
    L [OF sub(2), where P = "\<lambda>b. b_count b = 0"]
  show ?thesis
    using ok f(1,2) assms(4) unfolding read_ok_def read_shape_def same_read_def L' by simp
qed

subsection \<open>A concrete connection\<close>

text \<open>
  A connection with nodes of four bytes: it holds the received bytes \<open>bcd\<close> and \<open>ef\<close> in two
  nodes, and the byte \<open>z\<close> still to send in a third.  The witnesses evaluate on it.
\<close>

definition demo_pool :: pool where
  "demo_pool = BufferPool 4 64"

definition demo_mem :: mem where
  "demo_mem = \<lparr>cells =
     [0 \<mapsto> \<lparr>b_bytes = ''abcd'', b_capacity = 4, b_count = 3, b_push = 0, b_pop = 1, b_next = Addr 1\<rparr>,
      1 \<mapsto> \<lparr>b_bytes = ''efgh'', b_capacity = 4, b_count = 2, b_push = 2, b_pop = 0, b_next = Null\<rparr>,
      2 \<mapsto> \<lparr>b_bytes = ''yzyy'', b_capacity = 4, b_count = 1, b_push = 2, b_pop = 1, b_next = Null\<rparr>],
     fresh = 3, junk = CHR ''?''\<rparr>"

definition demo_conn :: conn where
  "demo_conn = \<lparr>sockFd = 7, establish_flag = True, close_flag = False,
     chan = (enableAll (new_channel 7))\<lparr>ch_started := True, ch_readable := True, ch_writeable := True\<rparr>,
     readHead = Addr 0, readTail = Addr 1, readSize = 5,
     writeHead = Addr 2, writeTail = Addr 2, writeSize = 1\<rparr>"

lemma demo_nodes [simp]:
  "node demo_mem 0 = \<lparr>b_bytes = ''abcd'', b_capacity = 4, b_count = 3, b_push = 0, b_pop = 1, b_next = Addr 1\<rparr>"
  "node demo_mem (Suc 0) = \<lparr>b_bytes = ''efgh'', b_capacity = 4, b_count = 2, b_push = 2, b_pop = 0, b_next = Null\<rparr>"
  "node demo_mem 2 = \<lparr>b_bytes = ''yzyy'', b_capacity = 4, b_count = 1, b_push = 2, b_pop = 1, b_next = Null\<rparr>"
  by (simp_all add: node_def demo_mem_def)

lemma demo_fields [simp]:
  "readSize demo_conn = 5" "writeSize demo_conn = 1" "readHead demo_conn = Addr 0"
  "readTail demo_conn = Addr (Suc 0)" "writeHead demo_conn = Addr 2" "writeTail demo_conn = Addr 2"
  "fresh demo_mem = 3"
  by (simp_all add: demo_conn_def demo_mem_def)

lemma demo_read_bytes [simp]: "chain_bytes demo_mem [0, Suc 0] = ''bcdef''"
  by (simp add: ring_bytes_def)

lemma demo_read_ok: "read_ok demo_mem demo_conn [0, Suc 0] (Suc 0)"
  by (simp add: read_ok_def read_shape_def demo_conn_def ring_ok_def)
    (simp add: demo_mem_def)

lemma demo_mem_ok: "mem_ok demo_mem"
  by (simp add: mem_ok_def demo_mem_def)

lemma demo_write_ok: "write_ok demo_mem demo_conn [2]"
  by (simp add: write_ok_def ring_ok_def ring_bytes_def) (simp add: demo_mem_def)

lemma demo_write_bytes [simp]: "chain_bytes demo_mem [2] = ''z''"
  by (simp add: ring_bytes_def)

lemma demo_pool_ok: "pool_ok demo_pool"
  by (simp add: pool_ok_def demo_pool_def BufferPool_def)

end
