(* ===== verification/TcpBuffers.thy ===== *)
theory TcpBuffers
  imports TcpState
begin

section \<open>Reading and writing the buffers (net/TcpConnection.cpp)\<close>

text \<open>
  \<open>PeekData\<close>, \<open>ReadData\<close> and \<open>writeData\<close>, statement by statement.  A \<open>uint32_t\<close> value is a
  \<open>nat\<close> below \<open>2 ^ 32\<close> and its arithmetic wraps; \<open>size_t\<close> values are never near their bound
  here.  The user's array is written from its start without gaps, so the bytes copied to it are
  returned in order; \<open>data\<close> says whether the pointer is non-null.  The loops follow pointers and
  need not end, so they are \<open>partial_function (option)\<close>: \<open>None\<close> is undefined behaviour or a
  loop that does not end, and the theorems show neither happens.
\<close>

subsection \<open>PeekData\<close>

partial_function (option) peek_rest :: "mem \<Rightarrow> ptr \<Rightarrow> nat \<Rightarrow> bytes \<Rightarrow> bytes option" where
  "peek_rest m readhead rearsize out = do {
     h \<leftarrow> deref m readhead;
     let readcount = b_count h;
     if rearsize < readcount then do {
       x \<leftarrow> rd (b_bytes h) 0 rearsize;
       Some (out @ x) }
     else do {
       x \<leftarrow> rd (b_bytes h) 0 readcount;
       if readcount < rearsize then
         (if 0 < sub32 rearsize readcount
          then peek_rest m (b_next h) (sub32 rearsize readcount) (out @ x)
          else Some (out @ x))
       else Some (out @ x) } }"

declare peek_rest.simps [code]

definition PeekData :: "bool \<Rightarrow> nat \<Rightarrow> mem \<Rightarrow> conn \<Rightarrow> (bool \<times> bytes) option" where
  "PeekData data sz m c =
     (if \<not> data \<or> sz = 0 \<or> readSize c < sz then Some (False, [])
      else do {
        h \<leftarrow> deref m (readHead c);
        let readcount = b_count h;
        let rearcount = sub32 (b_capacity h) (b_pop h);
        if sz < readcount then do {
          x \<leftarrow> copy_out h rearcount sz;
          Some (True, x) }
        else do {
          x \<leftarrow> copy_out h rearcount readcount;
          if readcount < sz then do {
            out \<leftarrow> peek_rest m (b_next h) (sub32 (u32 sz) readcount) x;
            Some (True, out) }
          else Some (True, x) } })"

subsection \<open>ReadData\<close>

text \<open>What follows when exactly the content of the head was read: reset it or move on.\<close>

definition read_move :: "mem \<Rightarrow> conn \<Rightarrow> (mem \<times> conn) option" where
  "read_move m c =
     (if readHead c = readTail c then do {
        h \<leftarrow> deref m (readHead c);
        m' \<leftarrow> store m (readHead c) (h\<lparr>b_push := 0, b_pop := 0, b_count := 0\<rparr>);
        Some (m', c) }
      else do {
        (n, m') \<leftarrow> putNext m (readHead c);
        Some (m', c\<lparr>readHead := n\<rparr>) })"

partial_function (option) read_rest ::
  "mem \<Rightarrow> conn \<Rightarrow> nat \<Rightarrow> bytes \<Rightarrow> (bytes \<times> mem \<times> conn) option" where
  "read_rest m c rearsize out = do {
     h \<leftarrow> deref m (readHead c);
     let readcount = b_count h;
     if rearsize < readcount then do {
       x \<leftarrow> rd (b_bytes h) 0 rearsize;
       m' \<leftarrow> store m (readHead c) (h\<lparr>b_pop := rearsize\<rparr>);
       Some (out @ x, m', c) }
     else do {
       x \<leftarrow> rd (b_bytes h) 0 readcount;
       if readcount < rearsize then do {
         (n, m') \<leftarrow> putNext m (readHead c);
         if 0 < sub32 rearsize readcount
         then read_rest m' (c\<lparr>readHead := n\<rparr>) (sub32 rearsize readcount) (out @ x)
         else Some (out @ x, m', c\<lparr>readHead := n\<rparr>) }
       else do {
         (m', c') \<leftarrow> read_move m c;
         Some (out @ x, m', c') } } }"

declare read_rest.simps [code]

definition ReadData :: "bool \<Rightarrow> nat \<Rightarrow> mem \<Rightarrow> conn \<Rightarrow> (bool \<times> bytes \<times> mem \<times> conn) option" where
  "ReadData data sz m c =
     (if \<not> data \<or> sz = 0 \<or> readSize c < sz then Some (False, [], m, c)
      else do {
        h \<leftarrow> deref m (readHead c);
        let readcount = b_count h;
        let rearcount = sub32 (b_capacity h) (b_pop h);
        (out, m', c') \<leftarrow>
          (if sz < readcount then do {
             out \<leftarrow> copy_out h rearcount sz;
             pop' \<leftarrow> (if rearcount < sz then Some (sub32 (u32 sz) rearcount)
                      else umod (add32 (b_pop h) (u32 sz)) (b_capacity h));
             m' \<leftarrow> store m (readHead c) (h\<lparr>b_pop := pop', b_count := sub32 readcount (u32 sz)\<rparr>);
             Some (out, m', c) }
           else do {
             out \<leftarrow> copy_out h rearcount readcount;
             if readcount < sz then do {
               (n, m') \<leftarrow> putNext m (readHead c);
               read_rest m' (c\<lparr>readHead := n\<rparr>) (sub32 (u32 sz) readcount) out }
             else do {
               (m', c') \<leftarrow> read_move m c;
               Some (out, m', c') } });
        Some (True, out, m', c'\<lparr>readSize := readSize c - sz\<rparr>) })"

subsection \<open>writeData\<close>

text \<open>
  \<open>data\<close> is the user's array (\<open>None\<close> for a null pointer); a copy that reads beyond it is
  undefined.
\<close>

partial_function (option) write_rest ::
  "pool \<Rightarrow> mem \<Rightarrow> ptr \<Rightarrow> bytes \<Rightarrow> nat \<Rightarrow> nat \<Rightarrow> (mem \<times> ptr) option" where
  "write_rest pl m wtail data off rearsize =
     (if 0 < rearsize then do {
        (t, m1) \<leftarrow> takeNext pl m wtail;
        b \<leftarrow> deref m1 t;
        let writecount = b_capacity b;
        if writecount < rearsize then do {
          x \<leftarrow> rd data off writecount;
          d \<leftarrow> wr (b_bytes b) 0 x;
          m2 \<leftarrow> store m1 t (b\<lparr>b_bytes := d, b_count := b_capacity b\<rparr>);
          write_rest pl m2 t data (off + writecount) (sub32 rearsize writecount) }
        else do {
          x \<leftarrow> rd data off rearsize;
          d \<leftarrow> wr (b_bytes b) 0 x;
          m2 \<leftarrow> store m1 t (b\<lparr>b_bytes := d, b_count := rearsize, b_push := rearsize\<rparr>);
          Some (m2, t) } }
      else Some (m, wtail))"

declare write_rest.simps [code]

definition writeData :: "pool \<Rightarrow> bytes option \<Rightarrow> nat \<Rightarrow> mem \<Rightarrow> conn \<Rightarrow> (bool \<times> mem \<times> conn) option" where
  "writeData pl dat sz m c =
     (case dat of None \<Rightarrow> Some (False, m, c)
      | Some data \<Rightarrow>
        if sz = 0 then Some (False, m, c)
        else do {
          t \<leftarrow> deref m (writeTail c);
          let writecount = sub32 (b_capacity t) (b_count t);
          let rearcount = sub32 (b_capacity t) (b_push t);
          (m', wtail) \<leftarrow>
            (if sz < writecount then do {
               x \<leftarrow> rd data 0 sz;
               t' \<leftarrow> copy_in t rearcount x;
               push' \<leftarrow> (if rearcount < sz then Some (sub32 (u32 sz) rearcount)
                        else umod (add32 (b_push t) (u32 sz)) (b_capacity t));
               m' \<leftarrow> store m (writeTail c) (t'\<lparr>b_push := push', b_count := add32 (b_count t) (u32 sz)\<rparr>);
               Some (m', writeTail c) }
             else if 0 < writecount then do {
               x \<leftarrow> rd data 0 writecount;
               t' \<leftarrow> copy_in t rearcount x;
               m' \<leftarrow> store m (writeTail c) (t'\<lparr>b_push := b_pop t, b_count := b_capacity t\<rparr>);
               write_rest pl m' (writeTail c) data writecount (sub32 (u32 sz) writecount) }
             else write_rest pl m (writeTail c) data 0 (u32 sz));
          Some (True, m', c\<lparr>writeTail := wtail, writeSize := writeSize c + sz\<rparr>) })"

end
