(* ===== verification/TcpRecv.thy ===== *)
theory TcpRecv
  imports TcpBuffers
begin

section \<open>The receive buffer: PeekData and ReadData\<close>

text \<open>
  What the two operations do on a chain that satisfies \<open>read_ok\<close>: no step is undefined, both
  return the oldest bytes, and \<open>ReadData\<close> removes them, except when it stops inside a node it
  did not start in; there the code leaves the node's count as it was.
\<close>

subsection \<open>PeekData\<close>

lemma peek_rest_correct:
  assumes "chain m p as" "list_all (\<lambda>a. ring_ok (node m a) \<and> b_pop (node m a) = 0) as"
    "0 < n" "n \<le> length (chain_bytes m as)" "n < 2 ^ 32"
  shows "peek_rest m p n out = Some (out @ take n (chain_bytes m as))"
  using assms
proof (induction as arbitrary: p n out)
  case Nil
  then show ?case by simp
next
  case (Cons a as)
  obtain b where b: "p = Addr a" "cells m a = Some b" "node m a = b" "chain m (b_next b) as"
    using Cons.prems(1) by (rule chain_Cons_cases)
  have ok: "ring_ok b" "b_pop b = 0" and rest: "list_all (\<lambda>a. ring_ok (node m a) \<and> b_pop (node m a) = 0) as"
    using Cons.prems(2) b(3) by auto
  show ?case
  proof (cases "b_count b < n")
    case True
    have sub: "sub32 n (b_count b) = n - b_count b" "0 < n - b_count b"
      using True Cons.prems(5) by (simp_all add: u32_simps)
    have "peek_rest m (b_next b) (n - b_count b) (out @ ring_bytes b)
        = Some ((out @ ring_bytes b) @ take (n - b_count b) (chain_bytes m as))"
      using True Cons.prems ok b(3) by (intro Cons.IH [OF b(4) rest]) auto
    then show ?thesis
      using True ok b sub by (subst peek_rest.simps) (simp add: rd_pop0 Let_def)
  next
    case False
    then show ?thesis
      using ok b by (subst peek_rest.simps) (auto simp: rd_pop0 Let_def not_less)
  qed
qed

lemma sub32_capacity_pop [u32_simps]:
  "ring_ok b \<Longrightarrow> sub32 (b_capacity b) (b_pop b) = b_capacity b - b_pop b"
  "ring_ok b \<Longrightarrow> sub32 (b_capacity b) (b_push b) = b_capacity b - b_push b"
  "ring_ok b \<Longrightarrow> sub32 (b_capacity b) (b_count b) = b_capacity b - b_count b"
  using ring_okD [of b] by (simp_all add: u32_simps)

lemma read_shape_head:
  assumes "read_shape m c as k"
  obtains a as' b where "as = a # as'" "readHead c = Addr a" "cells m a = Some b" "node m a = b"
    "chain m (b_next b) as'" "ring_ok b" "a \<notin> set as'" "distinct as'"
    "list_all (\<lambda>a. ring_ok (node m a) \<and> b_pop (node m a) = 0) as'"
proof -
  obtain a as' where as: "as = a # as'"
    using assms by (cases as) (auto simp: read_shape_def)
  then have c: "chain m (readHead c) (a # as')"
    using assms by (simp add: read_shape_def)
  show ?thesis
    by (rule chain_Cons_cases [OF c]; rule that [OF as])
      (use assms as in \<open>auto simp: read_shape_def list_all_iff\<close>)
qed

lemma PeekData_correct:
  assumes ok: "read_ok m c as k" and n: "0 < n" "n \<le> readSize c" "n < 2 ^ 32"
  shows "PeekData True n m c = Some (True, take n (chain_bytes m as))"
proof -
  obtain a as' b where h: "as = a # as'" "readHead c = Addr a" "cells m a = Some b" "node m a = b"
    "chain m (b_next b) as'" "ring_ok b"
    and rest: "list_all (\<lambda>a. ring_ok (node m a) \<and> b_pop (node m a) = 0) as'"
    using ok by (auto simp: read_ok_def elim: read_shape_head)
  have len: "n \<le> b_count b + length (chain_bytes m as')"
    using ok n(2) h by (auto simp: read_ok_def)
  show ?thesis
  proof (cases "b_count b < n")
    case True
    have "peek_rest m (b_next b) (n - b_count b) (ring_bytes b)
        = Some (ring_bytes b @ take (n - b_count b) (chain_bytes m as'))"
      using True len n by (intro peek_rest_correct [OF h(5) rest]) auto
    then show ?thesis
      using True n h by (simp add: PeekData_def u32_simps copy_out_ring Let_def)
  next
    case False
    then show ?thesis
      using n h by (auto simp: PeekData_def u32_simps copy_out_ring Let_def not_less)
  qed
qed

subsection \<open>ReadData\<close>

lemma read_shape_next:
  assumes sh: "read_shape m c (a # as) k" and k: "0 < k"
  shows "read_shape (del_cell m a) (c\<lparr>readHead := b_next (node m a)\<rparr>) as (k - 1)"
proof -
  obtain b where h: "readHead c = Addr a" "node m a = b" "chain m (b_next b) as" "a \<notin> set as" "distinct as"
    using sh by (auto elim: read_shape_head)
  have same: "node (del_cell m a) x = node m x" if "x \<in> set as" for x
    using that h(4) node_del_cell by metis
  have "list_all P (tl as)" if "list_all P as" for P :: "nat \<Rightarrow> bool"
    using that by (cases as) auto
  moreover have L: "list_all (\<lambda>x. P (node (del_cell m a) x)) xs = list_all (\<lambda>x. P (node m x)) xs"
    if "set xs \<subseteq> set as" for P xs
    unfolding list_all_iff using that same by (metis subsetD)
  moreover have "set (tl as) \<subseteq> set as" "set (drop k as) \<subseteq> set as"
    by (auto simp: set_drop_subset dest: list.set_sel in_set_dropD) (cases as; auto)
  ultimately show ?thesis
    using sh k h L [where P = ring_ok] L [where P = "\<lambda>b. b_pop b = 0"] L [where P = "\<lambda>b. b_count b = 0"]
    by (auto simp: read_shape_def chain_del_cell_other nth_Cons')
qed

lemma read_shape_reset:
  assumes sh: "read_shape m c (a # as) 0"
  shows "read_shape (set_cell m a ((node m a)\<lparr>b_push := 0, b_pop := 0, b_count := 0\<rparr>)) c (a # as) 0"
proof -
  have "node (set_cell m a b) x = node m x" if "x \<in> set as" for x b
    using that sh by (auto simp: read_shape_def)
  moreover have "ring_ok ((node m a)\<lparr>b_push := 0, b_pop := 0, b_count := 0\<rparr>)"
    using sh by (auto simp: read_shape_def ring_ok_def)
  moreover have "chain (set_cell m a ((node m a)\<lparr>b_push := 0, b_pop := 0, b_count := 0\<rparr>)) (readHead c) (a # as)"
    using sh by (intro chain_set_cell) (auto simp: read_shape_def)
  ultimately show ?thesis
    using sh by (auto simp: read_shape_def list_all_iff simp del: chain.simps)
qed

lemma read_move_correct:
  assumes sh: "read_shape m c as k"
  shows "\<exists>m' c' j. read_move m c = Some (m', c') \<and> c' = c\<lparr>readHead := readHead c'\<rparr> \<and> j \<le> k
    \<and> read_shape m' c' (drop j as) (k - j) \<and> chain_bytes m' (drop j as) = chain_bytes m (tl as)
    \<and> same_but (set as) m m' \<and> fresh m' = fresh m"
proof -
  obtain a as' b where h: "as = a # as'" "readHead c = Addr a" "cells m a = Some b" "node m a = b"
    "ring_ok b" "a \<notin> set as'"
    using sh by (rule read_shape_head)
  show ?thesis
  proof (cases "k = 0")
    case True
    let ?m = "set_cell m a (b\<lparr>b_push := 0, b_pop := 0, b_count := 0\<rparr>)"
    have "read_move m c = Some (?m, c)"
      using sh h True by (simp add: read_move_def read_shape_def store_Addr)
    moreover have "read_shape ?m c as 0"
      using read_shape_reset sh h True by auto
    ultimately show ?thesis
      using h True by (intro exI [of _ ?m] exI [of _ c] exI [of _ 0]) (auto simp: ring_bytes_def)
  next
    case False
    have "readHead c \<noteq> readTail c"
      using sh h False by (auto simp: read_shape_def nth_Cons')
    then have "read_move m c = Some (del_cell m a, c\<lparr>readHead := b_next b\<rparr>)"
      using h by (simp add: read_move_def putNext_Addr)
    moreover have "read_shape (del_cell m a) (c\<lparr>readHead := b_next b\<rparr>) as' (k - 1)"
      using read_shape_next [of m c a as' k] sh h False by auto
    ultimately show ?thesis
      using h False
      by (intro exI [of _ "del_cell m a"] exI [of _ "c\<lparr>readHead := b_next b\<rparr>"] exI [of _ 1]) auto
  qed
qed

text \<open>
  The loop that walks on to the next nodes.  When the bytes asked for end at the end of a
  node's content, the result is the chain without them; \<open>j\<close> is that node's index.
\<close>

lemma take_chain_bytes:
  "n = length (chain_bytes m (take j as)) \<Longrightarrow> take n (chain_bytes m as) = chain_bytes m (take j as)
   \<and> drop n (chain_bytes m as) = chain_bytes m (drop j as)"
  using chain_bytes_append [of m "take j as" "drop j as"] by simp

lemma read_rest_boundary:
  assumes "read_shape m c as k" "list_all (\<lambda>a. b_pop (node m a) = 0) as" "j \<le> k"
    "n = length (chain_bytes m (take (Suc j) as))" "0 < n" "n < 2 ^ 32"
  shows "\<exists>m' c' i. read_rest m c n out = Some (out @ take n (chain_bytes m as), m', c')
    \<and> c' = c\<lparr>readHead := readHead c'\<rparr> \<and> i \<le> k \<and> read_shape m' c' (drop i as) (k - i)
    \<and> chain_bytes m' (drop i as) = drop n (chain_bytes m as)
    \<and> same_but (set as) m m' \<and> fresh m' = fresh m"
  using assms
proof (induction as arbitrary: m c k j n out)
  case Nil
  then show ?case by (simp add: read_shape_def)
next
  case (Cons a as)
  let ?next = "c\<lparr>readHead := b_next (node m a)\<rparr>"
  obtain b where h: "readHead c = Addr a" "cells m a = Some b" "node m a = b" "ring_ok b" "a \<notin> set as"
    using Cons.prems(1) by (auto elim: read_shape_head)
  have pop0: "b_pop b = 0" and rest0: "list_all (\<lambda>a. b_pop (node m a) = 0) as"
    using Cons.prems(2) h by auto
  have n: "n = b_count b + length (chain_bytes m (take j as))"
    using Cons.prems(4) h by simp
  show ?case
  proof (cases "b_count b = n")
    case True
    obtain m' c' i where mv: "read_move m c = Some (m', c')" "c' = c\<lparr>readHead := readHead c'\<rparr>" "i \<le> k"
      "read_shape m' c' (drop i (a # as)) (k - i)" "chain_bytes m' (drop i (a # as)) = chain_bytes m as"
      "same_but (set (a # as)) m m'" "fresh m' = fresh m"
      using read_move_correct [OF Cons.prems(1)] by auto
    have "read_rest m c n out = Some (out @ take n (chain_bytes m (a # as)), m', c')"
      using True h pop0 mv(1) by (subst read_rest.simps) (simp add: Let_def rd_pop0)
    then show ?thesis
      using True h mv by (intro exI [of _ m'] exI [of _ c'] exI [of _ i]) simp
  next
    case False
    then have less: "b_count b < n" and j: "0 < j"
      using n by (cases j; simp)+
    let ?m = "del_cell m a"
    have sh: "read_shape ?m ?next as (k - 1)"
      using Cons.prems(1,3) j by (intro read_shape_next) auto
    have same: "node ?m x = node m x" if "x \<in> set as" for x
      using that h(5) node_del_cell by metis
    have eq: "chain_bytes ?m xs = chain_bytes m xs" if "set xs \<subseteq> set as" for xs
      using that h(5) by (intro chain_bytes_del_other) auto
    have pop: "list_all (\<lambda>a. b_pop (node ?m a) = 0) as"
      using rest0 same by (auto simp: list_all_iff)
    have nb: "n - b_count b = length (chain_bytes ?m (take (Suc (j - 1)) as))" "0 < n - b_count b"
      "n - b_count b < 2 ^ 32" "j - 1 \<le> k - 1"
      using n j less Cons.prems(3,6) by (simp_all add: eq set_take_subset)
    obtain m' c' i where
      r: "read_rest ?m ?next (n - b_count b) (out @ ring_bytes b)
        = Some ((out @ ring_bytes b) @ take (n - b_count b) (chain_bytes ?m as), m', c')"
      and post: "c' = ?next\<lparr>readHead := readHead c'\<rparr>" "i \<le> k - 1" "read_shape m' c' (drop i as) (k - 1 - i)"
      "chain_bytes m' (drop i as) = drop (n - b_count b) (chain_bytes ?m as)"
      "same_but (set as) ?m m'" "fresh m' = fresh ?m"
      using Cons.IH [OF sh pop nb(4,1,2,3), of "out @ ring_bytes b"] by blast
    have "sub32 n (b_count b) = n - b_count b"
      using less Cons.prems(6) by (simp add: u32_simps)
    then have "read_rest m c n out = Some (out @ take n (chain_bytes m (a # as)), m', c')"
      using less h pop0 r by (subst read_rest.simps) (simp add: Let_def rd_pop0 putNext_Addr)
    moreover have "same_but (set (a # as)) m m'"
      using post(5) by (intro same_but_trans [OF _ post(5)]) auto
    ultimately show ?thesis
      using post less h j Cons.prems(3)
      by (intro exI [of _ m'] exI [of _ c'] exI [of _ "Suc i"]) auto
  qed
qed

text \<open>
  When they end inside a node that is not the first one read here, that node keeps its count;
  only its position moves.
\<close>

lemma read_rest_mid:
  assumes "read_shape m c as k" "list_all (\<lambda>a. b_pop (node m a) = 0) as" "j \<le> k" "j < length as"
    "n = length (chain_bytes m (take j as)) + r" "0 < r" "r < b_count (node m (as ! j))" "n < 2 ^ 32"
  shows "\<exists>m'. read_rest m c n out = Some (out @ take n (chain_bytes m as), m', c\<lparr>readHead := Addr (as ! j)\<rparr>)
    \<and> chain m' (Addr (as ! j)) (drop j as) \<and> node m' (as ! j) = (node m (as ! j))\<lparr>b_pop := r\<rparr>
    \<and> (\<forall>x\<in>set (drop (Suc j) as). node m' x = node m x)
    \<and> same_but (set as) m m' \<and> fresh m' = fresh m"
  using assms
proof (induction as arbitrary: m c k j n out)
  case Nil
  then show ?case by simp
next
  case (Cons a as)
  let ?next = "c\<lparr>readHead := b_next (node m a)\<rparr>"
  obtain b where h: "readHead c = Addr a" "cells m a = Some b" "node m a = b" "ring_ok b" "a \<notin> set as"
    using Cons.prems(1) by (auto elim: read_shape_head)
  have pop0: "b_pop b = 0" and rest0: "list_all (\<lambda>a. b_pop (node m a) = 0) as"
    using Cons.prems(2) h by auto
  show ?case
  proof (cases j)
    case 0
    let ?m = "set_cell m a (b\<lparr>b_pop := r\<rparr>)"
    have "c\<lparr>readHead := Addr a\<rparr> = c"
      using h(1) by (metis conn.surjective conn.update_convs(5))
    then have "read_rest m c n out = Some (out @ take n (chain_bytes m (a # as)), ?m, c\<lparr>readHead := Addr a\<rparr>)"
      using h pop0 0 Cons.prems(5,7)
      by (subst read_rest.simps) (simp add: Let_def rd_pop0 store_Addr)
    moreover have "chain ?m (readHead c) (a # as)"
      using Cons.prems(1) h by (intro chain_set_cell) (auto simp: read_shape_def)
    moreover have "\<forall>x\<in>set as. node ?m x = node m x"
      using h(5) by auto
    ultimately show ?thesis
      using 0 h by (intro exI [of _ ?m]) simp
  next
    case (Suc i)
    let ?m = "del_cell m a"
    have same: "node ?m x = node m x" if "x \<in> set as" for x
      using that h(5) node_del_cell by metis
    have eq: "chain_bytes ?m xs = chain_bytes m xs" if "set xs \<subseteq> set as" for xs
      using that h(5) by (intro chain_bytes_del_other) auto
    have less: "b_count b < n" and i: "i < length as"
      using Cons.prems(4,5,6) Suc h by auto
    have at: "node ?m (as ! i) = node m (as ! i)"
      using i same by auto
    have sh: "read_shape ?m ?next as (k - 1)"
      using Cons.prems(1,3) Suc by (intro read_shape_next) auto
    have pop: "list_all (\<lambda>a. b_pop (node ?m a) = 0) as"
      using rest0 same by (auto simp: list_all_iff)
    have nb: "i \<le> k - 1" "n - b_count b = length (chain_bytes ?m (take i as)) + r"
      "r < b_count (node ?m (as ! i))" "n - b_count b < 2 ^ 32"
      using Cons.prems Suc h at by (auto simp: eq set_take_subset)
    obtain m' where
      r: "read_rest ?m ?next (n - b_count b) (out @ ring_bytes b)
        = Some ((out @ ring_bytes b) @ take (n - b_count b) (chain_bytes ?m as), m',
            ?next\<lparr>readHead := Addr (as ! i)\<rparr>)"
      and post: "chain m' (Addr (as ! i)) (drop i as)" "node m' (as ! i) = (node ?m (as ! i))\<lparr>b_pop := r\<rparr>"
      "\<forall>x\<in>set (drop (Suc i) as). node m' x = node ?m x" "same_but (set as) ?m m'" "fresh m' = fresh ?m"
      using Cons.IH [OF sh pop nb(1) i nb(2) Cons.prems(6) nb(3,4), of "out @ ring_bytes b"] by blast
    have "sub32 n (b_count b) = n - b_count b"
      using less Cons.prems(8) by (simp add: u32_simps)
    then have "read_rest m c n out = Some (out @ take n (chain_bytes m (a # as)), m', c\<lparr>readHead := Addr (as ! i)\<rparr>)"
      using less h pop0 r by (subst read_rest.simps) (simp add: Let_def rd_pop0 putNext_Addr)
    moreover have "same_but (set (a # as)) m m'"
      by (intro same_but_trans [OF _ post(4)]) auto
    moreover have "\<forall>x\<in>set (drop (Suc i) as). node m' x = node m x"
      using post(3) same by (metis in_set_dropD)
    ultimately show ?thesis
      using post at Suc by (intro exI [of _ m']) simp
  qed
qed

text \<open>Where a read of \<open>n\<close> bytes ends: at the end of a node's content, or inside one.\<close>

lemma read_end_cases:
  assumes n: "0 < n" "n \<le> length (chain_bytes m (take (Suc k) as))" and k: "k < length as"
    and ok: "list_all (\<lambda>a. ring_ok (node m a)) as"
  obtains j where "j \<le> k" "n = length (chain_bytes m (take (Suc j) as))"
  | j r where "j \<le> k" "0 < r" "r < b_count (node m (as ! j))" "n = length (chain_bytes m (take j as)) + r"
proof -
  define j where "j = (LEAST j. n \<le> length (chain_bytes m (take (Suc j) as)))"
  have le: "n \<le> length (chain_bytes m (take (Suc j) as))"
    unfolding j_def by (rule LeastI) (rule n(2))
  have jk: "j \<le> k"
    unfolding j_def by (rule Least_le) (rule n(2))
  have gt: "length (chain_bytes m (take j as)) < n"
  proof (cases j)
    case 0
    then show ?thesis using n by simp
  next
    case (Suc i)
    then have "\<not> n \<le> length (chain_bytes m (take (Suc i) as))"
      using not_less_Least [of i "\<lambda>j. n \<le> length (chain_bytes m (take (Suc j) as))"] by (simp add: j_def)
    then show ?thesis using Suc by simp
  qed
  have "take (Suc j) as = take j as @ [as ! j]"
    using jk k by (simp add: take_Suc_conv_app_nth)
  moreover have "ring_ok (node m (as ! j))"
    using ok jk k by (simp add: list_all_length)
  ultimately have "length (chain_bytes m (take (Suc j) as))
      = length (chain_bytes m (take j as)) + b_count (node m (as ! j))"
    by simp
  with le gt jk show ?thesis
    using that(1) [OF jk] that(2) [of j "n - length (chain_bytes m (take j as))"] by linarith
qed

lemma chain_bytes_upto_tail:
  assumes "read_shape m c as k"
  shows "chain_bytes m (take (Suc k) as) = chain_bytes m as"
proof -
  have "chain_bytes m (drop (Suc k) as) = []"
    using assms by (intro chain_bytes_empty) (auto simp: read_shape_def list_all_iff)
  then show ?thesis
    using chain_bytes_append [of m "take (Suc k) as" "drop (Suc k) as"] by simp
qed

text \<open>The head alone: the position and the count move together.\<close>

lemma ReadData_head:
  assumes ok: "read_ok m c as k" and a: "readHead c = Addr a" "cells m a = Some b"
    and n: "0 < n" "n < b_count b"
  shows "ReadData True n m c
    = Some (True, take n (chain_bytes m as), set_cell m a (pop_by n b), c\<lparr>readSize := readSize c - n\<rparr>)"
proof -
  obtain as' where h: "as = a # as'" "node m a = b" "ring_ok b"
    using ok a by (auto simp: read_ok_def elim: read_shape_head)
  note k = ring_okD [OF h(3)]
  have le: "n \<le> b_capacity b" "n < 2 ^ 32" using n k by linarith+
  have size: "n \<le> readSize c"
    using ok h n by (auto simp: read_ok_def)
  have "(if b_capacity b - b_pop b < n then Some (sub32 (u32 n) (b_capacity b - b_pop b))
      else umod (add32 (b_pop b) (u32 n)) (b_capacity b)) = Some (advance (b_capacity b) (b_pop b) n)"
    using k le by (auto simp: advance_def u32_simps)
  moreover have "sub32 (b_count b) (u32 n) = b_count b - n"
    using n k le by (simp add: u32_simps)
  ultimately show ?thesis
    using a n h size le
    by (simp add: ReadData_def Let_def u32_simps copy_out_ring store_Addr pop_by_def cong: if_cong)
qed

lemma read_ok_pop_head:
  assumes ok: "read_ok m c as k" and a: "readHead c = Addr a" "cells m a = Some b" and n: "n < b_count b"
  shows "read_ok (set_cell m a (pop_by n b)) (c\<lparr>readSize := readSize c - n\<rparr>) as k
    \<and> chain_bytes (set_cell m a (pop_by n b)) as = drop n (chain_bytes m as)"
proof -
  obtain as' where h: "as = a # as'" "node m a = b" "ring_ok b" "a \<notin> set as'"
    using ok a by (auto simp: read_ok_def elim: read_shape_head)
  let ?m = "set_cell m a (pop_by n b)"
  have same: "node ?m x = node m x" if "x \<in> set as'" for x
    using that h(4) by auto
  have "set (drop k as') \<subseteq> set as'"
    by (rule set_drop_subset)
  moreover have "chain ?m (readHead c) as"
    using ok h by (intro chain_set_cell) (auto simp: read_ok_def read_shape_def pop_by_def)
  moreover have bytes: "chain_bytes ?m as = drop n (chain_bytes m as)"
    using h n by (simp add: pop_by_bytes)
  ultimately have "read_shape ?m (c\<lparr>readSize := readSize c - n\<rparr>) as k"
    using ok h n same ring_ok_pop_by [OF h(3) n]
    by (auto simp: read_ok_def read_shape_def list_all_iff subset_iff simp del: chain.simps)
  then show ?thesis
    using ok bytes by (simp add: read_ok_def)
qed

definition ends_well :: "mem \<Rightarrow> nat list \<Rightarrow> nat \<Rightarrow> bool" where
  "ends_well m as n \<longleftrightarrow> n < b_count (node m (hd as))
     \<or> (\<exists>j<length as. n = length (chain_bytes m (take (Suc j) as)))"

lemma read_shape_size [simp]: "read_shape m (c\<lparr>readSize := n\<rparr>) as k = read_shape m c as k"
  by (simp add: read_shape_def)

subsection \<open>What ReadData leaves alone\<close>

text \<open>Whatever the state, a call changes two fields of the connection, and no unused memory.\<close>

definition read_frame :: "mem \<Rightarrow> conn \<Rightarrow> mem \<Rightarrow> conn \<Rightarrow> bool" where
  "read_frame m c m' c' \<longleftrightarrow> (mem_ok m \<longrightarrow> mem_ok m')
     \<and> c' = c\<lparr>readHead := readHead c', readSize := readSize c'\<rparr>"

lemma read_frame_refl [simp]: "read_frame m c m c"
  by (simp add: read_frame_def)

lemma read_frame_head: "(mem_ok m \<Longrightarrow> mem_ok m') \<Longrightarrow> read_frame m c m' (c\<lparr>readHead := p\<rparr>)"
  by (simp add: read_frame_def)

lemma read_frame_mem: "(mem_ok m \<Longrightarrow> mem_ok m') \<Longrightarrow> read_frame m c m' c"
  by (simp add: read_frame_def)

lemma read_frame_trans: "read_frame m c m1 c1 \<Longrightarrow> read_frame m1 c1 m2 c2 \<Longrightarrow> read_frame m c m2 c2"
  unfolding read_frame_def by (cases c; cases c1; cases c2) simp

lemma store_mem_ok: "store m p b = Some m' \<Longrightarrow> mem_ok m \<Longrightarrow> mem_ok m'"
  by (cases p) (auto simp: store_def mem_ok_def split: option.splits if_splits)

lemma putNext_mem_ok: "putNext m p = Some (q, m') \<Longrightarrow> mem_ok m \<Longrightarrow> mem_ok m'"
  by (auto simp: putNext_def put_buf_def mem_ok_def bind_eq_Some_conv split: ptr.splits option.splits if_splits)

lemma read_move_frame: "read_move m c = Some (m', c') \<Longrightarrow> read_frame m c m' c'"
  by (auto simp: read_move_def bind_eq_Some_conv intro!: read_frame_head read_frame_mem
      elim: store_mem_ok putNext_mem_ok split: if_splits)

lemma read_rest_frame:
  assumes "read_rest m c n out = Some r"
  shows "read_frame m c (fst (snd r)) (snd (snd r))"
proof (rule read_rest.raw_induct [where P = "\<lambda>m c n out r. read_frame m c (fst (snd r)) (snd (snd r))", OF _ assms], goal_cases)
  case (1 rec m c n out y)
  have next': "read_frame m c (fst (snd y)) (snd (snd y))"
    if "putNext m (readHead c) = Some (p, m1)" "rec m1 (c\<lparr>readHead := p\<rparr>) k x = Some y" for p m1 k x
    using 1(1) [OF that(2)] read_frame_head [of m m1 c p] putNext_mem_ok [OF that(1)] read_frame_trans by blast
  show ?case
    using 1(2) next'
    by (auto simp: bind_eq_Some_conv Let_def intro!: read_frame_head read_frame_mem
        elim: store_mem_ok putNext_mem_ok dest: read_move_frame split: if_splits)
qed

lemma ReadData_frame:
  assumes "ReadData dat n m c = Some (b, out, m', c')"
  shows "read_frame m c m' c'"
proof -
  have size: "read_frame m c m1 (c1\<lparr>readSize := k\<rparr>)" if "read_frame m c m1 c1" for m1 c1 k
    using that unfolding read_frame_def by (cases c; cases c1) simp
  have rest: "read_frame m c m2 c2"
    if "putNext m (readHead c) = Some (p, m1)" "read_rest m1 (c\<lparr>readHead := p\<rparr>) k x = Some (y, m2, c2)" for p m1 k x y m2 c2
    using read_rest_frame [OF that(2)] read_frame_head [of m m1 c p] putNext_mem_ok [OF that(1)] read_frame_trans
    by fastforce
  show ?thesis
    using assms
    by (auto simp: ReadData_def bind_eq_Some_conv Let_def intro!: size read_frame_mem
        elim: store_mem_ok dest: read_move_frame rest split: if_splits)
qed

lemma ReadData_eq_head:
  assumes ok: "read_ok m c as k" and h: "readHead c = Addr a" "cells m a = Some b"
    and n: "n = b_count b" "0 < n"
    and mv: "read_move m c = Some (m', c')"
  shows "ReadData True n m c = Some (True, take n (chain_bytes m as), m', c'\<lparr>readSize := readSize c - n\<rparr>)"
proof -
  obtain as' where "as = a # as'" "node m a = b" "ring_ok b"
    using ok h by (auto simp: read_ok_def elim: read_shape_head)
  then show ?thesis
    using ok h n mv by (simp add: ReadData_def Let_def u32_simps copy_out_ring read_ok_def)
qed

lemma ReadData_beyond:
  assumes ok: "read_ok m c (a # as) k" and h: "readHead c = Addr a" "cells m a = Some b"
    and n: "b_count b < n" "n \<le> readSize c" "n < 2 ^ 32"
    and r: "read_rest (del_cell m a) (c\<lparr>readHead := b_next b\<rparr>) (n - b_count b) (ring_bytes b)
      = Some (out, m', c')"
  shows "ReadData True n m c = Some (True, out, m', c'\<lparr>readSize := readSize c - n\<rparr>)"
proof -
  have "ring_ok b"
    using ok h by (auto simp: read_ok_def elim: read_shape_head)
  then show ?thesis
    using ok h n r by (simp add: ReadData_def Let_def u32_simps copy_out_ring putNext_Addr)
qed

text \<open>The state that \<open>read_rest\<close> starts in.\<close>

lemma read_rest_start:
  assumes ok: "read_ok m c as k" and n: "b_count (node m (hd as)) < n" "n \<le> readSize c"
  obtains a b as' where "as = a # as'" "readHead c = Addr a" "cells m a = Some b" "node m a = b" "ring_ok b"
    "0 < k" "read_shape (del_cell m a) (c\<lparr>readHead := b_next b\<rparr>) as' (k - 1)"
    "list_all (\<lambda>x. b_pop (node (del_cell m a) x) = 0) as'"
    "\<And>xs. set xs \<subseteq> set as' \<Longrightarrow> chain_bytes (del_cell m a) xs = chain_bytes m xs"
    "\<And>x. x \<in> set as' \<Longrightarrow> node (del_cell m a) x = node m x"
    "n - b_count b \<le> length (chain_bytes m (take k as'))"
proof -
  have sh: "read_shape m c as k" and size: "readSize c = length (chain_bytes m as)"
    using ok by (auto simp: read_ok_def)
  obtain a as' b where h: "as = a # as'" "readHead c = Addr a" "cells m a = Some b" "node m a = b"
    "ring_ok b" "a \<notin> set as'" "list_all (\<lambda>a. ring_ok (node m a) \<and> b_pop (node m a) = 0) as'"
    using sh by (rule read_shape_head)
  have up: "chain_bytes m (take (Suc k) as) = chain_bytes m as"
    using sh by (rule chain_bytes_upto_tail)
  have k: "0 < k"
  proof (rule ccontr)
    assume "\<not> 0 < k"
    with up h have "chain_bytes m as = ring_bytes b" by simp
    with n size h show False by simp
  qed
  have same: "node (del_cell m a) x = node m x" if "x \<in> set as'" for x
    using that h(6) node_del_cell by metis
  have eq: "chain_bytes (del_cell m a) xs = chain_bytes m xs" if "set xs \<subseteq> set as'" for xs
    using that h(6) by (intro chain_bytes_del_other) auto
  have sh': "read_shape (del_cell m a) (c\<lparr>readHead := b_next b\<rparr>) as' (k - 1)"
    using read_shape_next [of m c a as' k] sh h k by simp
  have pop: "list_all (\<lambda>x. b_pop (node (del_cell m a) x) = 0) as'"
    using h(7) same by (auto simp: list_all_iff)
  have "n - b_count b \<le> length (chain_bytes m (take k as'))"
    using n size up h by (metis chain_bytes_Cons le_diff_conv length_append length_ring_bytes
        add.commute take_Suc_Cons)
  then show ?thesis
    using that [OF h(1-5) k sh' pop eq same] by blast
qed

lemma ReadData_boundary:
  assumes ok: "read_ok m c as k" and n: "0 < n" "n \<le> readSize c" "n < 2 ^ 32"
    and j: "j \<le> k" "n = length (chain_bytes m (take (Suc j) as))"
  shows "\<exists>m' c' i. ReadData True n m c = Some (True, take n (chain_bytes m as), m', c') \<and> i \<le> k
    \<and> read_ok m' c' (drop i as) (k - i) \<and> chain_bytes m' (drop i as) = drop n (chain_bytes m as)
    \<and> same_but (set as) m m' \<and> fresh m' = fresh m"
proof -
  have sh: "read_shape m c as k" and size: "readSize c = length (chain_bytes m as)"
    using ok by (auto simp: read_ok_def)
  obtain a as' b where h: "as = a # as'" "readHead c = Addr a" "cells m a = Some b" "node m a = b" "ring_ok b"
    using sh by (rule read_shape_head)
  show ?thesis
  proof (cases "n = b_count b")
    case True
    obtain m' c' i where mv: "read_move m c = Some (m', c')" "i \<le> k" "read_shape m' c' (drop i as) (k - i)"
      "chain_bytes m' (drop i as) = chain_bytes m (tl as)" "same_but (set as) m m'" "fresh m' = fresh m"
      using read_move_correct [OF sh] by blast
    have "chain_bytes m (tl as) = drop n (chain_bytes m as)"
      using True h by simp
    then show ?thesis
      using ReadData_eq_head [OF ok h(2,3) True n(1) mv(1)] mv size
      by (intro exI [of _ m'] exI [of _ "c'\<lparr>readSize := readSize c - n\<rparr>"] exI [of _ i])
        (simp add: read_ok_def)
  next
    case False
    then have less: "b_count (node m (hd as)) < n" and j0: "0 < j"
      using j h by (cases j; simp)+
    obtain a b as' where h: "as = a # as'" "readHead c = Addr a" "cells m a = Some b" "node m a = b" "ring_ok b"
      and k: "0 < k" and sh': "read_shape (del_cell m a) (c\<lparr>readHead := b_next b\<rparr>) as' (k - 1)"
      and pop: "list_all (\<lambda>x. b_pop (node (del_cell m a) x) = 0) as'"
      and eq: "\<And>xs. set xs \<subseteq> set as' \<Longrightarrow> chain_bytes (del_cell m a) xs = chain_bytes m xs"
      by (rule read_rest_start [OF ok less n(2)]) blast
    have nb: "j - 1 \<le> k - 1" "n - b_count b = length (chain_bytes (del_cell m a) (take (Suc (j - 1)) as'))"
      "0 < n - b_count b" "n - b_count b < 2 ^ 32"
      using j j0 h less n(3) by (simp_all add: eq set_take_subset)
    obtain m' c' i where r: "read_rest (del_cell m a) (c\<lparr>readHead := b_next b\<rparr>) (n - b_count b) (ring_bytes b)
        = Some (ring_bytes b @ take (n - b_count b) (chain_bytes (del_cell m a) as'), m', c')"
      and post: "i \<le> k - 1" "read_shape m' c' (drop i as') (k - 1 - i)"
      "chain_bytes m' (drop i as') = drop (n - b_count b) (chain_bytes (del_cell m a) as')"
      "same_but (set as') (del_cell m a) m'" "fresh m' = fresh (del_cell m a)"
      using read_rest_boundary [OF sh' pop nb] by blast
    have "same_but (set as) m m'"
      by (rule same_but_trans [OF _ post(4)]) (auto simp: h)
    then show ?thesis
      using ReadData_beyond [OF _ h(2,3) _ n(2,3) r, of as' k] ok less h post k size
      by (intro exI [of _ m'] exI [of _ "c'\<lparr>readSize := readSize c - n\<rparr>"] exI [of _ "Suc i"])
        (auto simp: read_ok_def eq)
  qed
qed

lemma ReadData_mid:
  assumes ok: "read_ok m c as k" and n: "n \<le> readSize c" "n < 2 ^ 32"
    and j: "0 < j" "j \<le> k" "n = length (chain_bytes m (take j as)) + r" "0 < r" "r < b_count (node m (as ! j))"
  shows "\<exists>m' c'. ReadData True n m c = Some (True, take n (chain_bytes m as), m', c')
    \<and> c' = c\<lparr>readHead := Addr (as ! j), readSize := readSize c - n\<rparr>
    \<and> chain m' (Addr (as ! j)) (drop j as) \<and> node m' (as ! j) = (node m (as ! j))\<lparr>b_pop := r\<rparr>
    \<and> (\<forall>x\<in>set (drop (Suc j) as). node m' x = node m x)
    \<and> same_but (set as) m m' \<and> fresh m' = fresh m"
proof -
  have sh: "read_shape m c as k" and size: "readSize c = length (chain_bytes m as)"
    using ok by (auto simp: read_ok_def)
  obtain i where i: "j = Suc i" using j(1) by (cases j) auto
  have less: "b_count (node m (hd as)) < n"
    using sh j i by (auto elim!: read_shape_head)
  obtain a b as' where h: "as = a # as'" "readHead c = Addr a" "cells m a = Some b" "node m a = b" "ring_ok b"
    and k: "0 < k" and sh': "read_shape (del_cell m a) (c\<lparr>readHead := b_next b\<rparr>) as' (k - 1)"
    and pop: "list_all (\<lambda>x. b_pop (node (del_cell m a) x) = 0) as'"
    and eq: "\<And>xs. set xs \<subseteq> set as' \<Longrightarrow> chain_bytes (del_cell m a) xs = chain_bytes m xs"
    and same: "\<And>x. x \<in> set as' \<Longrightarrow> node (del_cell m a) x = node m x"
    by (rule read_rest_start [OF ok less n(1)]) blast
  have il: "i < length as'"
    using sh h j i by (auto simp: read_shape_def)
  have nb: "i \<le> k - 1" "i < length as'" "n - b_count b = length (chain_bytes (del_cell m a) (take i as')) + r"
    "0 < r" "r < b_count (node (del_cell m a) (as' ! i))" "n - b_count b < 2 ^ 32"
    using j i h less n(2) il by (auto simp: eq same set_take_subset)
  obtain m' where r: "read_rest (del_cell m a) (c\<lparr>readHead := b_next b\<rparr>) (n - b_count b) (ring_bytes b)
      = Some (ring_bytes b @ take (n - b_count b) (chain_bytes (del_cell m a) as'), m',
          c\<lparr>readHead := b_next b\<rparr>\<lparr>readHead := Addr (as' ! i)\<rparr>)"
    and post: "chain m' (Addr (as' ! i)) (drop i as')"
    "node m' (as' ! i) = (node (del_cell m a) (as' ! i))\<lparr>b_pop := r\<rparr>"
    "\<forall>x\<in>set (drop (Suc i) as'). node m' x = node (del_cell m a) x"
    "same_but (set as') (del_cell m a) m'" "fresh m' = fresh (del_cell m a)"
    using read_rest_mid [OF sh' pop nb] by blast
  have "same_but (set as) m m'"
    by (rule same_but_trans [OF _ post(4)]) (auto simp: h)
  moreover have "\<forall>x\<in>set (drop (Suc i) as'). node m' x = node m x"
    using post(3) same by (metis in_set_dropD)
  ultimately show ?thesis
    using ReadData_beyond [OF _ h(2,3) _ n r, of as'] ok less h post i il size
    by (intro exI [of _ m'] exI [of _ "c\<lparr>readHead := Addr (as ! j), readSize := readSize c - n\<rparr>"])
      (auto simp: eq same)
qed

lemma read_end:
  assumes ok: "read_ok m c as k" and n: "0 < n" "n \<le> readSize c"
  obtains (boundary) j where "j \<le> k" "n = length (chain_bytes m (take (Suc j) as))"
  | (mid) j r where "j \<le> k" "0 < r" "r < b_count (node m (as ! j))" "n = length (chain_bytes m (take j as)) + r"
proof (rule read_end_cases [OF n(1), of m k as])
  show "n \<le> length (chain_bytes m (take (Suc k) as))"
    using ok n(2) chain_bytes_upto_tail by (auto simp: read_ok_def)
qed (use ok in \<open>auto simp: read_ok_def read_shape_def\<close>)

lemma ReadData_head_ok:
  assumes ok: "read_ok m c as k" and n: "0 < n" "n < b_count (node m (hd as))"
  shows "\<exists>m' c'. ReadData True n m c = Some (True, take n (chain_bytes m as), m', c')
    \<and> read_ok m' c' as k \<and> chain_bytes m' as = drop n (chain_bytes m as)
    \<and> same_but (set as) m m' \<and> fresh m' = fresh m"
proof -
  obtain a as' b where h: "as = a # as'" "readHead c = Addr a" "cells m a = Some b" "node m a = b"
    using ok by (auto simp: read_ok_def elim: read_shape_head)
  then have nb: "n < b_count b" using n by simp
  show ?thesis
    using ReadData_head [OF ok h(2,3) n(1) nb] read_ok_pop_head [OF ok h(2,3) nb] h(1)
    by (intro exI [of _ "set_cell m a (pop_by n b)"] exI [of _ "c\<lparr>readSize := readSize c - n\<rparr>"]) auto
qed

lemma ReadData_ends_well:
  assumes ok: "read_ok m c as k" and n: "0 < n" "n \<le> readSize c" "n < 2 ^ 32" and e: "ends_well m as n"
  shows "\<exists>m' c' i. ReadData True n m c = Some (True, take n (chain_bytes m as), m', c')
    \<and> read_ok m' c' (drop i as) (k - i) \<and> chain_bytes m' (drop i as) = drop n (chain_bytes m as)
    \<and> same_but (set as) m m'"
proof (cases "n < b_count (node m (hd as))")
  case True
  from ReadData_head_ok [OF ok n(1) True] show ?thesis
    by (metis drop0 diff_zero)
next
  case False
  then obtain j where j: "j < length as" "n = length (chain_bytes m (take (Suc j) as))"
    using e by (auto simp: ends_well_def)
  have sh: "read_shape m c as k" using ok by (simp add: read_ok_def)
  have "n = length (chain_bytes m (take (Suc (min j k)) as))"
  proof (cases "j \<le> k")
    case False
    then have "take (Suc j) as = as"
      using sh j(1) by (intro take_all) (auto simp: read_shape_def)
    with False j(2) show ?thesis
      using chain_bytes_upto_tail [OF sh] by (simp add: min_def)
  qed (use j in \<open>simp add: min_def\<close>)
  from ReadData_boundary [OF ok n _ this] show ?thesis by fastforce
qed

subsection \<open>Properties\<close>

text \<open>
  C8: \<open>ReadData\<close> for any number of bytes up to \<open>readSize_\<close> returns exactly the oldest bytes,
  across any number of nodes, without undefined behaviour; \<open>PeekData\<close> returns the same bytes;
  the counter goes down by that number and no node outside the connection's chain is touched.
\<close>

theorem ReadData_returns_oldest:
  assumes ok: "read_ok m c as k" and n: "0 < n" "n \<le> readSize c" "n < 2 ^ 32"
  shows "PeekData True n m c = Some (True, take n (chain_bytes m as))
    \<and> (\<exists>m' c'. ReadData True n m c = Some (True, take n (chain_bytes m as), m', c')
        \<and> readSize c' = readSize c - n \<and> same_but (set as) m m')"
proof (intro conjI PeekData_correct [OF ok n])
  from ok n(1,2) show "\<exists>m' c'. ReadData True n m c = Some (True, take n (chain_bytes m as), m', c')
      \<and> readSize c' = readSize c - n \<and> same_but (set as) m m'"
  proof (cases rule: read_end)
    case (boundary j)
    obtain m' c' i where "ReadData True n m c = Some (True, take n (chain_bytes m as), m', c')"
      "read_ok m' c' (drop i as) (k - i)" "chain_bytes m' (drop i as) = drop n (chain_bytes m as)" "same_but (set as) m m'"
      using ReadData_boundary [OF ok n boundary] by blast
    then show ?thesis using ok by (auto simp: read_ok_def)
  next
    case (mid j r)
    show ?thesis
    proof (cases "j = 0")
      case True
      have "as \<noteq> []" using ok by (auto simp: read_ok_def read_shape_def)
      with True mid have "n < b_count (node m (hd as))" by (simp add: hd_conv_nth)
      from ReadData_head_ok [OF ok n(1) this] show ?thesis
        using ok by (auto simp: read_ok_def)
    next
      case False
      then show ?thesis
        using ReadData_mid [OF ok n(2,3) _ mid(1,4,2,3)] by fastforce
    qed
  qed
qed

lemma ReadData_returns_oldest_witness:
  "PeekData True 4 demo_mem demo_conn = Some (True, ''bcde'')
   \<and> (\<exists>m' c'. ReadData True 4 demo_mem demo_conn = Some (True, ''bcde'', m', c') \<and> readSize c' = 1)"
  using ReadData_returns_oldest [OF demo_read_ok, of 4] by (auto simp: ring_bytes_def)

text \<open>
  C7: when \<open>ReadData\<close> stops in the node it started in, or where a node's content ends, it
  removes exactly the bytes it returned: the chain, its pointers and its counters are again
  well formed and hold the remaining bytes.
\<close>

theorem ReadData_removes:
  assumes ok: "read_ok m c as k" and n: "0 < n" "n \<le> readSize c" "n < 2 ^ 32" and e: "ends_well m as n"
  shows "\<exists>m' c' i. ReadData True n m c = Some (True, take n (chain_bytes m as), m', c')
    \<and> read_ok m' c' (drop i as) (k - i) \<and> chain_bytes m' (drop i as) = drop n (chain_bytes m as)"
  using ReadData_ends_well [OF assms] by blast

lemma ReadData_removes_witness:
  "\<exists>m' c' i. ReadData True 3 demo_mem demo_conn = Some (True, ''bcd'', m', c')
    \<and> read_ok m' c' (drop i [0, Suc 0]) (1 - i) \<and> chain_bytes m' (drop i [0, Suc 0]) = ''ef''"
proof -
  have "ends_well demo_mem [0, Suc 0] 3"
    unfolding ends_well_def by (intro disjI2 exI [of _ 0]) (simp add: ring_bytes_def)
  then show ?thesis
    using ReadData_removes [OF demo_read_ok, of 3] by (simp add: ring_bytes_def)
qed

text \<open>
  C34: when it stops inside a later node, that node's \<open>count\<close> is not reduced: the buffers then
  claim to hold as many stale bytes, beyond \<open>readSize_\<close>, as were just read from that node, and
  the node is no longer a well-formed ring.
\<close>

theorem ReadData_keeps_stale_count:
  assumes ok: "read_ok m c as k" and n: "n \<le> readSize c" "n < 2 ^ 32"
    and j: "0 < j" "j \<le> k" "n = length (chain_bytes m (take j as)) + r" "0 < r" "r < b_count (node m (as ! j))"
  shows "\<exists>m' c'. ReadData True n m c = Some (True, take n (chain_bytes m as), m', c')
    \<and> readHead c' = Addr (as ! j) \<and> b_count (node m' (as ! j)) = b_count (node m (as ! j))
    \<and> sum_list (map (\<lambda>a. b_count (node m' a)) (drop j as)) = readSize c' + r
    \<and> \<not> ring_ok (node m' (as ! j))"
proof -
  obtain m' c' where r: "ReadData True n m c = Some (True, take n (chain_bytes m as), m', c')"
    "c' = c\<lparr>readHead := Addr (as ! j), readSize := readSize c - n\<rparr>"
    "node m' (as ! j) = (node m (as ! j))\<lparr>b_pop := r\<rparr>" "\<forall>x\<in>set (drop (Suc j) as). node m' x = node m x"
    using ReadData_mid [OF ok n j] by blast
  have sh: "read_shape m c as k" and size: "readSize c = length (chain_bytes m as)"
    using ok by (auto simp: read_ok_def)
  have jl: "j < length as" and rok: "list_all (\<lambda>a. ring_ok (node m a)) as"
    using sh j by (auto simp: read_shape_def)
  have pop0: "b_pop (node m (as ! j)) = 0"
    using sh j(1) jl by (auto simp: read_shape_def list_all_length nth_tl dest: spec [of _ "j - 1"])
  have "map (\<lambda>a. b_count (node m' a)) (drop j as) = map (\<lambda>a. b_count (node m a)) (drop j as)"
    using r(3,4) jl by (simp add: Cons_nth_drop_Suc [symmetric])
  also have "sum_list \<dots> = length (chain_bytes m (drop j as))"
  proof -
    have "sum_list (map (\<lambda>a. b_count (node m a)) xs) = length (chain_bytes m xs)" if "set xs \<subseteq> set as" for xs
      using that rok by (induction xs) (auto simp: list_all_iff)
    then show ?thesis by (simp add: set_drop_subset)
  qed
  also have "\<dots> = readSize c' + r"
    using chain_bytes_append [of m "take j as" "drop j as"] r(2) size n(1) j(3) by simp
  finally have "sum_list (map (\<lambda>a. b_count (node m' a)) (drop j as)) = readSize c' + r" .
  moreover have "ring_ok (node m (as ! j))"
    using rok jl by (simp add: list_all_length)
  then have "\<not> ring_ok (node m' (as ! j))"
    using r(3) pop0 j(4,5) by (auto simp: ring_ok_def split: if_splits)
  ultimately show ?thesis
    using r(1-3) by simp
qed

lemma ReadData_keeps_stale_count_witness:
  "\<exists>m' c'. ReadData True 4 demo_mem demo_conn = Some (True, ''bcde'', m', c')
    \<and> readSize c' = 1 \<and> b_count (node m' (Suc 0)) = 2 \<and> \<not> ring_ok (node m' (Suc 0))"
proof -
  have "\<exists>m' c'. ReadData True 4 demo_mem demo_conn = Some (True, take 4 (chain_bytes demo_mem [0, Suc 0]), m', c')
    \<and> readHead c' = Addr ([0, Suc 0] ! 1) \<and> b_count (node m' ([0, Suc 0] ! 1)) = b_count (node demo_mem ([0, Suc 0] ! 1))
    \<and> sum_list (map (\<lambda>a. b_count (node m' a)) (drop 1 [0, Suc 0])) = readSize c' + 1
    \<and> \<not> ring_ok (node m' ([0, Suc 0] ! 1))"
    by (rule ReadData_keeps_stale_count [OF demo_read_ok]) (simp_all add: ring_bytes_def)
  then show ?thesis
    by (auto simp: ring_bytes_def)
qed

end
