(* ===== verification/TcpIo.thy ===== *)
theory TcpIo
  imports TcpBuffers
begin

section \<open>Socket events of a connection (net/TcpConnection.cpp)\<close>

text \<open>
  \<open>onRead\<close>, \<open>onWrite\<close>, \<open>onClose\<close> and \<open>send\<close>.  The kernel is not part of the program:
  \<open>readv\<close> and \<open>writev\<close> are parameters that act on an environment \<open>'w\<close>.  \<open>rv lens w\<close> is the
  answer to a \<open>readv\<close> into segments of these lengths: \<open>None\<close> for a negative result, else the
  bytes that arrived (none at the end of the stream).  \<open>wv segs w\<close> is the answer to a
  \<open>writev\<close> of these segments: \<open>None\<close>, or how many bytes the kernel took.  The user's and the
  owner's callbacks are parameters on the whole state; a callback that is not set is \<open>None\<close>.
\<close>

type_synonym 'w readv = "nat list \<Rightarrow> 'w \<Rightarrow> bytes option \<times> 'w"
type_synonym 'w writev = "bytes list \<Rightarrow> 'w \<Rightarrow> nat option \<times> 'w"
type_synonym 'w tcp = "mem \<times> conn \<times> 'w"

record 'w tcp_callbacks =
  connectCallback :: "('w tcp \<Rightarrow> 'w tcp option) option"
  recvCallback :: "(nat \<Rightarrow> 'w tcp \<Rightarrow> 'w tcp option) option"
  sendCallback :: "(nat \<Rightarrow> 'w tcp \<Rightarrow> 'w tcp option) option"
  disconnectCallback :: "('w tcp \<Rightarrow> 'w tcp option) option"
  connCloseCallback :: "('w tcp \<Rightarrow> 'w tcp option) option"

definition call :: "('s \<Rightarrow> 's option) option \<Rightarrow> 's \<Rightarrow> 's option" where
  "call cb s = (case cb of None \<Rightarrow> Some s | Some f \<Rightarrow> f s)"

text \<open>The setters, the last for the owner only.\<close>

definition setConnectCallback :: "('w tcp \<Rightarrow> 'w tcp option) option \<Rightarrow> 'w tcp_callbacks \<Rightarrow> 'w tcp_callbacks" where
  "setConnectCallback cb cbs = cbs\<lparr>connectCallback := cb\<rparr>"

definition setRecvCallback :: "(nat \<Rightarrow> 'w tcp \<Rightarrow> 'w tcp option) option \<Rightarrow> 'w tcp_callbacks \<Rightarrow> 'w tcp_callbacks" where
  "setRecvCallback cb cbs = cbs\<lparr>recvCallback := cb\<rparr>"

definition setSendCallback :: "(nat \<Rightarrow> 'w tcp \<Rightarrow> 'w tcp option) option \<Rightarrow> 'w tcp_callbacks \<Rightarrow> 'w tcp_callbacks" where
  "setSendCallback cb cbs = cbs\<lparr>sendCallback := cb\<rparr>"

definition setDisconnectCallback :: "('w tcp \<Rightarrow> 'w tcp option) option \<Rightarrow> 'w tcp_callbacks \<Rightarrow> 'w tcp_callbacks" where
  "setDisconnectCallback cb cbs = cbs\<lparr>disconnectCallback := cb\<rparr>"

definition setCloseCallback :: "('w tcp \<Rightarrow> 'w tcp option) option \<Rightarrow> 'w tcp_callbacks \<Rightarrow> 'w tcp_callbacks" where
  "setCloseCallback cb cbs = cbs\<lparr>connCloseCallback := cb\<rparr>"

subsection \<open>onClose\<close>

definition onClose_conn :: "'w tcp_callbacks \<Rightarrow> 'w tcp \<Rightarrow> 'w tcp option" where
  "onClose_conn cbs s =
     (case s of (m, c, w) \<Rightarrow>
       if close_flag c then Some s
       else do {
         s1 \<leftarrow> call (disconnectCallback cbs) (m, upd_chan disableAll (c\<lparr>close_flag := True\<rparr>), w);
         call (connCloseCallback cbs) s1 })"

subsection \<open>onRead\<close>

text \<open>A segment of a scatter or gather list: node, offset in its array, length.\<close>

type_synonym iovec = "ptr \<times> nat \<times> nat"

fun scatter :: "mem \<Rightarrow> iovec list \<Rightarrow> bytes \<Rightarrow> mem option" where
  "scatter m [] bs = (if bs = [] then Some m else None)"
| "scatter m ((p, off, len) # iov) bs = do {
     b \<leftarrow> deref m p;
     d \<leftarrow> wr (b_bytes b) off (take len bs);
     m' \<leftarrow> store m p (b\<lparr>b_bytes := d\<rparr>);
     scatter m' iov (drop len bs) }"

definition tail_iov :: "ptr \<Rightarrow> buffer \<Rightarrow> iovec list" where
  "tail_iov p t =
     (if 0 < sub32 (b_capacity t) (b_count t)
      then (if b_push t < b_pop t then [(p, b_push t, sub32 (b_capacity t) (b_count t))]
            else (p, b_push t, sub32 (b_capacity t) (b_push t))
                 # (if 0 < b_pop t then [(p, 0, b_pop t)] else []))
      else [])"

definition read_ahead :: "pool \<Rightarrow> mem \<Rightarrow> conn \<Rightarrow> buffer \<Rightarrow> (ptr \<times> mem) option" where
  "read_ahead pl m c t = do {
     has \<leftarrow> ptr_true (b_next t);
     if has then Some (b_next t, m) else takeNext pl m (readTail c) }"

text \<open>The bookkeeping after \<open>n > 0\<close> bytes arrived, \<open>n\<close> at most the room offered.\<close>

definition fill_tail :: "mem \<Rightarrow> conn \<Rightarrow> ptr \<Rightarrow> nat \<Rightarrow> nat \<Rightarrow> (mem \<times> conn) option" where
  "fill_tail m c next rearcount n = do {
     t \<leftarrow> deref m (readTail c);
     if n < rearcount then do {
       push' \<leftarrow> umod (add32 (b_push t) (u32 n)) (b_capacity t);
       m' \<leftarrow> store m (readTail c) (t\<lparr>b_push := push', b_count := add32 (b_count t) (u32 n)\<rparr>);
       Some (m', c) }
     else do {
       m' \<leftarrow> store m (readTail c) (t\<lparr>b_push := b_pop t, b_count := b_capacity t\<rparr>);
       if rearcount < n then do {
         x \<leftarrow> deref m' next;
         m'' \<leftarrow> store m' next (x\<lparr>b_count := sub32 (u32 n) rearcount, b_push := sub32 (u32 n) rearcount\<rparr>);
         Some (m'', c\<lparr>readTail := next\<rparr>) }
       else Some (m', c) } }"

text \<open>One turn of the loop; the flag says whether the loop goes on.\<close>

definition onRead_step ::
  "pool \<Rightarrow> 'w readv \<Rightarrow> 'w tcp_callbacks \<Rightarrow> 'w tcp \<Rightarrow> (bool \<times> 'w tcp) option" where
  "onRead_step pl rv cbs s =
     (case s of (m, c, w) \<Rightarrow> do {
        t \<leftarrow> deref m (readTail c);
        let rearcount = sub32 (b_capacity t) (b_count t);
        (next, m1) \<leftarrow> read_ahead pl m c t;
        x \<leftarrow> deref m1 next;
        let iov = tail_iov (readTail c) t @ [(next, 0, b_capacity x)];
        (case rv (map (snd \<circ> snd) iov) w of
           (None, w') \<Rightarrow> Some (False, m1, upd_chan disableReadable c, w')
         | (Some bs, w') \<Rightarrow>
             if bs = [] then do {
               s' \<leftarrow> onClose_conn cbs (m1, c, w');
               Some (False, s') }
             else do {
               m2 \<leftarrow> scatter m1 iov bs;
               let sz = add32 rearcount (b_capacity x);
               if sz < length bs then Some (False, m2, upd_chan disableReadable c, w')
               else do {
                 (m3, c3) \<leftarrow> fill_tail m2 c next rearcount (length bs);
                 (m4, c4, w4) \<leftarrow> call (map_option (\<lambda>f. f (u32 (length bs))) (recvCallback cbs))
                   (m3, c3\<lparr>readSize := readSize c3 + length bs\<rparr>, w');
                 if length bs < sz then Some (False, m4, upd_chan disableReadable c4, w4)
                 else Some (True, m4, c4, w4) } }) })"

partial_function (option) onRead_loop ::
  "pool \<Rightarrow> 'w readv \<Rightarrow> 'w tcp_callbacks \<Rightarrow> 'w tcp \<Rightarrow> 'w tcp option" where
  "onRead_loop pl rv cbs s = do {
     (go_on, s') \<leftarrow> onRead_step pl rv cbs s;
     if go_on then onRead_loop pl rv cbs s' else Some s' }"

declare onRead_loop.simps [code]

definition onRead :: "pool \<Rightarrow> 'w readv \<Rightarrow> 'w tcp_callbacks \<Rightarrow> 'w tcp \<Rightarrow> 'w tcp option" where
  "onRead pl rv cbs s =
     (case s of (m, c, w) \<Rightarrow>
       if \<not> ch_readable (chan c) then Some s else onRead_loop pl rv cbs s)"

subsection \<open>onWrite\<close>

fun gather :: "mem \<Rightarrow> iovec list \<Rightarrow> bytes list option" where
  "gather m [] = Some []"
| "gather m ((p, off, len) # iov) = do {
     b \<leftarrow> deref m p;
     x \<leftarrow> rd (b_bytes b) off len;
     xs \<leftarrow> gather m iov;
     Some (x # xs) }"

definition head_iov :: "ptr \<Rightarrow> buffer \<Rightarrow> iovec list" where
  "head_iov p h =
     (if b_pop h < b_push h then [(p, b_pop h, b_count h)]
      else (p, b_pop h, sub32 (b_capacity h) (b_pop h))
           # (if 0 < b_push h then [(p, 0, b_push h)] else []))"

text \<open>The bookkeeping after the kernel took \<open>n\<close> bytes; \<open>next\<close> is the head's next pointer.\<close>

definition drain_head :: "mem \<Rightarrow> conn \<Rightarrow> ptr \<Rightarrow> nat \<Rightarrow> nat \<Rightarrow> (mem \<times> conn) option" where
  "drain_head m c next writecount n = do {
     h \<leftarrow> deref m (writeHead c);
     if n < writecount then do {
       pop' \<leftarrow> umod (add32 (b_pop h) (u32 n)) (b_capacity h);
       m' \<leftarrow> store m (writeHead c) (h\<lparr>b_pop := pop', b_count := sub32 (b_count h) (u32 n)\<rparr>);
       Some (m', c) }
     else if writecount < n then do {
       x \<leftarrow> deref m next;
       let pop' = sub32 (u32 n) writecount;
       m1 \<leftarrow> store m next (x\<lparr>b_pop := pop', b_count := sub32 (b_count x) pop'\<rparr>);
       (p, m2) \<leftarrow> putNext m1 (writeHead c);
       Some (m2, c\<lparr>writeHead := p\<rparr>) }
     else do {
       has \<leftarrow> ptr_true next;
       if has then do {
         (p, m') \<leftarrow> putNext m (writeHead c);
         Some (m', c\<lparr>writeHead := p\<rparr>) }
       else do {
         m' \<leftarrow> store m (writeHead c) (h\<lparr>b_push := 0, b_pop := 0, b_count := 0\<rparr>);
         Some (m', c) } } }"

definition onWrite_step ::
  "'w writev \<Rightarrow> 'w tcp_callbacks \<Rightarrow> 'w tcp \<Rightarrow> (bool \<times> 'w tcp) option" where
  "onWrite_step wv cbs s =
     (case s of (m, c, w) \<Rightarrow> do {
        h \<leftarrow> deref m (writeHead c);
        let writecount = b_count h;
        has \<leftarrow> ptr_true (b_next h);
        (iov, sz) \<leftarrow>
          (if has then do {
             x \<leftarrow> deref m (b_next h);
             Some (head_iov (writeHead c) h @ [(b_next h, 0, b_count x)], add32 writecount (b_count x)) }
           else Some (head_iov (writeHead c) h, writecount));
        segs \<leftarrow> gather m iov;
        (case wv segs w of
           (None, w') \<Rightarrow> Some (False, m, upd_chan disableWriteable c, w')
         | (Some n, w') \<Rightarrow>
             if sz < n then Some (False, m, upd_chan disableWriteable c, w')
             else do {
               (m1, c1) \<leftarrow> drain_head m c (b_next h) writecount n;
               (m2, c2, w2) \<leftarrow> call (map_option (\<lambda>f. f (u32 n)) (sendCallback cbs))
                 (m1, c1\<lparr>writeSize := sub64 (writeSize c1) n\<rparr>, w');
               if n < sz then Some (False, m2, upd_chan disableWriteable c2, w2)
               else Some (True, m2, c2, w2) }) })"

partial_function (option) onWrite_loop :: "'w writev \<Rightarrow> 'w tcp_callbacks \<Rightarrow> 'w tcp \<Rightarrow> 'w tcp option" where
  "onWrite_loop wv cbs s = do {
     (go_on, s') \<leftarrow> onWrite_step wv cbs s;
     if go_on then onWrite_loop wv cbs s' else Some s' }"

declare onWrite_loop.simps [code]

definition onWrite :: "'w writev \<Rightarrow> 'w tcp_callbacks \<Rightarrow> 'w tcp \<Rightarrow> 'w tcp option" where
  "onWrite wv cbs s =
     (case s of (m, c, w) \<Rightarrow>
       if \<not> ch_writeable (chan c) \<or> writeSize c = 0 then Some s else onWrite_loop wv cbs s)"

subsection \<open>send\<close>

definition send :: "pool \<Rightarrow> 'w writev \<Rightarrow> bytes \<Rightarrow> 'w tcp \<Rightarrow> 'w tcp option" where
  "send pl wv data s =
     (case s of (m, c, w) \<Rightarrow>
       (case wv [data] w of
          (None, w') \<Rightarrow> do {
            (_, m', c') \<leftarrow> writeData pl (Some data) (length data) m c;
            Some (m', c', w') }
        | (Some n, w') \<Rightarrow>
            if u32 n < length data then do {
              (_, m', c') \<leftarrow> writeData pl (Some (drop n data)) (length data - n) m c;
              Some (m', c', w') }
            else Some (m, c, w')))"

subsection \<open>The callbacks of the channel\<close>

text \<open>The constructor binds three event handlers; no error callback is set.\<close>

definition channel_callbacks :: "pool \<Rightarrow> 'w readv \<Rightarrow> 'w writev \<Rightarrow> 'w tcp_callbacks \<Rightarrow> 'w tcp callbacks" where
  "channel_callbacks pl rv wv cbs =
     \<lparr>closeCallback = Some (onClose_conn cbs), errorCallback = None,
      readCallback = Some (onRead pl rv cbs), writeCallback = Some (onWrite wv cbs)\<rparr>"

definition tcp_chan :: "'w tcp \<Rightarrow> channel" where
  "tcp_chan s = (case s of (m, c, w) \<Rightarrow> chan c)"

definition upd_tcp_chan :: "(channel \<Rightarrow> channel) \<Rightarrow> 'w tcp \<Rightarrow> 'w tcp" where
  "upd_tcp_chan f s = (case s of (m, c, w) \<Rightarrow> (m, upd_chan f c, w))"

text \<open>What the loop does with a connection whose channel is active.\<close>

definition handle_conn :: "pool \<Rightarrow> 'w readv \<Rightarrow> 'w writev \<Rightarrow> 'w tcp_callbacks \<Rightarrow> 'w tcp \<Rightarrow> 'w tcp option" where
  "handle_conn pl rv wv cbs s = handleEvents tcp_chan upd_tcp_chan (channel_callbacks pl rv wv cbs) s"

end
