(* ===== verification/TcpSend.thy ===== *)
theory TcpSend
  imports TcpIo TcpRecv
begin

section \<open>The send buffer: writeData, onWrite and send\<close>

text \<open>
  \<open>writeData\<close> appends to the chain; one turn of \<open>onWrite\<close> hands the oldest bytes to the
  kernel and removes what it took.  The last part shows where the loop of \<open>onWrite\<close> and the
  direct write of \<open>send\<close> break that picture.
\<close>

subsection \<open>writeData\<close>

lemma write_fresh:
  assumes "ring_ok b" "b_pop b = 0" "b_push b = 0" "b_count b = 0" "length xs \<le> b_capacity b" "0 < length xs"
  obtains d where "wr (b_bytes b) 0 xs = Some d" "length d = b_capacity b"
    "ring_ok (b\<lparr>b_bytes := d, b_count := length xs, b_push := length xs\<rparr>)"
    "length xs = b_capacity b \<Longrightarrow> ring_ok (b\<lparr>b_bytes := d, b_count := length xs\<rparr>)"
    "\<And>p. ring_bytes (b\<lparr>b_bytes := d, b_count := length xs, b_push := p\<rparr>) = xs"
proof -
  let ?d = "xs @ drop (length xs) (b_bytes b)"
  have "wr (b_bytes b) 0 xs = Some ?d" "length ?d = b_capacity b"
    using assms ring_okD(1) [of b] by (simp_all add: wr_def)
  moreover have cap: "0 < b_capacity b"
    using assms(5,6) by linarith
  have l: "length ?d = b_capacity b"
    using assms ring_okD(1) [of b] by simp
  have "ring_ok (b\<lparr>b_bytes := ?d, b_count := length xs, b_push := length xs\<rparr>)"
    "length xs = b_capacity b \<Longrightarrow> ring_ok (b\<lparr>b_bytes := ?d, b_count := length xs\<rparr>)"
    using assms cap l unfolding ring_ok_def by simp_all
  moreover have "ring_bytes (b\<lparr>b_bytes := ?d, b_count := length xs, b_push := p\<rparr>) = xs" for p
    using assms by (simp add: ring_bytes_def)
  ultimately show ?thesis
    by (intro that [of ?d])
qed

text \<open>
  What a step that extends the chain \<open>as\<close> by new nodes leaves of the old ones: everything but
  the \<open>next\<close> pointer of the last.
\<close>

definition grown :: "mem \<Rightarrow> ptr \<Rightarrow> nat list \<Rightarrow> mem \<Rightarrow> nat list \<Rightarrow> bool" where
  "grown m p as m' as' \<longleftrightarrow> chain m' p (as @ as') \<and> distinct (as @ as') \<and> mem_ok m'
     \<and> (\<forall>x\<in>set as. b_bytes (node m' x) = b_bytes (node m x) \<and> b_capacity (node m' x) = b_capacity (node m x)
          \<and> b_count (node m' x) = b_count (node m x) \<and> b_push (node m' x) = b_push (node m x)
          \<and> b_pop (node m' x) = b_pop (node m x))
     \<and> list_all (\<lambda>a. ring_ok (node m' a) \<and> b_pop (node m' a) = 0 \<and> 0 < b_count (node m' a)) as'
     \<and> same_but (set as) m m' \<and> (\<forall>x\<in>set as'. fresh m \<le> x \<and> x < fresh m')"

lemma grownD:
  assumes "grown m p as m' as'"
  shows "chain m' p (as @ as')" "distinct (as @ as')" "mem_ok m'" "same_but (set as) m m'"
    "list_all (\<lambda>a. ring_ok (node m' a) \<and> b_pop (node m' a) = 0 \<and> 0 < b_count (node m' a)) as'"
    "\<forall>x\<in>set as'. fresh m \<le> x \<and> x < fresh m'"
  using assms by (simp_all add: grown_def)

lemma grown_refl: "chain m p as \<Longrightarrow> distinct as \<Longrightarrow> mem_ok m \<Longrightarrow> grown m p as m []"
  by (simp add: grown_def)

lemma ring_eq:
  assumes "b_bytes b' = b_bytes b" "b_capacity b' = b_capacity b" "b_count b' = b_count b"
    "b_push b' = b_push b" "b_pop b' = b_pop b"
  shows "ring_ok b' = ring_ok b" "ring_bytes b' = ring_bytes b"
  using assms by (simp_all add: ring_ok_def ring_bytes_def)

lemma grown_old:
  assumes "grown m p as m' as'" "x \<in> set as"
  shows "ring_ok (node m' x) = ring_ok (node m x)" "ring_bytes (node m' x) = ring_bytes (node m x)"
    "b_pop (node m' x) = b_pop (node m x)" "b_count (node m' x) = b_count (node m x)"
  using assms ring_eq [of "node m' x" "node m x"] unfolding grown_def by simp_all

lemma grown_bytes: "grown m p as m' as' \<Longrightarrow> chain_bytes m' as = chain_bytes m as"
  unfolding chain_bytes_def by (intro arg_cong [of _ _ concat] map_cong refl) (simp add: grown_old)

lemma grown_one:
  assumes ch: "chain m p as" "distinct as" "as \<noteq> []" and mo: "mem_ok m"
    and f: "ring_ok f" "b_pop f = 0" "b_next f = Null" "0 < b_count f"
  shows "grown m p as (set_cell (set_cell (alloc_cell m f0) (last as) ((node m (last as))\<lparr>b_next := Addr (fresh m)\<rparr>))
           (fresh m) f) [fresh m]"
    (is "grown m p as ?m [fresh m]")
proof -
  have fr: "x < fresh m" if "x \<in> set as" for x
    using chain_fresh [OF mo ch(1) that] .
  have "?m = set_cell (alloc_cell m f) (last as) ((node m (last as))\<lparr>b_next := Addr (fresh m)\<rparr>)"
    using fr [of "last as"] ch(3) by (auto simp: set_cell_def alloc_cell_def fun_eq_iff)
  then have "chain ?m p (as @ [fresh m])"
    using chain_extend [OF ch(1,3,2) _ f(3), of "(node m (last as))\<lparr>b_next := Addr (fresh m)\<rparr>"] fr by auto
  moreover have "mem_ok ?m"
    using mo fr [of "last as"] ch(3) by simp
  moreover have "same_but (set as) m ?m"
    using ch(3) by (auto simp: same_but_def)
  ultimately show ?thesis
    using ch f fr by (fastforce simp: grown_def)
qed

lemma grown_trans:
  assumes 1: "grown m p as m1 as1" and 2: "grown m1 p (as @ as1) m2 as2"
  shows "grown m p as m2 (as1 @ as2)"
proof -
  have "same_but (set as) m m2"
    by (rule same_but_trans [OF grownD(4) [OF 1] grownD(4) [OF 2]]) (use grownD(6) [OF 1] in auto)
  moreover have "list_all (\<lambda>a. ring_ok (node m2 a) \<and> b_pop (node m2 a) = 0 \<and> 0 < b_count (node m2 a)) (as1 @ as2)"
    using grownD(5) [OF 1] grown_old [OF 2] grownD(5) [OF 2] by (auto simp: list_all_iff)
  moreover have le: "fresh m \<le> fresh m1" "fresh m1 \<le> fresh m2"
    using grownD(4) [OF 1] grownD(4) [OF 2] by (simp_all add: same_but_def)
  have "\<forall>x\<in>set (as1 @ as2). fresh m \<le> x \<and> x < fresh m2"
    using grownD(6) [OF 1] grownD(6) [OF 2] le by fastforce
  moreover have "\<forall>x\<in>set as. b_bytes (node m2 x) = b_bytes (node m x) \<and> b_capacity (node m2 x) = b_capacity (node m x)
      \<and> b_count (node m2 x) = b_count (node m x) \<and> b_push (node m2 x) = b_push (node m x)
      \<and> b_pop (node m2 x) = b_pop (node m x)"
    using 1 2 by (simp add: grown_def)
  ultimately show ?thesis
    using grownD(1-3) [OF 2] unfolding grown_def by simp
qed

lemma write_rest_correct:
  assumes "pool_ok pl" "chain m p as" "distinct as" "as \<noteq> []" "mem_ok m"
    "off + n \<le> length data" "n < 2 ^ 32"
  shows "\<exists>m' as'. write_rest pl m (Addr (last as)) data off n = Some (m', Addr (last (as @ as')))
    \<and> grown m p as m' as' \<and> chain_bytes m' as' = take n (drop off data)"
  using assms
proof (induction n arbitrary: m as off rule: less_induct)
  case (less n)
  show ?case
  proof (cases "n = 0")
    case True
    then show ?thesis
      using less.prems by (subst write_rest.simps) (auto intro!: exI [of _ m] exI [of _ "[]"] grown_refl)
  next
    case n0: False
    let ?a = "fresh m" and ?f = "fresh_buffer pl m"
    let ?cap = "pool_capacity pl" and ?l = "node m (last as)"
    let ?m1 = "set_cell (alloc_cell m ?f) (last as) (?l\<lparr>b_next := Addr ?a\<rparr>)"
    have la: "cells m (last as) = Some ?l" "last as < ?a"
      using less.prems chain_node [of m p as] chain_fresh [of m p as] by auto
    have tn: "takeNext pl m (Addr (last as)) = Some (Addr ?a, ?m1)"
      using takeNext_alloc [OF la] .
    have at: "cells ?m1 ?a = Some ?f"
      using la(2) by simp
    have cap: "0 < ?cap" "?cap < 2 ^ 32"
      using less.prems(1) by (simp_all add: pool_ok_def)
    show ?thesis
    proof (cases "?cap < n")
      case True
      let ?x = "take ?cap (drop off data)"
      obtain d where d: "wr (b_bytes ?f) 0 ?x = Some d" "length d = b_capacity ?f"
        "ring_ok (?f\<lparr>b_bytes := d, b_count := length ?x\<rparr>)"
        "\<And>q. ring_bytes (?f\<lparr>b_bytes := d, b_count := length ?x, b_push := q\<rparr>) = ?x"
        by (rule write_fresh [of ?f ?x]) (use less.prems cap True in auto)
      have lx: "length ?x = ?cap" "rd data off ?cap = Some ?x"
        using less.prems(6) True by (auto simp: rd_def)
      let ?b = "?f\<lparr>b_bytes := d, b_count := ?cap\<rparr>"
      let ?m2 = "set_cell ?m1 ?a ?b"
      have g1: "grown m p as ?m2 [?a]"
        using less.prems d(3) lx cap by (intro grown_one) auto
      have rb: "ring_bytes ?b = ?x"
        using d(4) [of "b_push ?f"] lx(1) by (simp add: ring_bytes_def)
      have "\<exists>m' as'. write_rest pl ?m2 (Addr (last (as @ [?a]))) data (off + ?cap) (n - ?cap)
          = Some (m', Addr (last ((as @ [?a]) @ as'))) \<and> grown ?m2 p (as @ [?a]) m' as'
          \<and> chain_bytes m' as' = take (n - ?cap) (drop (off + ?cap) data)"
        by (rule less.IH [OF _ less.prems(1) grownD(1,2) [OF g1] _ grownD(3) [OF g1]])
          (use less.prems(6,7) cap True in linarith | simp)+
      then obtain m' as' where ih: "write_rest pl ?m2 (Addr (last (as @ [?a]))) data (off + ?cap) (n - ?cap)
          = Some (m', Addr (last ((as @ [?a]) @ as')))" "grown ?m2 p (as @ [?a]) m' as'"
          "chain_bytes m' as' = take (n - ?cap) (drop (off + ?cap) data)"
        by blast
      have w: "write_rest pl m (Addr (last as)) data off n = Some (m', Addr (last (as @ ?a # as')))"
        using True n0 tn at d(1) lx ih(1) less.prems(7) cap
        by (subst write_rest.simps) (simp add: Let_def u32_simps store_Addr)
      have "ring_bytes (node m' ?a) = ?x"
        using grown_old(2) [OF ih(2), of ?a] rb by simp
      then have "chain_bytes m' (?a # as') = take n (drop off data)"
        using ih(3) True take_add [of ?cap "n - ?cap" "drop off data"] by (simp add: add.commute)
      with w grown_trans [OF g1 ih(2)] show ?thesis
        by (intro exI [of _ m'] exI [of _ "?a # as'"]) simp
    next
      case False
      let ?x = "take n (drop off data)"
      have lx: "length ?x = n" "rd data off n = Some ?x"
        using less.prems(6) by (auto simp: rd_def)
      obtain d where d: "wr (b_bytes ?f) 0 ?x = Some d" "length d = b_capacity ?f"
        "ring_ok (?f\<lparr>b_bytes := d, b_count := length ?x, b_push := length ?x\<rparr>)"
        "\<And>q. ring_bytes (?f\<lparr>b_bytes := d, b_count := length ?x, b_push := q\<rparr>) = ?x"
        by (rule write_fresh [of ?f ?x]) (use less.prems cap False n0 lx in auto)
      let ?b = "?f\<lparr>b_bytes := d, b_count := n, b_push := n\<rparr>"
      let ?m2 = "set_cell ?m1 ?a ?b"
      have "grown m p as ?m2 [?a]"
        using less.prems d(3) lx n0 by (intro grown_one) auto
      moreover have "chain_bytes ?m2 [?a] = ?x"
        using d(4) [of n] lx by simp
      moreover have "write_rest pl m (Addr (last as)) data off n = Some (?m2, Addr (last (as @ [?a])))"
        using False n0 tn at d(1) lx by (subst write_rest.simps) (simp add: Let_def store_Addr)
      ultimately show ?thesis by blast
    qed
  qed
qed

text \<open>Adding bytes to the last node of the chain.\<close>

lemma chain_bytes_last:
  assumes "distinct as" "as \<noteq> []" "ring_bytes b = ring_bytes (node m (last as)) @ xs"
  shows "chain_bytes (set_cell m (last as) b) as = chain_bytes m as @ xs"
proof -
  have as: "as = butlast as @ [last as]"
    using assms(2) by simp
  have "last as \<notin> set (butlast as)"
    using assms(1) as by (metis distinct_append not_distinct_conv_prefix)
  then have "chain_bytes (set_cell m (last as) b) (butlast as @ [last as])
      = chain_bytes m (butlast as @ [last as]) @ xs"
    using assms(3) by simp
  then show ?thesis
    unfolding append_butlast_last_id [OF assms(2)] .
qed

lemma write_ok_last:
  assumes ok: "write_ok m c as" and b: "b_next b = b_next (node m (last as))" "ring_ok b"
    "b_pop b = b_pop (node m (last as))" "ring_bytes b = ring_bytes (node m (last as)) @ xs"
  shows "write_ok (set_cell m (last as) b) (c\<lparr>writeSize := writeSize c + length xs\<rparr>) as"
    "chain_bytes (set_cell m (last as) b) as = chain_bytes m as @ xs"
proof -
  show eq: "chain_bytes (set_cell m (last as) b) as = chain_bytes m as @ xs"
    using ok b(4) by (intro chain_bytes_last) (auto simp: write_ok_def)
  have "chain (set_cell m (last as) b) (writeHead c) as"
    using ok b(1) by (intro chain_set_cell) (auto simp: write_ok_def)
  then show "write_ok (set_cell m (last as) b) (c\<lparr>writeSize := writeSize c + length xs\<rparr>) as"
    using ok b eq by (auto simp: write_ok_def list_all_iff)
qed

lemma write_ok_grown:
  assumes ok: "write_ok m c as" and g: "grown m (writeHead c) as m' as'"
  shows "write_ok m' (c\<lparr>writeTail := Addr (last (as @ as')),
      writeSize := writeSize c + length (chain_bytes m' as')\<rparr>) (as @ as')"
    "chain_bytes m' (as @ as') = chain_bytes m as @ chain_bytes m' as'"
proof -
  show eq: "chain_bytes m' (as @ as') = chain_bytes m as @ chain_bytes m' as'"
    by (simp add: grown_bytes [OF g])
  have "set (tl as) \<subseteq> set as" "as \<noteq> []"
    using ok by (cases as; auto simp: write_ok_def)+
  then have "list_all (\<lambda>a. ring_ok (node m' a)) (as @ as')" "list_all (\<lambda>a. b_pop (node m' a) = 0) (tl (as @ as'))"
    using ok grownD(5) [OF g] grown_old [OF g] by (auto simp: write_ok_def list_all_iff)
  then show "write_ok m' (c\<lparr>writeTail := Addr (last (as @ as')),
      writeSize := writeSize c + length (chain_bytes m' as')\<rparr>) (as @ as')"
    using grownD(1,2) [OF g] eq ok \<open>as \<noteq> []\<close> by (simp add: write_ok_def)
qed

lemma write_tail:
  assumes "write_ok m c as" "mem_ok m"
  obtains b where "writeTail c = Addr (last as)" "cells m (last as) = Some b" "node m (last as) = b" "ring_ok b"
    "last as < fresh m" "last as \<in> set as"
  using assms chain_node [of m "writeHead c" as "last as"] chain_fresh [of m "writeHead c" as "last as"]
  by (auto simp: write_ok_def list_all_iff)

lemma ring_ok_full:
  assumes "ring_ok b" "length d = b_capacity b"
  shows "ring_ok (b\<lparr>b_bytes := d, b_push := b_pop b, b_count := b_capacity b\<rparr>)"
  using assms by (auto simp: ring_ok_def)

text \<open>
  Only a single node may be empty; the other operations of the sending side rely on it.
\<close>

definition packed :: "mem \<Rightarrow> nat list \<Rightarrow> bool" where
  "packed m as \<longleftrightarrow> tl as = [] \<or> list_all (\<lambda>a. 0 < b_count (node m a)) as"

lemma packed_set_last:
  assumes "0 < b_count b" "as \<noteq> []"
  shows "packed m as \<Longrightarrow> list_all (\<lambda>a. 0 < b_count (node (set_cell m (last as) b) a)) as"
  using assms by (cases as) (auto simp: packed_def list_all_iff)

lemma packed_grown:
  assumes "grown m p as m' as'" "list_all (\<lambda>a. 0 < b_count (node m a)) as"
  shows "packed m' (as @ as')"
  using assms grown_old(4) [OF assms(1)] grownD(5) [OF assms(1)] by (auto simp: packed_def list_all_iff)

lemma writeData_correct:
  assumes ok: "write_ok m c as" and mo: "mem_ok m" and pl: "pool_ok pl"
    and n: "0 < n" "n \<le> length data" "n < 2 ^ 32"
  shows "\<exists>m' c' as'. writeData pl (Some data) n m c = Some (True, m', c')
    \<and> write_ok m' c' (as @ as') \<and> chain_bytes m' (as @ as') = chain_bytes m as @ take n data
    \<and> mem_ok m' \<and> same_but (set as) m m'
    \<and> c' = c\<lparr>writeTail := writeTail c', writeSize := writeSize c + n\<rparr> \<and> (packed m as \<longrightarrow> packed m' (as @ as'))
    \<and> framed m as m' (as @ as')"
proof -
  obtain b where t: "writeTail c = Addr (last as)" "cells m (last as) = Some b" "node m (last as) = b"
    "ring_ok b" "last as < fresh m" "last as \<in> set as"
    using ok mo by (rule write_tail)
  note k = ring_okD [OF t(4)]
  have ne: "as \<noteq> []" using ok by (simp add: write_ok_def)
  let ?free = "b_capacity b - b_count b"
  have rd: "rd data 0 j = Some (take j data)" if "j \<le> n" for j
    using that n by (simp add: rd_def)
  have copy: "\<exists>d. copy_in b (b_capacity b - b_push b) (take j data) = Some (b\<lparr>b_bytes := d\<rparr>)
    \<and> length d = b_capacity b
    \<and> take (b_count b + j) (drop (b_pop b) d @ take (b_pop b) d) = ring_bytes b @ take j data"
    if "j \<le> ?free" "j \<le> n" for j
    using copy_in_ring [OF t(4), of "take j data"] that n by simp
  show ?thesis
  proof (cases "n < ?free")
    case True
    obtain d where d: "copy_in b (b_capacity b - b_push b) (take n data) = Some (b\<lparr>b_bytes := d\<rparr>)"
      "length d = b_capacity b"
      "take (b_count b + n) (drop (b_pop b) d @ take (b_pop b) d) = ring_bytes b @ take n data"
      using copy [of n] True by auto
    let ?b = "push_by n (b\<lparr>b_bytes := d\<rparr>)"
    have "writeData pl (Some data) n m c = Some (True, set_cell m (last as) ?b,
        c\<lparr>writeTail := writeTail c, writeSize := writeSize c + n\<rparr>)"
      using True n k t d(1) rd
      by (auto simp: writeData_def Let_def u32_simps store_Addr push_by_def advance_def)
    moreover have rb: "ring_bytes ?b = ring_bytes (node m (last as)) @ take n data"
      using d(3) t(3) by (simp add: push_by_def ring_bytes_def)
    have "write_ok (set_cell m (last as) ?b) (c\<lparr>writeSize := writeSize c + length (take n data)\<rparr>) as"
      "chain_bytes (set_cell m (last as) ?b) as = chain_bytes m as @ take n data"
      using t(3) ring_ok_push_by [OF t(4) True d(2)]
      by (intro write_ok_last [OF ok _ _ _ rb]; simp add: push_by_def)+
    moreover have "packed m as \<longrightarrow> packed (set_cell m (last as) ?b) as"
      using packed_set_last [of ?b as m] n ne True k by (simp add: push_by_def packed_def)
    moreover have "framed m as (set_cell m (last as) ?b) as"
      using t by (simp add: framed_def)
    ultimately show ?thesis
      using mo t n by (intro exI [of _ "set_cell m (last as) ?b"] exI [of _ "c\<lparr>writeSize := writeSize c + n\<rparr>"] exI [of _ "[]"])
        simp
  next
    case False
    define j where "j = ?free"
    have j: "j \<le> n" "j < 2 ^ 32"
      using False k(3) by (simp_all add: j_def)
    have subj: "sub32 n j = n - j" "n - j < 2 ^ 32" "j + (n - j) \<le> length data"
      using j n by (simp_all add: u32_simps)
    have "\<exists>m1. write_ok m1 (c\<lparr>writeSize := writeSize c + j\<rparr>) as \<and> chain_bytes m1 as = chain_bytes m as @ take j data
      \<and> mem_ok m1 \<and> same_but (set as) m m1 \<and> (packed m as \<longrightarrow> list_all (\<lambda>a. 0 < b_count (node m1 a)) as)
      \<and> (\<forall>m' p. write_rest pl m1 (writeTail c) data j (n - j) = Some (m', p) \<longrightarrow>
          writeData pl (Some data) n m c = Some (True, m', c\<lparr>writeTail := p, writeSize := writeSize c + n\<rparr>))"
    proof (cases "j = 0")
      case True
      then have "write_ok m (c\<lparr>writeSize := writeSize c + j\<rparr>) as"
        using ok by (simp add: write_ok_def)
      moreover have "?free = 0"
        using True by (simp add: j_def)
      moreover have "packed m as \<longrightarrow> list_all (\<lambda>a. 0 < b_count (node m a)) as"
        using \<open>?free = 0\<close> k t(3) ne by (cases as) (auto simp: packed_def)
      ultimately show ?thesis
        using True False n k t mo
        by (intro exI [of _ m]) (auto simp: writeData_def Let_def u32_simps)
    next
      case j0: False
      obtain d where d: "copy_in b (b_capacity b - b_push b) (take j data) = Some (b\<lparr>b_bytes := d\<rparr>)"
        "length d = b_capacity b"
        "take (b_count b + j) (drop (b_pop b) d @ take (b_pop b) d) = ring_bytes b @ take j data"
        using copy [of j] j(1) by (auto simp: j_def)
      let ?b = "b\<lparr>b_bytes := d, b_push := b_pop b, b_count := b_capacity b\<rparr>"
      have "b_count b + j = b_capacity b"
        using k(6) by (simp add: j_def)
      then have rb: "ring_bytes ?b = ring_bytes (node m (last as)) @ take j data"
        using d(3) t(3) by (simp add: ring_bytes_def)
      have "write_ok (set_cell m (last as) ?b) (c\<lparr>writeSize := writeSize c + length (take j data)\<rparr>) as"
        "chain_bytes (set_cell m (last as) ?b) as = chain_bytes m as @ take j data"
        using t(3) ring_ok_full [OF t(4) d(2)] by (intro write_ok_last [OF ok _ _ _ rb]; simp)+
      moreover have "sub32 (b_capacity b) (b_count b) = j" "0 < j" "\<not> n < j"
        using j0 j t(4) by (simp_all add: j_def u32_simps)
      moreover have "min (length data) j = j"
        using j n by simp
      moreover have "packed m as \<longrightarrow> list_all (\<lambda>a. 0 < b_count (node (set_cell m (last as) ?b) a)) as"
        using packed_set_last [of ?b as m] k ne by simp
      ultimately show ?thesis
        using n k t mo d(1) rd [OF j(1)] subj
        by (intro exI [of _ "set_cell m (last as) ?b"]) (simp add: writeData_def Let_def u32_simps store_Addr)
    qed
    then obtain m1 where m1: "write_ok m1 (c\<lparr>writeSize := writeSize c + j\<rparr>) as"
      "chain_bytes m1 as = chain_bytes m as @ take j data" "mem_ok m1" "same_but (set as) m m1"
      "packed m as \<longrightarrow> list_all (\<lambda>a. 0 < b_count (node m1 a)) as"
      "\<And>m' p. write_rest pl m1 (writeTail c) data j (n - j) = Some (m', p) \<Longrightarrow>
          writeData pl (Some data) n m c = Some (True, m', c\<lparr>writeTail := p, writeSize := writeSize c + n\<rparr>)"
      by blast
    have ch: "chain m1 (writeHead c) as" "distinct as" "as \<noteq> []"
      using m1(1) by (simp_all add: write_ok_def)
    obtain m' as' where w: "write_rest pl m1 (Addr (last as)) data j (n - j) = Some (m', Addr (last (as @ as')))"
      "grown m1 (writeHead c) as m' as'" "chain_bytes m' as' = take (n - j) (drop j data)"
      using write_rest_correct [OF pl ch m1(3) subj(3,2)] by blast
    let ?c = "c\<lparr>writeTail := Addr (last (as @ as')), writeSize := writeSize c + n\<rparr>"
    have g': "grown m1 (writeHead (c\<lparr>writeSize := writeSize c + j\<rparr>)) as m' as'"
      using w(2) by simp
    have len: "length (chain_bytes m' as') = n - j"
      using w(3) subj(3) by simp
    have "write_ok m' ?c (as @ as')"
      using write_ok_grown(1) [OF m1(1) g'] j(1) by (simp only: len) simp
    moreover have "chain_bytes m' (as @ as') = chain_bytes m as @ take n data"
      using write_ok_grown(2) [OF m1(1) g'] m1(2) w(3) j(1) take_add [of j "n - j" data] by simp
    moreover have "same_but (set as) m m'"
      using same_but_trans [OF m1(4) grownD(4) [OF w(2)]] by simp
    moreover have "framed m as m' (as @ as')"
      using \<open>same_but (set as) m m'\<close> grownD(6) [OF w(2)] m1(4) unfolding framed_def same_but_def by fastforce
    ultimately show ?thesis
      using m1(5,6) w(1) t(1) grownD(3) [OF w(2)] packed_grown [OF w(2)]
      by (intro exI [of _ m'] exI [of _ ?c] exI [of _ as']) simp
  qed
qed

subsection \<open>Property\<close>

text \<open>
  C9: \<open>writeData\<close> appends: for any number of bytes, over any number of new nodes, it returns true,
  the chain holds its old bytes followed by the new ones, the tail pointer is the last node, the
  size counter and every node are again well formed, and no node outside the chain is touched.
\<close>

theorem writeData_appends:
  assumes "write_ok m c as" "mem_ok m" "pool_ok pl" "0 < n" "n \<le> length data" "n < 2 ^ 32"
  shows "\<exists>m' c' as'. writeData pl (Some data) n m c = Some (True, m', c')
    \<and> write_ok m' c' (as @ as') \<and> chain_bytes m' (as @ as') = chain_bytes m as @ take n data
    \<and> mem_ok m' \<and> same_but (set as) m m' \<and> writeSize c' = writeSize c + n"
proof -
  obtain m' c' as' where "writeData pl (Some data) n m c = Some (True, m', c')"
    "write_ok m' c' (as @ as')" "chain_bytes m' (as @ as') = chain_bytes m as @ take n data"
    "mem_ok m'" "same_but (set as) m m'" "c' = c\<lparr>writeTail := writeTail c', writeSize := writeSize c + n\<rparr>"
    using writeData_correct [OF assms] by metis
  moreover from this(6) have "writeSize c' = writeSize c + n"
    by (metis conn.ext_inject conn.surjective conn.update_convs(10))
  ultimately show ?thesis by blast
qed

lemma writeData_appends_witness:
  "\<exists>m' c' as'. writeData demo_pool (Some ''0123456789'') 10 demo_mem demo_conn = Some (True, m', c')
    \<and> write_ok m' c' ([2] @ as') \<and> chain_bytes m' ([2] @ as') = ''z0123456789'' \<and> writeSize c' = 11"
  using writeData_appends [OF demo_write_ok demo_mem_ok demo_pool_ok, of 10 "''0123456789''"]
  by (auto simp: ring_bytes_def)

end
