(* ===== verification/TcpWrite.thy ===== *)
theory TcpWrite
  imports TcpSend
begin

section \<open>Draining the send buffer: onWrite and send\<close>

text \<open>
  One turn of \<open>onWrite\<close> hands the kernel the oldest bytes, of the head node and the one behind
  it, and removes what the kernel took.  The last part shows where the loop of \<open>onWrite\<close> and the
  direct write of \<open>send\<close> break the order of the stream.
\<close>

subsection \<open>The segments\<close>

lemma gather_append:
  "gather m (xs @ ys) = do { s \<leftarrow> gather m xs; t \<leftarrow> gather m ys; Some (s @ t) }"
  by (induction m xs rule: gather.induct) (auto split: Option.bind_splits)

lemma gather_head:
  assumes "cells m a = Some b" "ring_ok b" "0 < b_count b"
  obtains segs where "gather m (head_iov (Addr a) b) = Some segs" "concat segs = ring_bytes b"
proof (cases "b_pop b < b_push b")
  case True
  then have c: "b_count b = b_push b - b_pop b"
    using assms(2) by (simp add: ring_ok_def)
  have "rd (b_bytes b) (b_pop b) (b_count b) = Some (ring_bytes b)"
    using ring_okD [OF assms(2)] True by (simp add: rd_def ring_bytes_def c)
  then show ?thesis
    using that [of "[ring_bytes b]"] assms(1) True by (simp add: head_iov_def)
next
  case False
  then have c: "b_count b = b_capacity b - b_pop b + b_push b"
    using assms(2,3) by (auto simp: ring_ok_def)
  note k = ring_okD [OF assms(2)]
  have r: "rd (b_bytes b) (b_pop b) (b_capacity b - b_pop b) = Some (drop (b_pop b) (b_bytes b))"
    "rd (b_bytes b) 0 (b_push b) = Some (take (b_push b) (b_bytes b))"
    using k False by (simp_all add: rd_def)
  have rb: "ring_bytes b = drop (b_pop b) (b_bytes b) @ take (b_push b) (b_bytes b)"
    using k False by (simp add: ring_bytes_def c min_def)
  show ?thesis
  proof (cases "b_push b = 0")
    case True
    then show ?thesis
      using that [of "[drop (b_pop b) (b_bytes b)]"] assms(1,2) False r rb by (simp add: head_iov_def u32_simps)
  next
    case p: False
    then show ?thesis
      using that [of "[drop (b_pop b) (b_bytes b), take (b_push b) (b_bytes b)]"] assms(1,2) False r rb
      by (simp add: head_iov_def u32_simps)
  qed
qed

subsection \<open>Removing what was sent\<close>

lemma write_head:
  assumes "write_ok m c as"
  obtains a as' b where "as = a # as'" "writeHead c = Addr a" "cells m a = Some b" "node m a = b" "ring_ok b"
    "chain m (b_next b) as'" "a \<notin> set as'" "distinct as'"
    "list_all (\<lambda>x. ring_ok (node m x) \<and> b_pop (node m x) = 0) as'"
proof -
  obtain a as' where as: "as = a # as'"
    using assms by (cases as) (auto simp: write_ok_def)
  then have c: "chain m (writeHead c) (a # as')"
    using assms by (simp add: write_ok_def)
  show ?thesis
    by (rule chain_Cons_cases [OF c]; rule that [OF as])
      (use assms as in \<open>auto simp: write_ok_def list_all_iff\<close>)
qed

lemma chain_next_null: "chain m p as \<Longrightarrow> p = Null \<or> (\<exists>a as'. p = Addr a \<and> as = a # as')"
  by (cases as) auto

lemma write_ok_head:
  assumes ok: "write_ok m c (a # as)" and b: "b_next b = b_next (node m a)" "ring_ok b"
    and rb: "ring_bytes b = drop n (ring_bytes (node m a))" and n: "n \<le> b_count (node m a)"
  shows "write_ok (set_cell m a b) (c\<lparr>writeSize := writeSize c - n\<rparr>) (a # as)"
    "chain_bytes (set_cell m a b) (a # as) = drop n (chain_bytes m (a # as))"
proof -
  have a: "a \<notin> set as" "ring_ok (node m a)"
    using ok by (simp_all add: write_ok_def)
  show eq: "chain_bytes (set_cell m a b) (a # as) = drop n (chain_bytes m (a # as))"
    using a rb n by simp
  have "chain (set_cell m a b) (writeHead c) (a # as)"
    using ok b(1) by (intro chain_set_cell) (auto simp: write_ok_def)
  moreover have "list_all (\<lambda>x. ring_ok (node (set_cell m a b) x)) (a # as)"
    "list_all (\<lambda>x. b_pop (node (set_cell m a b) x) = 0) as"
    using ok b(2) a by (auto simp: write_ok_def list_all_iff)
  ultimately show "write_ok (set_cell m a b) (c\<lparr>writeSize := writeSize c - n\<rparr>) (a # as)"
    using ok eq unfolding write_ok_def by simp
qed

lemma write_ok_next:
  assumes ok: "write_ok m c (a # a' # as)" and b: "b_next b = b_next (node m a')" "ring_ok b"
    and rb: "ring_bytes b = drop n (ring_bytes (node m a'))" and n: "n \<le> b_count (node m a')"
  shows "write_ok (del_cell (set_cell m a' b) a)
      (c\<lparr>writeHead := Addr a', writeSize := writeSize c - (b_count (node m a) + n)\<rparr>) (a' # as)"
    "chain_bytes (del_cell (set_cell m a' b) a) (a' # as)
      = drop (b_count (node m a) + n) (chain_bytes m (a # a' # as))"
proof -
  let ?m = "del_cell (set_cell m a' b) a"
  have d: "a \<notin> set (a' # as)" "a' \<notin> set as" "a \<noteq> a'" and r: "ring_ok (node m a)" "ring_ok (node m a')"
    using ok by (auto simp: write_ok_def)
  have node: "node ?m x = (if x = a' then b else node m x)" if "x \<in> set (a' # as)" for x
    using that d by (metis node_del_cell node_set_cell)
  show eq: "chain_bytes ?m (a' # as) = drop (b_count (node m a) + n) (chain_bytes m (a # a' # as))"
    using d r rb n node [of a'] by simp
  have "chain m (Addr a') (a' # as)"
    using ok by (auto simp: write_ok_def split: option.splits)
  then have "chain ?m (Addr a') (a' # as)"
    unfolding chain_del_cell_other [OF d(1)] using b(1) by (rule chain_set_cell)
  moreover have "list_all (\<lambda>x. ring_ok (node ?m x)) (a' # as)" "list_all (\<lambda>x. b_pop (node ?m x) = 0) as"
    using ok b(2) d node by (auto simp: write_ok_def list_all_iff)
  moreover have "length (chain_bytes ?m (a' # as)) = writeSize c - (b_count (node m a) + n)"
    unfolding eq using ok by (simp add: write_ok_def)
  ultimately show "write_ok ?m (c\<lparr>writeHead := Addr a', writeSize := writeSize c - (b_count (node m a) + n)\<rparr>) (a' # as)"
    using ok unfolding write_ok_def by simp
qed

lemma ring_ok_popped:
  assumes "ring_ok b" "b_pop b = 0" "n \<le> b_count b"
  shows "ring_ok (b\<lparr>b_pop := n, b_count := b_count b - n\<rparr>)"
    "ring_bytes (b\<lparr>b_pop := n, b_count := b_count b - n\<rparr>) = drop n (ring_bytes b)"
  using assms ring_okD [OF assms(1)] by (auto simp: ring_ok_def ring_bytes_def drop_take split: if_splits)

lemma umod_advance:
  assumes "ring_ok b" "n < b_count b"
  shows "umod (add32 (b_pop b) (u32 n)) (b_capacity b) = Some (advance (b_capacity b) (b_pop b) n)"
proof -
  note k = ring_okD [OF assms(1)]
  have "b_capacity b < 2 ^ 31"
    using assms(1) by (simp add: ring_ok_def)
  then have "b_pop b + n < 2 ^ 32" "n < 2 ^ 32"
    using k assms(2) by simp_all
  moreover have "b_pop b + n < 2 * b_capacity b"
    using k assms(2) by linarith
  then have "advance (b_capacity b) (b_pop b) n = (b_pop b + n) mod b_capacity b"
    using k by (auto simp: advance_def mod_once)
  ultimately show ?thesis
    using k(2) by (simp add: u32_simps)
qed

lemma drain_head_correct:
  assumes ok: "write_ok m c as" and mo: "mem_ok m" and n: "n \<le> length (chain_bytes m (take 2 as))"
  shows "\<exists>m' c' i. drain_head m c (b_next (node m (hd as))) (b_count (node m (hd as))) n = Some (m', c')
    \<and> c' = c\<lparr>writeHead := writeHead c'\<rparr> \<and> i \<le> 1 \<and> write_ok m' (c'\<lparr>writeSize := writeSize c - n\<rparr>) (drop i as)
    \<and> chain_bytes m' (drop i as) = drop n (chain_bytes m as) \<and> same_but (set as) m m' \<and> fresh m' = fresh m
    \<and> (packed m as \<and> (n < length (chain_bytes m (take 2 as)) \<or> length as \<le> 2) \<longrightarrow> packed m' (drop i as)) \<and> mem_ok m'"
proof -
  obtain a as' b where h: "as = a # as'" "writeHead c = Addr a" "cells m a = Some b" "node m a = b" "ring_ok b"
    "chain m (b_next b) as'" "a \<notin> set as'" "distinct as'" and rest: "list_all (\<lambda>x. ring_ok (node m x) \<and> b_pop (node m x) = 0) as'"
    using ok by (rule write_head)
  note k = ring_okD [OF h(5)]
  have id: "c\<lparr>writeHead := Addr a\<rparr> = c"
    using h(2) by (metis conn.surjective conn.update_convs(8))
  have af: "a < fresh m"
    using chain_fresh [OF mo, of "writeHead c" as a] ok h(1) by (simp add: write_ok_def)
  have pk: "packed (set_cell m a x) (a # as')" if "packed m as" "as' = [] \<or> 0 < b_count x" for x
    using that h(1,7) by (auto simp: packed_def list_all_iff)
  consider (less) "n < b_count b" | (eq) "n = b_count b" "as' = []"
    | (next') a' as'' where "b_count b \<le> n" "as' = a' # as''" "b_next b = Addr a'"
    using n h by (cases as') fastforce+
  then show ?thesis
  proof cases
    case less
    let ?b = "pop_by n b"
    have "drain_head m c (b_next b) (b_count b) n = Some (set_cell m a ?b, c)"
      using less h k umod_advance [OF h(5), of n]
      by (simp add: drain_head_def pop_by_def store_Addr u32_simps)
    moreover have "write_ok (set_cell m a ?b) (c\<lparr>writeSize := writeSize c - n\<rparr>) (a # as')"
      "chain_bytes (set_cell m a ?b) (a # as') = drop n (chain_bytes m (a # as'))"
      using ok h less ring_ok_pop_by [OF h(5) less] pop_by_bytes [OF h(5), of n]
      by (intro write_ok_head; simp add: pop_by_def)+
    moreover have "0 < b_count ?b"
      using less by (simp add: pop_by_def)
    ultimately show ?thesis
      using h id af mo pk [of ?b] by (intro exI [of _ "set_cell m a ?b"] exI [of _ c] exI [of _ 0]) simp
  next
    case eq
    let ?b = "b\<lparr>b_push := 0, b_pop := 0, b_count := 0\<rparr>"
    have "b_next b = Null"
      using h(6) eq(2) by simp
    then have "drain_head m c (b_next b) (b_count b) n = Some (set_cell m a ?b, c)"
      using eq h by (simp add: drain_head_def ptr_true_def store_Addr)
    moreover have "ring_ok ?b" "ring_bytes ?b = drop n (ring_bytes b)"
      using h(5) eq(1) by (auto simp: ring_ok_def ring_bytes_def)
    then have "write_ok (set_cell m a ?b) (c\<lparr>writeSize := writeSize c - n\<rparr>) (a # as')"
      "chain_bytes (set_cell m a ?b) (a # as') = drop n (chain_bytes m (a # as'))"
      using ok h eq by (intro write_ok_head; simp)+
    ultimately show ?thesis
      using h id af mo pk [of ?b] eq(2) by (intro exI [of _ "set_cell m a ?b"] exI [of _ c] exI [of _ 0]) simp
  next
    case next'
    define j where "j = n - b_count b"
    have r: "ring_ok (node m a')" "b_pop (node m a') = 0" "a \<noteq> a'"
      using rest h(7) next' by auto
    have "length (chain_bytes m (take 2 as)) = b_count b + b_count (node m a')"
      using h(1,4,5) next' r by (simp add: numeral_2_eq_2)
    then have pk': "packed (del_cell (set_cell m a' x) a) (a' # as'')"
      if "packed m as" "n < length (chain_bytes m (take 2 as)) \<longrightarrow> 0 < b_count x"
        "n < length (chain_bytes m (take 2 as)) \<or> length as \<le> 2" for x
    proof (cases "as'' = []")
      case False
      then show ?thesis
        using that h(1,7,8) next'(2) by (auto simp: packed_def list_all_iff node_del_cell) (metis node_del_cell node_set_cell)+
    qed (simp add: packed_def)
    have af': "a' < fresh m"
      using chain_fresh [OF mo, of "writeHead c" as a'] ok h(1) next'(2) by (simp add: write_ok_def)
    have "n \<le> b_count b + b_count (node m a')"
      using n h(1,4,5) next' r by (simp add: numeral_2_eq_2)
    then have j: "j \<le> b_count (node m a')" "n = b_count b + j"
      using next'(1) by (simp_all add: j_def)
    have ca': "cells m a' = Some (node m a')"
      using h(6) next' by (auto simp: node_def split: option.splits)
    note k' = ring_okD [OF r(1)]
    let ?b = "(node m a')\<lparr>b_pop := j, b_count := b_count (node m a') - j\<rparr>"
    show ?thesis
    proof (cases "j = 0")
      case True
      let ?m = "del_cell (set_cell m a' (node m a')) a"
      have "set_cell m a' (node m a') = m"
        using ca' by (auto simp: set_cell_def fun_upd_idem)
      then have "drain_head m c (b_next b) (b_count b) n = Some (?m, c\<lparr>writeHead := Addr a'\<rparr>)"
        using h next' j True by (simp add: drain_head_def ptr_true_def putNext_Addr)
      moreover have "write_ok ?m (c\<lparr>writeHead := Addr a', writeSize := writeSize c - (b_count (node m a) + 0)\<rparr>) (a' # as'')"
        "chain_bytes ?m (a' # as'') = drop (b_count (node m a) + 0) (chain_bytes m (a # a' # as''))"
        using ok h next' r by (intro write_ok_next; simp)+
      ultimately show ?thesis
        using h(1,4) next' j True r(1,3) h(5) pk' [of "node m a'"] mo af'
        by (intro exI [of _ ?m] exI [of _ "c\<lparr>writeHead := Addr a'\<rparr>"] exI [of _ 1]) (auto simp: same_but_def)
    next
      case False
      let ?m = "del_cell (set_cell m a' ?b) a"
      have sm: "n < 2 ^ 32"
        using j k' k h(5) r(1) by (simp add: ring_ok_def)
      then have "sub32 (u32 n) (b_count b) = j" "sub32 (b_count (node m a')) j = b_count (node m a') - j"
        using j k' by (simp_all add: u32_simps)
      then have "drain_head m c (b_next b) (b_count b) n = Some (?m, c\<lparr>writeHead := Addr a'\<rparr>)"
        using h next' j False r ca' by (simp add: drain_head_def store_Addr putNext_Addr Let_def)
      moreover have "write_ok ?m (c\<lparr>writeHead := Addr a', writeSize := writeSize c - (b_count (node m a) + j)\<rparr>) (a' # as'')"
        "chain_bytes ?m (a' # as'') = drop (b_count (node m a) + j) (chain_bytes m (a # a' # as''))"
        using ok h next' ring_ok_popped [OF r(1,2) j(1)] j(1) by (intro write_ok_next; simp)+
      ultimately show ?thesis
        using h(1,4) next' j r(1,3) h(5) pk' [of ?b] mo af'
        by (intro exI [of _ ?m] exI [of _ "c\<lparr>writeHead := Addr a'\<rparr>"] exI [of _ 1]) (auto simp: same_but_def)
    qed
  qed
qed

subsection \<open>One turn of onWrite\<close>

text \<open>What \<open>onWrite\<close> offers to \<open>writev\<close>: the segments of the head and of the node behind it.\<close>

definition write_iov :: "mem \<Rightarrow> conn \<Rightarrow> bytes list option" where
  "write_iov m c = do {
     h \<leftarrow> deref m (writeHead c);
     has \<leftarrow> ptr_true (b_next h);
     if has then do {
       x \<leftarrow> deref m (b_next h);
       gather m (head_iov (writeHead c) h @ [(b_next h, 0, b_count x)]) }
     else gather m (head_iov (writeHead c) h) }"

text \<open>The rest of the turn, from the state after \<open>n\<close> of \<open>sz\<close> bytes were removed.\<close>

definition after_write ::
  "'w tcp_callbacks \<Rightarrow> nat \<Rightarrow> nat \<Rightarrow> 'w tcp \<Rightarrow> (bool \<times> 'w tcp) option" where
  "after_write cbs sz n s = do {
     (m, c, w) \<leftarrow> call (map_option (\<lambda>f. f (u32 n)) (sendCallback cbs)) s;
     if n < sz then Some (False, m, upd_chan disableWriteable c, w) else Some (True, m, c, w) }"

lemma write_ok_take2:
  assumes "write_ok m c as" "as = a # as'" "node m a = b"
  shows "as' = [] \<Longrightarrow> b_next b = Null \<and> chain_bytes m (take 2 as) = ring_bytes b"
    "as' = a' # as'' \<Longrightarrow> b_next b = Addr a' \<and> cells m a' = Some (node m a') \<and> ring_ok (node m a')
      \<and> b_pop (node m a') = 0 \<and> a' \<noteq> a
      \<and> chain_bytes m (take 2 as) = ring_bytes b @ ring_bytes (node m a')"
  using assms by (auto simp: write_ok_def node_def numeral_2_eq_2 split: option.splits)

lemma write_iov_segments:
  assumes ok: "write_ok m c as" and ne: "0 < b_count (node m (hd as))"
  obtains segs where "write_iov m c = Some segs" "concat segs = chain_bytes m (take 2 as)"
proof -
  obtain a as' b where h: "as = a # as'" "writeHead c = Addr a" "cells m a = Some b" "node m a = b" "ring_ok b"
    using ok by (rule write_head)
  obtain segs where g: "gather m (head_iov (Addr a) b) = Some segs" "concat segs = ring_bytes b"
    using gather_head [OF h(3,5)] ne h by auto
  note t = write_ok_take2 [OF ok h(1,4)]
  show ?thesis
  proof (cases as')
    case Nil
    with t(1) g h show ?thesis
      by (intro that [of segs]) (simp_all add: write_iov_def ptr_true_def)
  next
    case (Cons a' as'')
    note n = t(2) [OF Cons]
    then have "rd (b_bytes (node m a')) 0 (b_count (node m a')) = Some (ring_bytes (node m a'))"
      by (simp add: rd_pop0)
    then show ?thesis
      using n g h by (intro that [of "segs @ [ring_bytes (node m a')]"])
        (simp_all add: write_iov_def ptr_true_def gather_append)
  qed
qed

lemma onWrite_step_unfold:
  assumes ok: "write_ok m c as" and iov: "write_iov m c = Some segs"
  shows "onWrite_step wv cbs (m, c, w) =
    (case wv segs w of
       (None, w') \<Rightarrow> Some (False, m, upd_chan disableWriteable c, w')
     | (Some n, w') \<Rightarrow>
         if length (chain_bytes m (take 2 as)) < n then Some (False, m, upd_chan disableWriteable c, w')
         else do {
           (m1, c1) \<leftarrow> drain_head m c (b_next (node m (hd as))) (b_count (node m (hd as))) n;
           after_write cbs (length (chain_bytes m (take 2 as))) n
             (m1, c1\<lparr>writeSize := sub64 (writeSize c1) n\<rparr>, w') })"
proof -
  obtain a as' b where h: "as = a # as'" "writeHead c = Addr a" "cells m a = Some b" "node m a = b" "ring_ok b"
    using ok by (rule write_head)
  note t = write_ok_take2 [OF ok h(1,4)]
  show ?thesis
  proof (cases as')
    case Nil
    with t(1) iov h show ?thesis
      by (simp add: onWrite_step_def write_iov_def ptr_true_def after_write_def Let_def
          split: option.splits prod.splits)
  next
    case (Cons a' as'')
    note n = t(2) [OF Cons]
    have "b_capacity b < 2 ^ 31" "b_capacity (node m a') < 2 ^ 31"
      using h(5) n by (simp_all add: ring_ok_def)
    then have "add32 (b_count b) (b_count (node m a')) = b_count b + b_count (node m a')"
      using ring_okD(6) [OF h(5)] ring_okD(6) [of "node m a'"] n by (simp add: u32_simps)
    then show ?thesis
      using n iov h by (simp add: onWrite_step_def write_iov_def ptr_true_def after_write_def Let_def
          split: option.splits prod.splits)
  qed
qed

lemma onWrite_step_takes:
  assumes ok: "write_ok m c as" and mo: "mem_ok m" and iov: "write_iov m c = Some segs"
    and wv: "wv segs w = (Some n, w')" and n: "n \<le> length (chain_bytes m (take 2 as))"
  shows "\<exists>m' c' i. write_ok m' c' (drop i as) \<and> chain_bytes m' (drop i as) = drop n (chain_bytes m as)
    \<and> i \<le> 1 \<and> same_but (set as) m m' \<and> fresh m' = fresh m \<and> chan c' = chan c
    \<and> (packed m as \<and> (n < length (chain_bytes m (take 2 as)) \<or> length as \<le> 2) \<longrightarrow> packed m' (drop i as)) \<and> mem_ok m'
    \<and> same_read c c' \<and> onWrite_step wv cbs (m, c, w) = after_write cbs (length (chain_bytes m (take 2 as))) n (m', c', w')"
proof -
  obtain m' c1 i where d: "drain_head m c (b_next (node m (hd as))) (b_count (node m (hd as))) n = Some (m', c1)"
    "c1 = c\<lparr>writeHead := writeHead c1\<rparr>" "i \<le> 1" "write_ok m' (c1\<lparr>writeSize := writeSize c - n\<rparr>) (drop i as)"
    "chain_bytes m' (drop i as) = drop n (chain_bytes m as)" "same_but (set as) m m'" "fresh m' = fresh m"
    "packed m as \<and> (n < length (chain_bytes m (take 2 as)) \<or> length as \<le> 2) \<longrightarrow> packed m' (drop i as)" "mem_ok m'"
    using drain_head_correct [OF ok mo n] by (elim exE conjE) (rule that)
  have "length (chain_bytes m (take 2 as)) \<le> writeSize c"
    using ok chain_bytes_append [of m "take 2 as" "drop 2 as"] by (simp add: write_ok_def)
  then have "sub64 (writeSize c1) n = writeSize c - n"
    using n d(2) by (metis conn.ext_inject conn.surjective conn.update_convs(8) le_trans sub64_le)
  then have "onWrite_step wv cbs (m, c, w)
      = after_write cbs (length (chain_bytes m (take 2 as))) n (m', c1\<lparr>writeSize := writeSize c - n\<rparr>, w')"
    using wv n d(1) by (simp add: onWrite_step_unfold [OF ok iov])
  moreover have "same_read c (c1\<lparr>writeSize := writeSize c - n\<rparr>)"
    unfolding same_read_def by (subst (1 2 3) d(2)) simp
  moreover have "chan c1 = chan c"
    using d(2) by (metis conn.ext_inject conn.surjective conn.update_convs(8))
  ultimately show ?thesis
    using d by (intro exI [of _ m'] exI [of _ "c1\<lparr>writeSize := writeSize c - n\<rparr>"] exI [of _ i]) simp
qed

subsection \<open>A socket\<close>

text \<open>
  A kernel to run the code on, its state the room of the socket's buffer and the stream that it
  accepted: it takes as many bytes as there is room for, and fails when there is none.
\<close>

type_synonym wire = "nat \<times> bytes"

definition wire_writev :: "wire writev" where
  "wire_writev segs w =
     (case w of (room, sent) \<Rightarrow>
       if room = 0 then (None, w)
       else (let n = min room (length (concat segs))
             in (Some n, (room - n, sent @ take n (concat segs)))))"

definition quiet :: "'w tcp_callbacks" where
  "quiet = \<lparr>connectCallback = None, recvCallback = None, sendCallback = None,
     disconnectCallback = None, connCloseCallback = None\<rparr>"

lemma after_write_quiet:
  "after_write quiet sz n (m, c, w) =
    (if n < sz then Some (False, m, upd_chan disableWriteable c, w) else Some (True, m, c, w))"
  by (simp add: after_write_def quiet_def call_def)

lemma write_ok_upd_chan [simp]: "write_ok m (upd_chan f c) as = write_ok m c as"
  by (simp add: write_ok_def upd_chan_def)

lemma ch_writeable_disable [simp]: "\<not> ch_writeable (chan (upd_chan disableWriteable c))"
  by (simp add: upd_chan_def disableWriteable_def)

text \<open>The segments of a node that was reset after it was drained: its whole array.\<close>

lemma write_iov_drained:
  assumes ok: "write_ok m c [a]" and b: "node m a = b" "b_push b = 0" "b_pop b = 0"
  shows "write_iov m c = Some [b_bytes b]"
proof -
  have h: "writeHead c = Addr a" "cells m a = Some b" "ring_ok b" "b_next b = Null"
    using ok b by (auto simp: write_ok_def node_def split: option.splits)
  then show ?thesis
    using b ring_okD(1,3) [OF h(3)]
    by (simp add: write_iov_def ptr_true_def head_iov_def rd_def sub32_small [of 0 "b_capacity b"])
qed

lemma drain_reset:
  assumes ok: "write_ok m c [a]"
  shows "drain_head m c (b_next (node m a)) (b_count (node m a)) (b_count (node m a))
    = Some (set_cell m a ((node m a)\<lparr>b_push := 0, b_pop := 0, b_count := 0\<rparr>), c)"
proof -
  have "writeHead c = Addr a" "cells m a = Some (node m a)" "b_next (node m a) = Null"
    using ok by (auto simp: write_ok_def node_def split: option.splits)
  then show ?thesis
    by (simp add: drain_head_def ptr_true_def store_Addr)
qed

subsection \<open>Properties\<close>

text \<open>
  C6: while the head node holds bytes, one turn of \<open>onWrite\<close> offers the kernel exactly the oldest
  bytes of the stream (those of the head and of the node behind it, in order).  Whatever number
  \<open>n\<close> of them the kernel takes, the chain then holds the stream without its first \<open>n\<close> bytes, is
  well formed, and the loop goes on only if all were taken; on an error nothing is lost.
\<close>

theorem onWrite_step_sends_oldest:
  assumes ok: "write_ok m c as" and mo: "mem_ok m" and ne: "0 < b_count (node m (hd as))"
  shows "\<exists>segs. concat segs = chain_bytes m (take 2 as)
    \<and> (case wv segs w of
         (None, w') \<Rightarrow> onWrite_step wv cbs (m, c, w) = Some (False, m, upd_chan disableWriteable c, w')
       | (Some n, w') \<Rightarrow> n \<le> length (concat segs) \<longrightarrow>
          (\<exists>m' c' i. write_ok m' c' (drop i as) \<and> chain_bytes m' (drop i as) = drop n (chain_bytes m as)
            \<and> same_but (set as) m m'
            \<and> onWrite_step wv cbs (m, c, w) = after_write cbs (length (concat segs)) n (m', c', w')))"
proof -
  obtain segs where s: "write_iov m c = Some segs" "concat segs = chain_bytes m (take 2 as)"
    using write_iov_segments [OF ok ne] .
  obtain r w' where wv: "wv segs w = (r, w')"
    by (cases "wv segs w")
  show ?thesis
  proof (cases r)
    case None
    with wv s show ?thesis
      by (intro exI [of _ segs]) (simp add: onWrite_step_unfold [OF ok s(1)])
  next
    case (Some n)
    with onWrite_step_takes [OF ok mo s(1), of wv w n w' cbs] wv s show ?thesis
      by (intro exI [of _ segs]) fastforce
  qed
qed

lemma onWrite_step_sends_oldest_witness:
  "\<exists>segs m' c' i. concat segs = ''z'' \<and> write_ok m' c' (drop i [2])
    \<and> onWrite_step wire_writev quiet (demo_mem, demo_conn, (5, [])) = Some (True, m', c', (4, ''z''))"
proof -
  have "0 < b_count (node demo_mem (hd [2]))" by simp
  from onWrite_step_sends_oldest [OF demo_write_ok demo_mem_ok this, where wv = wire_writev and w = "(5, [])" and cbs = quiet]
  show ?thesis
    by (auto simp: wire_writev_def Let_def after_write_quiet ring_bytes_def)
qed

text \<open>
  C35: the loop of \<open>onWrite\<close> does not stop when the buffer is empty.  On a socket that takes all
  the pending bytes, it makes one more turn on the node that it just reset, and the whole array
  of that node goes out after the data: the peer receives \<open>capacity\<close> bytes that were never sent.
\<close>

theorem onWrite_sends_stale:
  assumes ok: "write_ok m c [a]" and mo: "mem_ok m" and ne: "0 < b_count (node m a)"
    and wr: "ch_writeable (chan c)" and room: "writeSize c + b_capacity (node m a) \<le> room"
  shows "\<exists>m' c'. onWrite wire_writev quiet (m, c, (room, sent))
      = Some (m', c', (room - writeSize c - b_capacity (node m a),
          sent @ chain_bytes m [a] @ b_bytes (node m a)))
    \<and> writeSize c' = 0 \<and> \<not> ch_writeable (chan c')"
proof -
  let ?b = "node m a" and ?b' = "(node m a)\<lparr>b_push := 0, b_pop := 0, b_count := 0\<rparr>"
  have rok: "ring_ok ?b" and size: "writeSize c = b_count ?b"
    using ok by (simp_all add: write_ok_def)
  have cap: "length (b_bytes ?b) = b_capacity ?b" "0 < b_capacity ?b"
    using ring_okD [OF rok] by simp_all
  obtain segs where s: "write_iov m c = Some segs" "concat segs = chain_bytes m [a]"
    using write_iov_segments [OF ok] ne by auto
  let ?m1 = "set_cell m a ?b'" and ?c1 = "c\<lparr>writeSize := 0\<rparr>"
  let ?w1 = "(room - b_count ?b, sent @ chain_bytes m [a])"
  have "wire_writev segs (room, sent) = (Some (b_count ?b), ?w1)"
    using s(2) rok size room ne by (simp add: wire_writev_def Let_def)
  then have step1: "onWrite_step wire_writev quiet (m, c, (room, sent)) = Some (True, ?m1, ?c1, ?w1)"
    using size rok drain_reset [OF ok]
    by (simp add: onWrite_step_unfold [OF ok s(1)] after_write_quiet sub64_le)
  have "ring_ok ?b'" "ring_bytes ?b' = drop (b_count ?b) (ring_bytes ?b)"
    using rok by (auto simp: ring_ok_def ring_bytes_def)
  then have "write_ok ?m1 (c\<lparr>writeSize := writeSize c - b_count ?b\<rparr>) [a]"
    by (intro write_ok_head [OF ok]) simp_all
  then have ok1: "write_ok ?m1 ?c1 [a]"
    using size by simp
  have iov1: "write_iov ?m1 ?c1 = Some [b_bytes ?b]"
    using write_iov_drained [OF ok1, of ?b'] by simp
  have "chain_bytes ?m1 (take 2 [a]) = []"
    by (simp add: ring_bytes_def)
  moreover have "wire_writev [b_bytes ?b] ?w1 = (Some (b_capacity ?b),
      (room - b_count ?b - b_capacity ?b, sent @ chain_bytes m [a] @ b_bytes ?b))"
    using cap room size by (simp add: wire_writev_def Let_def)
  ultimately have step2: "onWrite_step wire_writev quiet (?m1, ?c1, ?w1) = Some (False, ?m1, upd_chan disableWriteable ?c1,
      (room - b_count ?b - b_capacity ?b, sent @ chain_bytes m [a] @ b_bytes ?b))"
    using cap by (simp add: onWrite_step_unfold [OF ok1 iov1])
  have "onWrite_loop wire_writev quiet (m, c, (room, sent)) = Some (?m1, upd_chan disableWriteable ?c1,
      (room - b_count ?b - b_capacity ?b, sent @ chain_bytes m [a] @ b_bytes ?b))"
    using step1 step2 by (simp add: onWrite_loop.simps)
  then show ?thesis
    using wr ne size by (simp add: onWrite_def upd_chan_def disableWriteable_def)
qed

lemma onWrite_sends_stale_witness:
  "\<exists>m' c'. onWrite wire_writev quiet (demo_mem, demo_conn, (9, [])) = Some (m', c', (4, ''zyzyy'')) \<and> writeSize c' = 0"
  using onWrite_sends_stale [OF demo_write_ok demo_mem_ok, of 9 "[]"]
  by (auto simp: demo_conn_def ring_bytes_def)

lemma send_wire:
  assumes ok: "write_ok m c as" and mo: "mem_ok m" and pl: "pool_ok pl" and n: "length data < 2 ^ 32"
  shows "\<exists>m' c' as'. send pl wire_writev data (m, c, (room, sent))
      = Some (m', c', (room - length data, sent @ take room data))
    \<and> write_ok m' c' (as @ as') \<and> chain_bytes m' (as @ as') = chain_bytes m as @ drop room data
    \<and> mem_ok m' \<and> same_but (set as) m m' \<and> chan c' = chan c"
proof (cases "length data \<le> room")
  case True
  then have "send pl wire_writev data (m, c, (room, sent)) = Some (m, c, (room - length data, sent @ take room data))"
    if "data \<noteq> [] \<or> 0 < room"
    using n that by (cases "room = 0") (simp_all add: send_def wire_writev_def Let_def u32_simps)
  moreover have "send pl wire_writev data (m, c, (room, sent)) = Some (m, c, (room - length data, sent @ take room data))"
    if "data = []" "room = 0"
    using ok that by (auto simp: send_def wire_writev_def writeData_def)
  ultimately have "send pl wire_writev data (m, c, (room, sent)) = Some (m, c, (room - length data, sent @ take room data))"
    by blast
  then show ?thesis
    using ok mo True by (intro exI [of _ m] exI [of _ c] exI [of _ "[]"]) simp
next
  case False
  let ?rest = "drop room data"
  have r: "0 < length ?rest" "length ?rest \<le> length ?rest" "length ?rest < 2 ^ 32"
    using False n by simp_all
  obtain m' c' as' where w: "writeData pl (Some ?rest) (length ?rest) m c = Some (True, m', c')"
    "write_ok m' c' (as @ as')" "chain_bytes m' (as @ as') = chain_bytes m as @ take (length ?rest) ?rest"
    "mem_ok m'" "same_but (set as) m m'" "c' = c\<lparr>writeTail := writeTail c', writeSize := writeSize c + length ?rest\<rparr>"
    using writeData_correct [OF ok mo pl r] by blast
  have "chan c' = chan c"
    using w(6) by (metis conn.ext_inject conn.surjective conn.update_convs(9,10))
  moreover have "send pl wire_writev data (m, c, (room, sent))
      = Some (m', c', (room - length data, sent @ take room data))"
    using w(1) False n by (cases "room = 0") (simp_all add: send_def wire_writev_def Let_def u32_simps)
  ultimately show ?thesis
    using w by (intro exI [of _ m'] exI [of _ c'] exI [of _ as']) simp
qed

text \<open>
  \<open>send\<close> on a connection with nothing pending loses and reorders nothing: what the socket took,
  followed by what is now buffered, is the data.
\<close>

theorem send_in_order:
  assumes ok: "write_ok m c as" and mo: "mem_ok m" and pl: "pool_ok pl" and n: "length data < 2 ^ 32"
    and empty: "writeSize c = 0"
  shows "\<exists>m' c' as' room' sent'. send pl wire_writev data (m, c, (room, sent)) = Some (m', c', (room', sent'))
    \<and> write_ok m' c' (as @ as') \<and> sent' @ chain_bytes m' (as @ as') = sent @ data"
proof -
  have "chain_bytes m as = []"
    using ok empty by (simp add: write_ok_def)
  with send_wire [OF ok mo pl n, of room sent] show ?thesis
    by (metis append.assoc append.left_neutral append_take_drop_id)
qed

lemma send_in_order_witness:
  "\<exists>m' c' as' room' sent'. send demo_pool wire_writev ''hello''
      (set_cell demo_mem 2 (fresh_buffer demo_pool demo_mem), demo_conn\<lparr>writeSize := 0\<rparr>, (2, []))
        = Some (m', c', (room', sent')) \<and> sent' @ chain_bytes m' ([2] @ as') = ''hello''"
proof -
  have ok: "write_ok (set_cell demo_mem 2 (fresh_buffer demo_pool demo_mem)) (demo_conn\<lparr>writeSize := 0\<rparr>) [2]"
    using demo_pool_ok by (simp add: write_ok_def)
  have mo: "mem_ok (set_cell demo_mem 2 (fresh_buffer demo_pool demo_mem))"
    using demo_mem_ok by simp
  from send_in_order [OF ok mo demo_pool_ok, of "''hello''" 2 "[]"] show ?thesis
    by auto
qed

text \<open>
  C36: with bytes still pending, \<open>send\<close> writes new data to the socket in front of them: the peer
  receives the new data first, and the older bytes stay behind in the buffer.
\<close>

theorem send_overtakes_pending:
  assumes ok: "write_ok m c as" and mo: "mem_ok m" and pl: "pool_ok pl"
    and data: "length data < 2 ^ 32" "data \<noteq> []" and pending: "0 < writeSize c" and room: "length data \<le> room"
  shows "\<exists>m' c' as'. send pl wire_writev data (m, c, (room, sent)) = Some (m', c', (room - length data, sent @ data))
    \<and> chain_bytes m' (as @ as') = chain_bytes m as \<and> chain_bytes m as \<noteq> []"
  using send_wire [OF ok mo pl data(1), of room sent] ok pending room
  by (fastforce simp: write_ok_def)

lemma send_overtakes_pending_witness:
  "\<exists>m' c' as'. send demo_pool wire_writev ''hello'' (demo_mem, demo_conn, (9, ''xy'')) = Some (m', c', (4, ''xyhello''))
    \<and> chain_bytes m' ([2] @ as') = ''z''"
  using send_overtakes_pending [OF demo_write_ok demo_mem_ok demo_pool_ok, of "''hello''" 9 "''xy''"]
  by (auto simp: ring_bytes_def)

text \<open>
  When the socket does not take everything, the rest is buffered while the channel still
  counts as writeable; the poller's next \<open>EPOLLOUT\<close> is then ignored by the channel and \<open>onWrite\<close>
  is not called, so nothing ever sends the buffered bytes.
\<close>

theorem send_stalls:
  assumes ok: "write_ok m c as" and mo: "mem_ok m" and pl: "pool_ok pl"
    and data: "length data < 2 ^ 32" "room < length data" and wr: "ch_writeable (chan c)"
  shows "\<exists>m' c' w'. send pl wire_writev data (m, c, (room, sent)) = Some (m', c', w')
    \<and> 0 < writeSize c' \<and> onWrite_ch (chan c') = (chan c', [])"
proof -
  obtain m' c' as' where s: "send pl wire_writev data (m, c, (room, sent))
      = Some (m', c', (room - length data, sent @ take room data))"
    "write_ok m' c' (as @ as')" "chain_bytes m' (as @ as') = chain_bytes m as @ drop room data" "chan c' = chan c"
    using send_wire [OF ok mo pl data(1), of room sent] by blast
  have "0 < writeSize c'"
  proof -
    have "writeSize c' = length (chain_bytes m as) + (length data - room)"
      using arg_cong [OF s(3), of length] s(2) unfolding write_ok_def by (metis length_append length_drop)
    then show ?thesis using data(2) by linarith
  qed
  moreover have "onWrite_ch (chan c') = (chan c', [])"
    using s(4) wr by (simp add: onWrite_ch_def)
  ultimately show ?thesis
    using s(1) by blast
qed

lemma send_stalls_witness:
  "\<exists>m' c' w'. send demo_pool wire_writev ''hello'' (demo_mem, demo_conn, (2, [])) = Some (m', c', w')
    \<and> 0 < writeSize c' \<and> onWrite_ch (chan c') = (chan c', [])"
  using send_stalls [OF demo_write_ok demo_mem_ok demo_pool_ok, of "''hello''" 2 "[]"]
  by (simp add: demo_conn_def)

end
