(* ===== verification/TcpRead.thy ===== *)
theory TcpRead
  imports TcpRecv TcpWrite
begin

section \<open>The receiving side: onRead\<close>

text \<open>
  One turn of \<open>onRead\<close> reads into the free part of the tail node and into the node behind it,
  which it allocates when there is none.  The turn appends exactly what the kernel delivered to
  the receive chain, and the loop over the turns ends, whatever the portions.
\<close>

subsection \<open>The tail of a well-formed chain\<close>

lemma set_cell_same [simp]: "cells m a = Some b \<Longrightarrow> set_cell m a b = m"
  by (cases m) (auto simp: set_cell_def)

lemma read_shape_snoc:
  "read_shape m c (ps @ a # xs) (length ps) \<longleftrightarrow>
     chain m (readHead c) (ps @ a # xs) \<and> distinct (ps @ a # xs) \<and> length xs \<le> 1 \<and> readTail c = Addr a
     \<and> list_all (\<lambda>a. ring_ok (node m a)) (ps @ a # xs)
     \<and> list_all (\<lambda>a. b_pop (node m a) = 0) (tl (ps @ a # xs)) \<and> list_all (\<lambda>a. b_count (node m a) = 0) xs"
  by (auto simp: read_shape_def nth_append)

lemma read_shape_split:
  assumes "read_shape m c as k"
  obtains ps a xs where "as = ps @ a # xs" "k = length ps" "length xs \<le> 1"
proof -
  have "k < length as" "length as \<le> k + 2"
    using assms by (auto simp: read_shape_def)
  then have "as = take k as @ as ! k # drop (Suc k) as" "k = length (take k as)" "length (drop (Suc k) as) \<le> 1"
    by (auto simp: Cons_nth_drop_Suc)
  then show ?thesis by (rule that)
qed

text \<open>Writing a node of the chain that keeps its \<open>next\<close>, its \<open>pop\<close> and its shape.\<close>

lemma list_all_set_cell:
  "list_all (\<lambda>a. P (node m a)) xs \<Longrightarrow> (a \<in> set xs \<Longrightarrow> P b) \<Longrightarrow> list_all (\<lambda>x. P (node (set_cell m a b) x)) xs"
  by (auto simp: list_all_iff)

lemma read_shape_set:
  assumes sh: "read_shape m c (ps @ a # xs) (length ps)" and y: "y = a \<or> b_count b = 0"
    and b: "ring_ok b" "b_next b = b_next (node m y)" "b_pop b = b_pop (node m y)"
  shows "read_shape (set_cell m y b) c (ps @ a # xs) (length ps)"
proof -
  have pop: "list_all (\<lambda>x. b_pop (node (set_cell m y b) x) = 0) (tl (ps @ a # xs))"
    using sh b(3) by (intro list_all_set_cell) (auto simp: read_shape_snoc list_all_iff)
  have cnt: "list_all (\<lambda>x. b_count (node (set_cell m y b) x) = 0) xs"
    using sh y by (intro list_all_set_cell) (auto simp: read_shape_snoc)
  have ring: "list_all (\<lambda>x. ring_ok (node (set_cell m y b) x)) (ps @ a # xs)"
    using sh b(1) by (intro list_all_set_cell) (auto simp: read_shape_snoc)
  have "chain (set_cell m y b) (readHead c) (ps @ a # xs)"
    using sh b(2) by (intro chain_set_cell) (simp_all add: read_shape_snoc)
  with sh ring pop cnt show ?thesis
    unfolding read_shape_snoc by blast
qed

text \<open>The tail pointer moves to the node behind the tail, which is then filled.\<close>

lemma read_shape_advance:
  assumes sh: "read_shape m c (ps @ [a, x]) (length ps)"
    and b: "ring_ok b" "b_next b = b_next (node m x)" "b_pop b = 0"
  shows "read_shape (set_cell m x b) (c\<lparr>readTail := Addr x\<rparr>) (ps @ [a, x]) (Suc (length ps))"
proof -
  have p0: "list_all (\<lambda>x. b_pop (node m x) = 0) (tl (ps @ [a, x]))"
    using sh by (simp add: read_shape_snoc)
  have "list_all (\<lambda>y. b_pop (node (set_cell m x b) y) = 0) (tl (ps @ [a, x]))"
    using p0 b(3) by (intro list_all_set_cell)
  moreover have "list_all (\<lambda>y. ring_ok (node (set_cell m x b) y)) (ps @ [a, x])"
    using sh b(1) by (intro list_all_set_cell) (auto simp: read_shape_snoc)
  moreover have "chain (set_cell m x b) (readHead c) (ps @ [a, x])"
    using sh b(2) by (intro chain_set_cell) (simp_all add: read_shape_snoc)
  ultimately have "read_shape (set_cell m x b) (c\<lparr>readTail := Addr x\<rparr>) ((ps @ [a]) @ x # []) (length (ps @ [a]))"
    using sh unfolding read_shape_snoc by auto
  then show ?thesis by simp
qed

subsection \<open>The node behind the tail\<close>

lemma chain_append_next:
  "chain m p (ps @ a # xs) \<Longrightarrow> chain m (b_next (node m a)) xs"
  by (induction ps arbitrary: p) (auto simp: node_def split: option.splits)

lemma read_shape_nodes:
  assumes sh: "read_shape m c (ps @ a # xs) (length ps)"
  shows "cells m a = Some (node m a)" "ring_ok (node m a)" "a \<notin> set ps" "a \<notin> set xs" "readTail c = Addr a"
    "chain m (b_next (node m a)) xs"
  using sh chain_node [of m "readHead c" "ps @ a # xs" a] chain_append_next [of m "readHead c" ps a xs]
  by (auto simp: read_shape_snoc)

lemma ring_count0: "ring_ok b \<Longrightarrow> b_count b = 0 \<Longrightarrow> b_pop b = 0 \<Longrightarrow> b_push b = 0"
  by (auto simp: ring_ok_def split: if_splits)

lemma ring_bytes_next [simp]: "ring_bytes (b\<lparr>b_next := p\<rparr>) = ring_bytes b" "ring_ok (b\<lparr>b_next := p\<rparr>) = ring_ok b"
  by (simp_all add: ring_bytes_def ring_ok_def)

lemma read_ahead_correct:
  assumes sh: "read_shape m c (ps @ a # xs) (length ps)" and mo: "mem_ok m" and pl: "pool_ok pl"
  shows "\<exists>m' x n. read_ahead pl m c (node m a) = Some (Addr x, m') \<and> read_shape m' c (ps @ [a, x]) (length ps)
    \<and> node m' a = (node m a)\<lparr>b_next := n\<rparr> \<and> chain_bytes m' (ps @ [a, x]) = chain_bytes m (ps @ a # xs)
    \<and> mem_ok m' \<and> framed m (ps @ a # xs) m' (ps @ [a, x])"
proof -
  note n = read_shape_nodes [OF sh]
  have "length xs \<le> 1"
    using sh by (simp add: read_shape_snoc)
  then consider (none) "xs = []" | (there) x where "xs = [x]"
    by (cases xs) auto
  then show ?thesis
  proof cases
    case none
    let ?x = "fresh m"
    let ?b = "(node m a)\<lparr>b_next := Addr ?x\<rparr>"
    let ?m = "set_cell (alloc_cell m (fresh_buffer pl m)) a ?b"
    have fr: "y < ?x" if "y \<in> set (ps @ [a])" for y
      using chain_fresh [OF mo, of "readHead c"] sh that none by (auto simp: read_shape_snoc)
    then have new: "?x \<notin> set (ps @ [a])" by auto
    have nxt: "b_next (node m a) = Null"
      using n(6) none by simp
    then have r: "read_ahead pl m c (node m a) = Some (Addr ?x, ?m)"
      using takeNext_alloc [OF n(1)] fr n(5) by (simp add: read_ahead_def ptr_true_def)
    have "chain ?m (readHead c) ((ps @ [a]) @ [?x])"
      using chain_extend [of m "readHead c" "ps @ [a]" "fresh_buffer pl m" ?b] sh none new
      by (simp add: read_shape_snoc)
    moreover have same: "node ?m y = node m y" if "y \<in> set ps" for y
      using that fr n(3) by auto
    moreover have na: "node ?m a = ?b" "node ?m ?x = fresh_buffer pl m"
      using fr by auto
    have L: "list_all (\<lambda>y. P (node ?m y)) zs = list_all (\<lambda>y. P (node m y)) zs"
      if "P ?b = P (node m a)" "set zs \<subseteq> set (ps @ [a])" for P zs
    proof (rule list.pred_cong [OF refl])
      fix y assume "y \<in> set zs"
      then have "y \<in> set (ps @ [a])" using that(2) by blast
      then consider "y \<in> set ps" | "y = a" by auto
      then show "P (node ?m y) = P (node m y)"
        by cases (use same that(1) na in auto)
    qed
    have "set (tl (ps @ [a])) \<subseteq> set (ps @ [a])"
      by (cases ps) auto
    then have "list_all (\<lambda>y. b_pop (node ?m y) = 0) (tl (ps @ [a])) = list_all (\<lambda>y. b_pop (node m y) = 0) (tl (ps @ [a]))"
      by (intro L [where P = "\<lambda>b. b_pop b = 0"]) simp_all
    then have "list_all (\<lambda>y. b_pop (node ?m y) = 0) (tl (ps @ [a]))"
      using sh none by (simp only: read_shape_snoc)
    moreover have "list_all (\<lambda>y. ring_ok (node ?m y)) (ps @ [a])"
      using L [of ring_ok "ps @ [a]"] sh none by (simp add: read_shape_snoc)
    ultimately have "read_shape ?m c (ps @ [a, ?x]) (length ps)"
      using sh none new na(2) pl unfolding read_shape_snoc by (cases ps) auto
    moreover have "chain_bytes ?m (ps @ [a, ?x]) = chain_bytes m (ps @ a # xs)"
    proof -
      have "chain_bytes ?m ps = chain_bytes m ps"
        using fr n(3) by (intro chain_bytes_cong) auto
      then show ?thesis using na none by simp
    qed
    moreover have "framed m (ps @ a # xs) ?m (ps @ [a, ?x])"
      using none by (auto simp: framed_def same_but_def)
    moreover have "mem_ok ?m"
      using mo fr [of a] by (auto simp: mem_ok_def)
    ultimately show ?thesis
      using r na(1) by blast
  next
    case (there x)
    then have "b_next (node m a) = Addr x"
      using n(6) by simp
    then have "read_ahead pl m c (node m a) = Some (Addr x, m)"
      by (simp add: read_ahead_def ptr_true_def)
    then show ?thesis
      using there sh mo by (intro exI [of _ m] exI [of _ x] exI [of _ "b_next (node m a)"]) simp
  qed
qed

subsection \<open>Scattering into the tail\<close>

lemma tail_iov_cases:
  assumes "ring_ok t"
  obtains (full) "b_count t = b_capacity t" "tail_iov p t = []"
  | (before) "b_push t < b_pop t" "b_capacity t - b_count t = b_pop t - b_push t"
      "tail_iov p t = [(p, b_push t, b_pop t - b_push t)]"
  | (around) "b_pop t \<le> b_push t" "b_capacity t - b_count t = b_capacity t - b_push t + b_pop t" "b_count t < b_capacity t"
      "tail_iov p t = (p, b_push t, b_capacity t - b_push t) # (if 0 < b_pop t then [(p, 0, b_pop t)] else [])"
proof -
  note k = ring_okD [OF assms]
  have sub: "sub32 (b_capacity t) (b_count t) = b_capacity t - b_count t"
    "sub32 (b_capacity t) (b_push t) = b_capacity t - b_push t"
    using assms by (simp_all add: u32_simps)
  consider "b_count t = b_capacity t" | "b_count t < b_capacity t" "b_push t < b_pop t"
    | "b_count t < b_capacity t" "b_pop t \<le> b_push t"
    using k(6) by linarith
  then show thesis
  proof cases
    case 1
    then show ?thesis using sub by (intro full) (simp_all add: tail_iov_def)
  next
    case 2
    then have "b_capacity t - b_count t = b_pop t - b_push t"
      using assms by (auto simp: ring_ok_def)
    with 2 show ?thesis using sub by (intro before) (simp_all add: tail_iov_def)
  next
    case 3
    then have "b_capacity t - b_count t = b_capacity t - b_push t + b_pop t"
      using assms by (auto simp: ring_ok_def split: if_splits)
    moreover have "0 < b_capacity t - b_count t"
      using 3 by simp
    ultimately show ?thesis using 3 sub by (intro around) (simp_all add: tail_iov_def)
  qed
qed

lemma tail_iov_length:
  assumes "ring_ok t"
  shows "sum_list (map (snd \<circ> snd) (tail_iov p t)) = b_capacity t - b_count t"
  by (rule tail_iov_cases [OF assms, of p]) auto

lemma copy_in_parts:
  assumes "wr (b_bytes t) (b_push t) y = Some d1" "wr d1 0 z = Some d" "z = [] \<and> length y \<le> r \<or> length y = r"
  shows "copy_in t r (y @ z) = Some (t\<lparr>b_bytes := d\<rparr>)"
proof (cases "z = []")
  case True
  then show ?thesis using assms by (auto simp: copy_in_def wr_def split: if_splits)
next
  case False
  then show ?thesis using assms by (auto simp: copy_in_def)
qed

lemma scatter_tail:
  assumes ok: "ring_ok t" and c: "cells m a = Some t"
  shows "\<exists>d. copy_in t (b_capacity t - b_push t) (take (b_capacity t - b_count t) bs) = Some (t\<lparr>b_bytes := d\<rparr>)
    \<and> scatter m (tail_iov (Addr a) t @ rest) bs
      = scatter (set_cell m a (t\<lparr>b_bytes := d\<rparr>)) rest (drop (b_capacity t - b_count t) bs)"
proof (rule tail_iov_cases [OF ok, of "Addr a"])
  note k = ring_okD [OF ok]
  assume "b_count t = b_capacity t" "tail_iov (Addr a) t = []"
  then show ?thesis
    using c k by (intro exI [of _ "b_bytes t"]) (simp add: copy_in_def wr_def)
next
  note k = ring_okD [OF ok]
  assume h: "b_push t < b_pop t" "b_capacity t - b_count t = b_pop t - b_push t"
    "tail_iov (Addr a) t = [(Addr a, b_push t, b_pop t - b_push t)]"
  let ?x = "take (b_pop t - b_push t) bs"
  have "b_push t + length ?x \<le> length (b_bytes t)"
    using k h by simp
  then obtain d where d: "wr (b_bytes t) (b_push t) ?x = Some d"
    by (simp add: wr_def)
  have "\<not> b_capacity t - b_push t < length ?x"
    using k(4) h(1) by auto
  then have "copy_in t (b_capacity t - b_push t) ?x = Some (t\<lparr>b_bytes := d\<rparr>)"
    unfolding copy_in_def using d by (simp del: length_take)
  then show ?thesis
    using d c h by (intro exI [of _ d]) (simp add: store_Addr)
next
  note k = ring_okD [OF ok]
  assume h: "b_pop t \<le> b_push t" "b_capacity t - b_count t = b_capacity t - b_push t + b_pop t"
    "tail_iov (Addr a) t = (Addr a, b_push t, b_capacity t - b_push t) # (if 0 < b_pop t then [(Addr a, 0, b_pop t)] else [])"
  let ?r = "b_capacity t - b_push t"
  let ?y = "take ?r bs" and ?z = "take (b_pop t) (drop ?r bs)"
  have yz: "take (?r + b_pop t) bs = ?y @ ?z" by (simp add: take_add)
  have "b_push t + length ?y \<le> length (b_bytes t)"
    using k by simp
  then obtain d1 where d1: "wr (b_bytes t) (b_push t) ?y = Some d1"
    by (simp add: wr_def)
  have len: "length d1 = b_capacity t" using wr_length [OF d1] k by simp
  have "0 + length ?z \<le> length d1"
    using len k by simp
  then obtain d where d: "wr d1 0 ?z = Some d"
    by (simp add: wr_def)
  have "?z = [] \<and> length ?y \<le> ?r \<or> length ?y = ?r"
    by auto
  then have "copy_in t ?r (?y @ ?z) = Some (t\<lparr>b_bytes := d\<rparr>)"
    by (rule copy_in_parts [OF d1 d])
  moreover have "b_pop t = 0 \<Longrightarrow> d = d1"
    using d by (simp add: wr_def)
  moreover have "set_cell (set_cell m a b) a b' = set_cell m a b'" for b b'
    by (simp add: set_cell_def)
  ultimately show ?thesis
    using d1 d c h yz by (intro exI [of _ d]) (simp add: store_Addr add.commute)
qed

text \<open>The arrays after \<open>readv\<close>: the tail holds its bytes and the first of the new ones, the next node the others.\<close>

lemma scatter_read:
  assumes sh: "read_shape m c (ps @ [a, x]) (length ps)"
    and len: "length bs \<le> b_capacity (node m a) - b_count (node m a) + b_capacity (node m x)"
  defines "rear \<equiv> b_capacity (node m a) - b_count (node m a)"
  shows "\<exists>d d2. scatter m (tail_iov (Addr a) (node m a) @ [(Addr x, 0, b_capacity (node m x))]) bs
      = Some (set_cell (set_cell m a ((node m a)\<lparr>b_bytes := d\<rparr>)) x ((node m x)\<lparr>b_bytes := d2\<rparr>))
    \<and> length d = b_capacity (node m a)
    \<and> take (b_count (node m a) + length (take rear bs)) (drop (b_pop (node m a)) d @ take (b_pop (node m a)) d)
      = ring_bytes (node m a) @ take rear bs
    \<and> length d2 = b_capacity (node m x) \<and> take (length bs - rear) d2 = drop rear bs"
proof -
  note a = read_shape_nodes [OF sh]
  have x: "cells m x = Some (node m x)" "ring_ok (node m x)" "x \<noteq> a"
    using sh chain_node [of m "readHead c" "ps @ [a, x]" x] by (auto simp: read_shape_snoc)
  obtain d where d: "copy_in (node m a) (b_capacity (node m a) - b_push (node m a)) (take rear bs) = Some ((node m a)\<lparr>b_bytes := d\<rparr>)"
    "scatter m (tail_iov (Addr a) (node m a) @ [(Addr x, 0, b_capacity (node m x))]) bs
      = scatter (set_cell m a ((node m a)\<lparr>b_bytes := d\<rparr>)) [(Addr x, 0, b_capacity (node m x))] (drop rear bs)"
    using scatter_tail [OF a(2,1)] unfolding rear_def by blast
  obtain d' where d': "copy_in (node m a) (b_capacity (node m a) - b_push (node m a)) (take rear bs) = Some ((node m a)\<lparr>b_bytes := d'\<rparr>)"
    "length d' = b_capacity (node m a)"
    "take (b_count (node m a) + length (take rear bs)) (drop (b_pop (node m a)) d' @ take (b_pop (node m a)) d')
      = ring_bytes (node m a) @ take rear bs"
    using copy_in_ring [OF a(2), of "take rear bs"] unfolding rear_def by auto
  have "d' = d"
    using d(1) d'(1) by (metis buffer.select_convs(1) buffer.surjective buffer.update_convs(1) option.inject)
  moreover have n: "length (drop rear bs) \<le> b_capacity (node m x)"
    using len unfolding rear_def by simp
  have "scatter (set_cell m a ((node m a)\<lparr>b_bytes := d\<rparr>)) [(Addr x, 0, b_capacity (node m x))] (drop rear bs)
      = Some (set_cell (set_cell m a ((node m a)\<lparr>b_bytes := d\<rparr>)) x
          ((node m x)\<lparr>b_bytes := drop rear bs @ drop (length (drop rear bs)) (b_bytes (node m x))\<rparr>))"
    using x n ring_okD(1) [OF x(2)] by (simp add: wr_def store_Addr)
  ultimately show ?thesis
    using d(2) d'(2,3) n ring_okD(1) [OF x(2)]
    by (intro exI [of _ d] exI [of _ "drop rear bs @ drop (length (drop rear bs)) (b_bytes (node m x))"]) simp
qed

subsection \<open>The bookkeeping\<close>

lemma ring_ok_bytes: "ring_ok b \<Longrightarrow> length d = b_capacity b \<Longrightarrow> ring_ok (b\<lparr>b_bytes := d\<rparr>)"
  by (auto simp: ring_ok_def split: if_splits)

lemma ring_filled:
  assumes "ring_ok b" "length d = b_capacity b"
    "take (b_capacity b) (drop (b_pop b) d @ take (b_pop b) d) = xs"
  shows "ring_ok (b\<lparr>b_bytes := d, b_push := b_pop b, b_count := b_capacity b\<rparr>)"
    "ring_bytes (b\<lparr>b_bytes := d, b_push := b_pop b, b_count := b_capacity b\<rparr>) = xs"
  using assms by (auto simp: ring_ok_def ring_bytes_def)

lemma ring_first:
  assumes "ring_ok b" "b_pop b = 0" "length d = b_capacity b" "0 < n" "n \<le> b_capacity b"
  shows "ring_ok (b\<lparr>b_bytes := d, b_count := n, b_push := n\<rparr>)"
    "ring_bytes (b\<lparr>b_bytes := d, b_count := n, b_push := n\<rparr>) = take n d"
  using assms by (simp_all add: ring_ok_def ring_bytes_def)

lemma ring_pushed:
  assumes "ring_ok b" "length d = b_capacity b" "length xs < b_capacity b - b_count b"
    "take (b_count b + length xs) (drop (b_pop b) d @ take (b_pop b) d) = ring_bytes b @ xs"
  defines "b' \<equiv> b\<lparr>b_bytes := d, b_push := (b_push b + length xs) mod b_capacity b, b_count := b_count b + length xs\<rparr>"
  shows "ring_ok b'" "ring_bytes b' = ring_bytes b @ xs"
proof -
  note k = ring_okD [OF assms(1)]
  have "length xs \<le> b_capacity b" using assms(3) by simp
  then have "advance (b_capacity b) (b_push b) (length xs) = (b_push b + length xs) mod b_capacity b"
    using k assms(3) by (auto simp: advance_def mod_once)
  then have "b' = push_by (length xs) (b\<lparr>b_bytes := d\<rparr>)"
    by (simp add: b'_def push_by_def)
  then show "ring_ok b'"
    using ring_ok_push_by [OF assms(1,3,2)] by simp
  show "ring_bytes b' = ring_bytes b @ xs"
    using assms(4) by (simp add: b'_def ring_bytes_def)
qed

lemma chain_bytes_pair:
  assumes "a \<notin> set ps" "x \<notin> set ps" "x \<noteq> a"
  shows "chain_bytes (set_cell (set_cell m a A) x X) (ps @ [a, x]) = chain_bytes m ps @ ring_bytes A @ ring_bytes X"
  using assms by simp

lemma set_cell_twice: "x \<noteq> a \<Longrightarrow> set_cell (set_cell (set_cell m a A) x X) a B = set_cell (set_cell m a B) x X"
  "set_cell (set_cell m a A) a B = set_cell m a B"
  by (auto simp: set_cell_def fun_upd_twist)

lemma fill_read:
  assumes sh: "read_shape m c (ps @ [a, x]) (length ps)" and bs: "bs \<noteq> []"
    and len: "length bs \<le> b_capacity (node m a) - b_count (node m a) + b_capacity (node m x)"
  defines "rear \<equiv> b_capacity (node m a) - b_count (node m a)"
  shows "\<exists>A X c' k'. do { m2 \<leftarrow> scatter m (tail_iov (Addr a) (node m a) @ [(Addr x, 0, b_capacity (node m x))]) bs;
        fill_tail m2 c (Addr x) rear (length bs) } = Some (set_cell (set_cell m a A) x X, c')
    \<and> c' = c\<lparr>readTail := readTail c'\<rparr> \<and> read_shape (set_cell (set_cell m a A) x X) c' (ps @ [a, x]) k'
    \<and> chain_bytes (set_cell (set_cell m a A) x X) (ps @ [a, x]) = chain_bytes m (ps @ [a, x]) @ bs"
proof -
  note a = read_shape_nodes [OF sh]
  have x: "cells m x = Some (node m x)" "ring_ok (node m x)" "x \<noteq> a" "x \<notin> set ps"
    "b_count (node m x) = 0" "b_pop (node m x) = 0"
  proof -
    have "x \<in> set (tl (ps @ [a, x]))" by (cases ps) auto
    then show "b_pop (node m x) = 0"
      using sh by (auto simp: read_shape_snoc list_all_iff)
  qed (use sh chain_node [of m "readHead c" "ps @ [a, x]" x] in \<open>auto simp: read_shape_snoc\<close>)
  let ?a = "node m a" and ?x = "node m x" and ?n = "length bs"
  obtain d d2 where s: "scatter m (tail_iov (Addr a) ?a @ [(Addr x, 0, b_capacity ?x)]) bs
      = Some (set_cell (set_cell m a (?a\<lparr>b_bytes := d\<rparr>)) x (?x\<lparr>b_bytes := d2\<rparr>))" "length d = b_capacity ?a"
    "take (b_count ?a + length (take rear bs)) (drop (b_pop ?a) d @ take (b_pop ?a) d) = ring_bytes ?a @ take rear bs"
    "length d2 = b_capacity ?x" "take (?n - rear) d2 = drop rear bs"
    using scatter_read [OF sh len] unfolding rear_def by blast
  let ?A = "?a\<lparr>b_bytes := d\<rparr>" and ?X = "?x\<lparr>b_bytes := d2\<rparr>"
  have caps: "b_capacity ?a < 2 ^ 31" "b_capacity ?x < 2 ^ 31"
    using a(2) x(2) by (simp_all add: ring_ok_def)
  have rx: "ring_bytes ?X = []" "ring_bytes ?x = []"
    using x(5) by (simp_all add: ring_bytes_def)
  have shA: "read_shape (set_cell m a B) c (ps @ [a, x]) (length ps)"
    if "ring_ok B" "b_next B = b_next ?a" "b_pop B = b_pop ?a" for B
    using that by (intro read_shape_set [OF sh]) auto
  have shX: "read_shape (set_cell (set_cell m a B) x ?X) c (ps @ [a, x]) (length ps)"
    if "ring_ok B" "b_next B = b_next ?a" "b_pop B = b_pop ?a" for B
    using x(2,3,5) s(4) ring_ok_bytes by (intro read_shape_set [OF shA [OF that]]) auto
  have bytes: "chain_bytes m (ps @ [a, x]) = chain_bytes m ps @ ring_bytes ?a"
    using rx by simp
  note pair = chain_bytes_pair [OF a(3) x(4,3)]
  show ?thesis
  proof (cases "?n < rear")
    case True
    let ?B = "?a\<lparr>b_bytes := d, b_push := (b_push ?a + ?n) mod b_capacity ?a, b_count := b_count ?a + ?n\<rparr>"
    have p: "ring_ok ?B" "ring_bytes ?B = ring_bytes ?a @ bs"
      using ring_pushed [OF a(2) s(2), of bs] True s(3) unfolding rear_def by simp_all
    have "?n \<le> b_capacity ?a"
      using True unfolding rear_def by simp
    then have "?n < 2 ^ 32" "b_push ?a + ?n < 2 ^ 32" "b_count ?a + ?n < 2 ^ 32"
      using caps(1) ring_okD(5,6) [OF a(2)] by simp_all
    then have "fill_tail (set_cell (set_cell m a ?A) x ?X) c (Addr x) rear ?n = Some (set_cell (set_cell m a ?B) x ?X, c)"
      using True a(5) x(3) ring_okD(2) [OF a(2)]
      by (simp add: fill_tail_def u32_simps store_Addr set_cell_twice)
    with s(1) shX [OF p(1)] p(2) rx(1) pair [of m ?B ?X] bytes show ?thesis
      by (intro exI [of _ ?B] exI [of _ ?X] exI [of _ c] exI [of _ "length ps"]) simp
  next
    case False
    let ?B = "?a\<lparr>b_bytes := d, b_push := b_pop ?a, b_count := b_capacity ?a\<rparr>"
    have "b_count ?a + length (take rear bs) = b_capacity ?a"
      using False ring_okD(6) [OF a(2)] unfolding rear_def by auto
    then have full: "take (b_capacity ?a) (drop (b_pop ?a) d @ take (b_pop ?a) d) = ring_bytes ?a @ take rear bs"
      using s(3) by simp
    note B = ring_filled [OF a(2) s(2) full]
    have n32: "?n < 2 ^ 32" "sub32 (u32 ?n) rear = ?n - rear"
      using False len caps unfolding rear_def by (simp_all add: u32_simps)
    show ?thesis
    proof (cases "rear < ?n")
      case True
      let ?Y = "?x\<lparr>b_bytes := d2, b_count := ?n - rear, b_push := ?n - rear\<rparr>"
      have Y: "ring_ok ?Y" "ring_bytes ?Y = drop rear bs"
        using ring_first [OF x(2,6) s(4), of "?n - rear"] True len s(5) unfolding rear_def by simp_all
      have "fill_tail (set_cell (set_cell m a ?A) x ?X) c (Addr x) rear ?n
          = Some (set_cell (set_cell m a ?B) x ?Y, c\<lparr>readTail := Addr x\<rparr>)"
        using True a(5) x(3) n32 by (simp add: fill_tail_def store_Addr set_cell_twice)
      moreover have "read_shape (set_cell (set_cell m a ?B) x ?Y) (c\<lparr>readTail := Addr x\<rparr>) (ps @ [a, x]) (Suc (length ps))"
        using B(1) Y(1) x(3,6) by (intro read_shape_advance [OF shA]) auto
      ultimately show ?thesis
        using s(1) B(2) Y(2) pair [of m ?B ?Y] bytes
        by (intro exI [of _ ?B] exI [of _ ?Y] exI [of _ "c\<lparr>readTail := Addr x\<rparr>"] exI [of _ "Suc (length ps)"]) simp
    next
      case eq: False
      have "fill_tail (set_cell (set_cell m a ?A) x ?X) c (Addr x) rear ?n = Some (set_cell (set_cell m a ?B) x ?X, c)"
        using eq \<open>\<not> ?n < rear\<close> a(5) x(3) by (simp add: fill_tail_def store_Addr set_cell_twice)
      moreover have "take rear bs = bs"
        using eq by simp
      ultimately show ?thesis
        using s(1) shX [OF B(1)] B(2) rx(1) pair [of m ?B ?X] bytes
        by (intro exI [of _ ?B] exI [of _ ?X] exI [of _ c] exI [of _ "length ps"]) simp
    qed
  qed
qed

subsection \<open>One turn of onRead\<close>

text \<open>The rest of a turn that received \<open>n\<close> of \<open>sz\<close> bytes offered.\<close>

definition after_read ::
  "'w tcp_callbacks \<Rightarrow> nat \<Rightarrow> nat \<Rightarrow> 'w tcp \<Rightarrow> (bool \<times> 'w tcp) option" where
  "after_read cbs sz n s = do {
     (m, c, w) \<leftarrow> call (map_option (\<lambda>f. f (u32 n)) (recvCallback cbs)) s;
     if n < sz then Some (False, m, upd_chan disableReadable c, w) else Some (True, m, c, w) }"

lemma tail_iov_next [simp]: "tail_iov p (t\<lparr>b_next := q\<rparr>) = tail_iov p t"
  by (simp add: tail_iov_def)

lemma read_shape_readSize [simp]: "read_shape m (c\<lparr>readSize := n\<rparr>) as k = read_shape m c as k"
  by (simp add: read_shape_def)

lemma read_ok_upd_chan [simp]: "read_ok m (upd_chan f c) as k = read_ok m c as k"
  by (simp add: read_ok_def read_shape_def upd_chan_def)

lemma onRead_step_correct:
  assumes ok: "read_ok m c as k" and mo: "mem_ok m" and pl: "pool_ok pl"
  shows "\<exists>lens m1 as1. 0 < sum_list lens \<and> read_ok m1 c as1 k \<and> mem_ok m1 \<and> chain_bytes m1 as1 = chain_bytes m as
    \<and> framed m as m1 as1
    \<and> (case rv lens w of
         (None, w') \<Rightarrow> onRead_step pl rv cbs (m, c, w) = Some (False, m1, upd_chan disableReadable c, w')
       | (Some bs, w') \<Rightarrow>
           if bs = [] then onRead_step pl rv cbs (m, c, w) = map_option (Pair False) (onClose_conn cbs (m1, c, w'))
           else length bs \<le> sum_list lens \<longrightarrow>
             (\<exists>m' c' as' k'. read_ok m' c' as' k' \<and> mem_ok m' \<and> chain_bytes m' as' = chain_bytes m as @ bs
               \<and> framed m as m' as' \<and> c' = c\<lparr>readTail := readTail c', readSize := readSize c'\<rparr>
               \<and> onRead_step pl rv cbs (m, c, w) = after_read cbs (sum_list lens) (length bs) (m', c', w')))"
proof -
  have sh: "read_shape m c as k" and size: "readSize c = length (chain_bytes m as)"
    using ok by (simp_all add: read_ok_def)
  obtain ps a xs where as: "as = ps @ a # xs" and k: "k = length ps"
    using sh by (rule read_shape_split)
  note sh0 = sh [unfolded as k]
  note t = read_shape_nodes [OF sh0]
  obtain m1 x q where r: "read_ahead pl m c (node m a) = Some (Addr x, m1)" "read_shape m1 c (ps @ [a, x]) (length ps)"
    "node m1 a = (node m a)\<lparr>b_next := q\<rparr>" "chain_bytes m1 (ps @ [a, x]) = chain_bytes m as" "mem_ok m1"
    "framed m (ps @ a # xs) m1 (ps @ [a, x])"
    using read_ahead_correct [OF sh0 mo pl] as by blast
  note a1 = read_shape_nodes [OF r(2)]
  have x: "cells m1 x = Some (node m1 x)" "ring_ok (node m1 x)"
    using r(2) chain_node [of m1 "readHead c" "ps @ [a, x]" x] by (auto simp: read_shape_snoc)
  let ?rear = "b_capacity (node m a) - b_count (node m a)" and ?cap = "b_capacity (node m1 x)"
  let ?iov = "tail_iov (Addr a) (node m a) @ [(Addr x, 0, ?cap)]"
  define lens where "lens = map (snd \<circ> snd) ?iov"
  have sum: "sum_list lens = ?rear + ?cap"
    using tail_iov_length [OF t(2), of "Addr a"] by (simp add: lens_def)
  have caps: "?cap < 2 ^ 31" "b_capacity (node m a) < 2 ^ 31" "0 < ?cap"
    using x(2) t(2) by (simp_all add: ring_ok_def)
  have rear: "sub32 (b_capacity (node m a)) (b_count (node m a)) = ?rear"
    using t(2) by (simp add: u32_simps)
  have off: "add32 ?rear ?cap = ?rear + ?cap"
    using caps by (intro add32_small) simp
  have ok1: "read_ok m1 c (ps @ [a, x]) k"
    using r(2,4) size k by (simp add: read_ok_def)
  have unf: "onRead_step pl rv cbs (m, c, w) =
     (case rv lens w of
        (None, w') \<Rightarrow> Some (False, m1, upd_chan disableReadable c, w')
      | (Some bs, w') \<Rightarrow>
          if bs = [] then do { s' \<leftarrow> onClose_conn cbs (m1, c, w'); Some (False, s') }
          else do {
            m2 \<leftarrow> scatter m1 ?iov bs;
            if ?rear + ?cap < length bs then Some (False, m2, upd_chan disableReadable c, w')
            else do {
              (m3, c3) \<leftarrow> fill_tail m2 c (Addr x) ?rear (length bs);
              after_read cbs (?rear + ?cap) (length bs) (m3, c3\<lparr>readSize := readSize c3 + length bs\<rparr>, w') } })"
    using t(1,5) r(1) x(1) by (simp add: lens_def onRead_step_def Let_def rear off after_read_def cong del: if_weak_cong option.case_cong_weak)
  obtain res w' where rv: "rv lens w = (res, w')"
    by (cases "rv lens w")
  have res: "case rv lens w of
         (None, w') \<Rightarrow> onRead_step pl rv cbs (m, c, w) = Some (False, m1, upd_chan disableReadable c, w')
       | (Some bs, w') \<Rightarrow>
           if bs = [] then onRead_step pl rv cbs (m, c, w) = map_option (Pair False) (onClose_conn cbs (m1, c, w'))
           else length bs \<le> sum_list lens \<longrightarrow>
             (\<exists>m' c' as' k'. read_ok m' c' as' k' \<and> mem_ok m' \<and> chain_bytes m' as' = chain_bytes m as @ bs
               \<and> framed m as m' as' \<and> c' = c\<lparr>readTail := readTail c', readSize := readSize c'\<rparr>
               \<and> onRead_step pl rv cbs (m, c, w) = after_read cbs (sum_list lens) (length bs) (m', c', w'))"
  proof (cases res)
    case None
    then show ?thesis by (simp add: unf rv)
  next
    case (Some bs)
    show ?thesis
    proof (cases "bs \<noteq> [] \<and> length bs \<le> ?rear + ?cap")
      case True
      have len: "length bs \<le> b_capacity (node m1 a) - b_count (node m1 a) + b_capacity (node m1 x)"
        using True r(3) by simp
      obtain A X c' k' where f: "do { m2 \<leftarrow> scatter m1 ?iov bs; fill_tail m2 c (Addr x) ?rear (length bs) }
          = Some (set_cell (set_cell m1 a A) x X, c')"
        "c' = c\<lparr>readTail := readTail c'\<rparr>" "read_shape (set_cell (set_cell m1 a A) x X) c' (ps @ [a, x]) k'"
        "chain_bytes (set_cell (set_cell m1 a A) x X) (ps @ [a, x]) = chain_bytes m1 (ps @ [a, x]) @ bs"
        using fill_read [OF r(2) _ len] True r(3) by auto
      let ?m' = "set_cell (set_cell m1 a A) x X" and ?c' = "c'\<lparr>readSize := readSize c' + length bs\<rparr>"
      have "readSize c' = readSize c"
        using f(2) by (metis conn.select_convs(7) conn.surjective conn.update_convs(6))
      moreover have by_eq: "chain_bytes ?m' (ps @ [a, x]) = chain_bytes m as @ bs"
        using f(4) r(4) by (simp only:)
      ultimately have ok': "read_ok ?m' ?c' (ps @ [a, x]) k'"
        unfolding read_ok_def by_eq using f(3) size by simp
      have "mem_ok ?m'"
        using r(5) a1(1) x(1) by (auto simp: mem_ok_def)
      moreover have "?c' = c\<lparr>readTail := readTail ?c', readSize := readSize ?c'\<rparr>"
        using f(2) by (metis (no_types, lifting) conn.select_convs(6,7) conn.surjective conn.update_convs(6,7))
      moreover have "onRead_step pl rv cbs (m, c, w) = after_read cbs (sum_list lens) (length bs) (?m', ?c', w')"
        using True f(1) unfolding unf rv Some sum by (auto split: bind_splits)
      moreover have "framed m as ?m' (ps @ [a, x])"
        using r(6) as by (auto simp: framed_def same_but_def)
      ultimately have "\<exists>m' c' as' k'. read_ok m' c' as' k' \<and> mem_ok m' \<and> chain_bytes m' as' = chain_bytes m as @ bs
          \<and> framed m as m' as' \<and> c' = c\<lparr>readTail := readTail c', readSize := readSize c'\<rparr>
          \<and> onRead_step pl rv cbs (m, c, w) = after_read cbs (sum_list lens) (length bs) (m', c', w')"
        using ok' by_eq by (intro exI [of _ ?m'] exI [of _ ?c'] exI [of _ "ps @ [a, x]"] exI [of _ k'] conjI)
      then show ?thesis
        using True unfolding rv Some by simp
    next
      case False
      then show ?thesis
        using sum by (auto simp: unf rv Some map_option_case split: option.splits bind_split)
    qed
  qed
  then show ?thesis
    using ok1 r(4,5,6) as sum caps(3) by (intro exI [of _ lens] exI [of _ m1] exI [of _ "ps @ [a, x]"]) simp
qed

subsection \<open>The loop\<close>

text \<open>
  What the loop relies on: \<open>avail w\<close> is the bytes that the peer sent and the socket still has to
  deliver.  \<open>readv\<close> delivers a prefix of them that fits, in any portion, or fails.
\<close>

definition socket_ok :: "'w readv \<Rightarrow> ('w \<Rightarrow> bytes) \<Rightarrow> bool" where
  "socket_ok rv avail \<longleftrightarrow>
     (\<forall>lens w. case rv lens w of
        (None, w') \<Rightarrow> avail w' = avail w
      | (Some bs, w') \<Rightarrow> length bs \<le> sum_list lens \<and> avail w = bs @ avail w')"

lemma socket_okD:
  assumes "socket_ok rv avail"
  shows "rv lens w = (None, w') \<Longrightarrow> avail w' = avail w"
    "rv lens w = (Some bs, w') \<Longrightarrow> length bs \<le> sum_list lens \<and> avail w = bs @ avail w'"
  using assms [unfolded socket_ok_def, THEN spec [of _ lens], THEN spec [of _ w]] by simp_all

lemma ch_readable_disable [simp]: "\<not> ch_readable (chan (upd_chan disableReadable c))"
  by (simp add: upd_chan_def disableReadable_def)

lemma read_ok_close [simp]: "read_ok m (c\<lparr>close_flag := b\<rparr>) as k = read_ok m c as k"
  by (simp add: read_ok_def read_shape_def)

lemma close_flag_upd_chan [simp]: "close_flag (upd_chan f c) = close_flag c"
  by (simp add: upd_chan_def)

text \<open>
  What the receiving side keeps: the stream, which is what the user has got (\<open>got\<close>), what the chain
  holds and what the socket still has; and whatever else \<open>R\<close> says of memory, connection and chain.
\<close>

definition readable_chain :: "mem \<Rightarrow> conn \<Rightarrow> nat list \<Rightarrow> bool" where
  "readable_chain m c as \<longleftrightarrow> (\<exists>k. read_ok m c as k)"

lemma readable_chainI: "read_ok m c as k \<Longrightarrow> readable_chain m c as"
  unfolding readable_chain_def by blast

lemma readable_chain_upd [simp]:
  "readable_chain m (upd_chan f c) as = readable_chain m c as"
  "readable_chain m (c\<lparr>close_flag := b\<rparr>) as = readable_chain m c as"
  by (simp_all add: readable_chain_def)

type_synonym recv_rel = "mem \<times> conn \<times> nat list \<Rightarrow> mem \<times> conn \<times> nat list \<Rightarrow> bool"

fun kept :: "recv_rel \<Rightarrow> ('w \<Rightarrow> bytes) \<Rightarrow> ('w \<Rightarrow> bytes) \<Rightarrow> nat list \<Rightarrow> 'w tcp \<Rightarrow> nat list \<Rightarrow> 'w tcp \<Rightarrow> bool" where
  "kept R got avail as (m, c, w) as' (m', c', w') \<longleftrightarrow>
     readable_chain m' c' as' \<and> mem_ok m' \<and> R (m, c, as) (m', c', as')
     \<and> got w' @ chain_bytes m' as' @ avail w' = got w @ chain_bytes m as @ avail w
     \<and> length (chain_bytes m' as') + length (avail w') \<le> length (chain_bytes m as) + length (avail w)
     \<and> length (avail w') \<le> length (avail w) \<and> (close_flag c \<longrightarrow> close_flag c')"

text \<open>A callback that reads, or does not, but keeps the stream; \<open>small\<close> bounds the bytes held.\<close>

definition polite :: "recv_rel \<Rightarrow> (nat \<Rightarrow> bool) \<Rightarrow> ('w \<Rightarrow> bytes) \<Rightarrow> ('w \<Rightarrow> bytes) \<Rightarrow> ('w tcp \<Rightarrow> 'w tcp option) \<Rightarrow> bool" where
  "polite R small got avail f \<longleftrightarrow>
     (\<forall>m c w as k. read_ok m c as k \<longrightarrow> mem_ok m \<longrightarrow> small (length (chain_bytes m as)) \<longrightarrow>
        (\<exists>as' s'. f (m, c, w) = Some s' \<and> kept R got avail as (m, c, w) as' s'))"

lemma politeE:
  assumes "polite R small got avail f" "read_ok m c as k" "mem_ok m" "small (length (chain_bytes m as))"
  obtains as' m' c' w' where "f (m, c, w) = Some (m', c', w')" "kept R got avail as (m, c, w) as' (m', c', w')"
  using assms unfolding polite_def by (metis prod_cases3)

locale receiver =
  fixes R :: recv_rel and small :: "nat \<Rightarrow> bool" and got :: "'w \<Rightarrow> bytes" and avail :: "'w \<Rightarrow> bytes"
    and cbs :: "'w tcp_callbacks"
  assumes R_trans: "R x y \<Longrightarrow> R y z \<Longrightarrow> R x z"
    and R_step: "framed m as m' as' \<Longrightarrow> same_write c c' \<Longrightarrow> R (m, c, as) (m', c', as')"
    and small_mono: "small n \<Longrightarrow> j \<le> n \<Longrightarrow> small j"
    and recv: "polite R small got avail (call (map_option (\<lambda>f. f n) (recvCallback cbs)))"
    and disconnect: "polite R small got avail (call (disconnectCallback cbs))"
    and closing: "polite R small got avail (call (connCloseCallback cbs))"
begin

lemma kept_trans:
  assumes "kept R got avail as (m, c, w) as1 (m1, c1, w1)" "kept R got avail as1 (m1, c1, w1) as2 (m2, c2, w2)"
  shows "kept R got avail as (m, c, w) as2 (m2, c2, w2)"
  using assms R_trans [of "(m, c, as)" "(m1, c1, as1)" "(m2, c2, as2)"] by auto

lemma kept_chan: "kept R got avail as s as' (m, upd_chan f c, w) = kept R got avail as s as' (m, c, w)"
proof -
  obtain m0 c0 w0 where s: "s = (m0, c0, w0)" by (cases s)
  have "R x (m, upd_chan f c, as')" if "R x (m, c, as')" for x
    using that by (rule R_trans) (simp add: R_step)
  moreover have "R x (m, c, as')" if "R x (m, upd_chan f c, as')" for x
    using that by (rule R_trans) (simp add: R_step same_write_def upd_chan_def)
  ultimately have "R x (m, upd_chan f c, as') = R x (m, c, as')" for x
    by blast
  then show ?thesis
    by (simp add: s)
qed

lemma kept_small: "kept R got avail as (m, c, w) as' (m', c', w') \<Longrightarrow> small (length (chain_bytes m as) + length (avail w))
    \<Longrightarrow> small (length (chain_bytes m' as') + length (avail w'))"
  using small_mono by auto

lemma small_held: "small (length (chain_bytes m as) + length (avail w)) \<Longrightarrow> small (length (chain_bytes m as))"
  using small_mono le_add1 by blast

lemma onClose_kept:
  assumes ok: "read_ok m c as k" "mem_ok m" and sm: "small (length (chain_bytes m as) + length (avail w))"
  shows "\<exists>m' c' w' as'. onClose_conn cbs (m, c, w) = Some (m', c', w') \<and> kept R got avail as (m, c, w) as' (m', c', w')
    \<and> close_flag c'"
proof (cases "close_flag c")
  case True
  then show ?thesis
    using ok by (intro exI [of _ m] exI [of _ c] exI [of _ w] exI [of _ as])
      (auto simp: onClose_conn_def R_step readable_chainI)
next
  case False
  let ?c = "upd_chan disableAll (c\<lparr>close_flag := True\<rparr>)"
  have ok1: "read_ok m ?c as k"
    using ok(1) by simp
  have k0: "kept R got avail as (m, c, w) as (m, ?c, w)"
    using ok readable_chainI [OF ok1] by (simp add: False R_step same_write_def upd_chan_def)
  obtain as1 m1 c1 w1 where 1: "call (disconnectCallback cbs) (m, ?c, w) = Some (m1, c1, w1)"
    "kept R got avail as (m, ?c, w) as1 (m1, c1, w1)"
    using politeE [OF disconnect ok1 ok(2) small_held [OF sm]] by metis
  note k1 = kept_trans [OF k0 1(2)]
  obtain k' where ok2: "read_ok m1 c1 as1 k'" "mem_ok m1"
    using 1(2) by (auto simp: readable_chain_def)
  obtain as2 m2 c2 w2 where 2: "call (connCloseCallback cbs) (m1, c1, w1) = Some (m2, c2, w2)"
    "kept R got avail as1 (m1, c1, w1) as2 (m2, c2, w2)"
    using politeE [OF closing ok2 small_held [OF kept_small [OF k1 sm]]] by metis
  have "close_flag c2"
    using 1(2) 2(2) by simp
  then show ?thesis
    using False 1(1) 2(1) kept_trans [OF k1 2(2)]
    by (intro exI [of _ m2] exI [of _ c2] exI [of _ w2] exI [of _ as2]) (simp add: onClose_conn_def)
qed

lemma after_read_kept:
  assumes ok: "read_ok m c as k" "mem_ok m" and sm: "small (length (chain_bytes m as) + length (avail w))"
  shows "\<exists>m' c' w' as'. after_read cbs sz n (m, c, w) = Some (\<not> n < sz, m', c', w')
    \<and> kept R got avail as (m, c, w) as' (m', c', w') \<and> (n < sz \<longrightarrow> \<not> ch_readable (chan c'))"
proof -
  obtain as' m' c' w' where 1: "call (map_option (\<lambda>f. f (u32 n)) (recvCallback cbs)) (m, c, w) = Some (m', c', w')"
    "kept R got avail as (m, c, w) as' (m', c', w')"
    using politeE [OF recv ok small_held [OF sm]] by metis
  show ?thesis
  proof (cases "n < sz")
    case True
    then show ?thesis
      using 1 kept_chan [of as "(m, c, w)" as' m' disableReadable c' w']
      by (intro exI [of _ m'] exI [of _ "upd_chan disableReadable c'"] exI [of _ w'] exI [of _ as']) (simp add: after_read_def)
  next
    case False
    then show ?thesis
      using 1 by (intro exI [of _ m'] exI [of _ c'] exI [of _ w'] exI [of _ as']) (simp add: after_read_def)
  qed
qed

lemma onRead_loop_kept:
  assumes so: "socket_ok rv avail" and gk: "\<And>lens w. got (snd (rv lens w)) = got w" and pl: "pool_ok pl"
    and "read_ok m c as k" "mem_ok m" "small (length (chain_bytes m as) + length (avail w))"
  shows "\<exists>m' c' w' as'. onRead_loop pl rv cbs (m, c, w) = Some (m', c', w') \<and> kept R got avail as (m, c, w) as' (m', c', w')
    \<and> (ch_readable (chan c') \<longrightarrow> close_flag c')"
  using assms(4-6)
proof (induction "length (avail w)" arbitrary: m c w as k rule: less_induct)
  case less
  obtain lens m1 as1 where s: "0 < sum_list lens" "read_ok m1 c as1 k" "chain_bytes m1 as1 = chain_bytes m as"
    and fr: "mem_ok m1" "framed m as m1 as1" and st:
    "case rv lens w of
         (None, w') \<Rightarrow> onRead_step pl rv cbs (m, c, w) = Some (False, m1, upd_chan disableReadable c, w')
       | (Some bs, w') \<Rightarrow>
           if bs = [] then onRead_step pl rv cbs (m, c, w) = map_option (Pair False) (onClose_conn cbs (m1, c, w'))
           else length bs \<le> sum_list lens \<longrightarrow>
             (\<exists>m' c' as' k'. read_ok m' c' as' k' \<and> mem_ok m' \<and> chain_bytes m' as' = chain_bytes m as @ bs
               \<and> framed m as m' as' \<and> c' = c\<lparr>readTail := readTail c', readSize := readSize c'\<rparr>
               \<and> onRead_step pl rv cbs (m, c, w) = after_read cbs (sum_list lens) (length bs) (m', c', w'))"
    using onRead_step_correct [OF less.prems(1,2) pl, where rv = rv and w = w and cbs = cbs]
    by (elim exE conjE) (rule that)
  obtain res w' where rv: "rv lens w = (res, w')"
    by (cases "rv lens w")
  have gw: "got w' = got w"
    using gk [of lens w] rv by simp
  show ?case
  proof (cases res)
    case None
    have "avail w' = avail w"
      using socket_okD(1) [OF so] rv None by blast
    moreover have "onRead_loop pl rv cbs (m, c, w) = Some (m1, upd_chan disableReadable c, w')"
      using st rv None by (subst onRead_loop.simps) simp
    ultimately show ?thesis
      using s(2,3) fr gw
      by (intro exI [of _ m1] exI [of _ "upd_chan disableReadable c"] exI [of _ w'] exI [of _ as1]) (auto simp: R_step readable_chainI)
  next
    case (Some bs)
    then have av: "length bs \<le> sum_list lens" "avail w = bs @ avail w'"
      using socket_okD(2) [OF so] rv by blast+
    show ?thesis
    proof (cases "bs = []")
      case True
      have k1: "kept R got avail as (m, c, w) as1 (m1, c, w')"
        using s(2,3) fr gw av(2) True by (auto simp: R_step readable_chainI)
      obtain m2 c2 w2 as2 where 2: "onClose_conn cbs (m1, c, w') = Some (m2, c2, w2)"
        "kept R got avail as1 (m1, c, w') as2 (m2, c2, w2)" "close_flag c2"
        using onClose_kept [OF s(2) fr(1) kept_small [OF k1 less.prems(3)]] by blast
      have "onRead_loop pl rv cbs (m, c, w) = Some (m2, c2, w2)"
        using st rv Some True 2(1) by (subst onRead_loop.simps) simp
      then show ?thesis
        using kept_trans [OF k1 2(2)] 2(3) by blast
    next
      case False
      then obtain m1 c1 as1 k1 where t: "read_ok m1 c1 as1 k1" "mem_ok m1" "chain_bytes m1 as1 = chain_bytes m as @ bs"
        "onRead_step pl rv cbs (m, c, w) = after_read cbs (sum_list lens) (length bs) (m1, c1, w')"
        and f: "framed m as m1 as1" and c1: "c1 = c\<lparr>readTail := readTail c1, readSize := readSize c1\<rparr>"
        using st rv Some av(1) by auto
      have sw: "same_write c c1"
        unfolding same_write_def by (subst (1 2 3) c1) simp
      have cf: "close_flag c1 = close_flag c"
        by (subst c1) simp
      have k1: "kept R got avail as (m, c, w) as1 (m1, c1, w')"
        using t(1-3) gw av(2) R_step [OF f sw] cf by (auto simp: readable_chainI)
      obtain m2 c2 w2 as2 where 2: "after_read cbs (sum_list lens) (length bs) (m1, c1, w') = Some (\<not> length bs < sum_list lens, m2, c2, w2)"
        "kept R got avail as1 (m1, c1, w') as2 (m2, c2, w2)" "length bs < sum_list lens \<longrightarrow> \<not> ch_readable (chan c2)"
        using after_read_kept [OF t(1,2) kept_small [OF k1 less.prems(3)]] by blast
      note k2 = kept_trans [OF k1 2(2)]
      show ?thesis
      proof (cases "length bs < sum_list lens")
        case True
        then have "onRead_loop pl rv cbs (m, c, w) = Some (m2, c2, w2)"
          using t(4) 2(1) by (subst onRead_loop.simps) simp
        then show ?thesis
          using k2 2(3) True by blast
      next
        case more: False
        then have eq: "onRead_loop pl rv cbs (m, c, w) = onRead_loop pl rv cbs (m2, c2, w2)"
          using t(4) 2(1) by (subst onRead_loop.simps) simp
        have "length (avail w2) < length (avail w)"
          using av(2) False 2(2) by (cases bs) auto
        moreover obtain k2' where "read_ok m2 c2 as2 k2'" "mem_ok m2"
          using 2(2) by (auto simp: readable_chain_def)
        ultimately obtain m3 c3 w3 as3 where "onRead_loop pl rv cbs (m2, c2, w2) = Some (m3, c3, w3)"
          "kept R got avail as2 (m2, c2, w2) as3 (m3, c3, w3)" "ch_readable (chan c3) \<longrightarrow> close_flag c3"
          using less.hyps [of w2 m2 c2 as2 k2'] kept_small [OF k2 less.prems(3)] by blast
        then show ?thesis
          using eq kept_trans [OF k2] by (metis (no_types, lifting))
      qed
    qed
  qed
qed

lemma onRead_kept:
  assumes "socket_ok rv avail" "\<And>lens w. got (snd (rv lens w)) = got w" "pool_ok pl" "read_ok m c as k" "mem_ok m"
    "small (length (chain_bytes m as) + length (avail w))"
  shows "\<exists>m' c' w' as'. onRead pl rv cbs (m, c, w) = Some (m', c', w') \<and> kept R got avail as (m, c, w) as' (m', c', w')
    \<and> (ch_readable (chan c') \<longrightarrow> close_flag c')"
proof (cases "ch_readable (chan c)")
  case True
  then show ?thesis
    using onRead_loop_kept [OF assms] by (simp add: onRead_def)
next
  case False
  then show ?thesis
    using assms(4,5) by (intro exI [of _ m] exI [of _ c] exI [of _ w] exI [of _ as]) (auto simp: onRead_def R_step readable_chainI)
qed

end

text \<open>Without callbacks: the sending side is left alone as well.\<close>

definition recv_frame :: recv_rel where
  "recv_frame s s' \<longleftrightarrow> (case s of (m, c, as) \<Rightarrow> case s' of (m', c', as') \<Rightarrow> framed m as m' as' \<and> same_write c c')"

lemma polite_none: "polite recv_frame (\<lambda>n. True) (\<lambda>w. []) avail (call None)"
  unfolding polite_def
proof (intro allI impI)
  fix m c as k and w :: 'a
  assume "read_ok m c as k" "mem_ok m"
  then show "\<exists>as' s'. call None (m, c, w) = Some s' \<and> kept recv_frame (\<lambda>w. []) avail as (m, c, w) as' s'"
    by (intro exI [of _ as] exI [of _ "(m, c, w)"]) (simp add: call_def recv_frame_def readable_chainI)
qed

interpretation quiet_receiver: receiver recv_frame "\<lambda>n. True" "\<lambda>w. []" avail quiet for avail
proof
  fix x y z assume "recv_frame x y" "recv_frame y z"
  then show "recv_frame x z"
    unfolding recv_frame_def by (auto intro: framed_trans same_write_trans split: prod.splits)
qed (simp_all add: recv_frame_def polite_none quiet_def)

lemma onClose_quiet:
  "onClose_conn quiet (m, c, w) =
     Some (m, if close_flag c then c else upd_chan disableAll (c\<lparr>close_flag := True\<rparr>), w)"
  by (simp add: onClose_conn_def quiet_def call_def)

lemma onRead_correct:
  assumes "socket_ok rv avail" "pool_ok pl" "read_ok m c as k" "mem_ok m"
  shows "\<exists>m' c' w' as' k'. onRead pl rv quiet (m, c, w) = Some (m', c', w') \<and> read_ok m' c' as' k'
    \<and> mem_ok m' \<and> framed m as m' as' \<and> same_write c c'
    \<and> chain_bytes m' as' @ avail w' = chain_bytes m as @ avail w \<and> (ch_readable (chan c') \<longrightarrow> close_flag c')"
proof -
  obtain m' c' w' as' where r: "onRead pl rv quiet (m, c, w) = Some (m', c', w')"
    "kept recv_frame (\<lambda>w. []) avail as (m, c, w) as' (m', c', w')" "ch_readable (chan c') \<longrightarrow> close_flag c'"
    using quiet_receiver.onRead_kept [OF assms(1) _ assms(2-4), of w] by auto
  then obtain k' where "read_ok m' c' as' k'"
    by (auto simp: readable_chain_def)
  then show ?thesis
    using r by (intro exI [of _ m'] exI [of _ c'] exI [of _ w'] exI [of _ as'] exI [of _ k']) (simp add: recv_frame_def)
qed

text \<open>A socket that delivers all that fits at once, and fails when it has nothing.\<close>

definition inbox_readv :: "bytes readv" where
  "inbox_readv lens w = (if w = [] then (None, w) else (Some (take (sum_list lens) w), drop (sum_list lens) w))"

lemma inbox_socket_ok: "socket_ok inbox_readv (\<lambda>w. w)"
  by (simp add: socket_ok_def inbox_readv_def)

text \<open>A user who reads all that is there, and stops waiting, each time the receive callback comes.\<close>

fun read_all :: "nat \<Rightarrow> (bytes \<times> bytes) tcp \<Rightarrow> (bytes \<times> bytes) tcp option" where
  "read_all n (m, c, inbox, g) = do {
     (_, out, m', c') \<leftarrow> ReadData True (readSize c) m c;
     Some (m', c', inbox, g @ out) }"

definition draining :: "(bytes \<times> bytes) tcp_callbacks" where
  "draining = quiet\<lparr>recvCallback := Some read_all\<rparr>"

definition drain_readv :: "(bytes \<times> bytes) readv" where
  "drain_readv lens w = (case w of (inbox, g) \<Rightarrow> case inbox_readv lens inbox of (r, inbox') \<Rightarrow> (r, inbox', g))"

lemma drain_socket_ok: "socket_ok drain_readv fst" "snd (snd (drain_readv lens w)) = snd w"
  by (auto simp: socket_ok_def drain_readv_def inbox_readv_def split: prod.splits option.splits)

text \<open>What is asked of a user: callbacks that keep the stream, for states of a bounded size.\<close>

definition user_polite :: "(nat \<Rightarrow> bool) \<Rightarrow> ('w \<Rightarrow> bytes) \<Rightarrow> ('w \<Rightarrow> bytes) \<Rightarrow> 'w tcp_callbacks \<Rightarrow> bool" where
  "user_polite small got avail cbs \<longleftrightarrow>
     (\<forall>n j. small n \<longrightarrow> j \<le> n \<longrightarrow> small j)
     \<and> (\<forall>n. polite (\<lambda>_ _. True) small got avail (call (map_option (\<lambda>f. f n) (recvCallback cbs))))
     \<and> polite (\<lambda>_ _. True) small got avail (call (disconnectCallback cbs))
     \<and> polite (\<lambda>_ _. True) small got avail (call (connCloseCallback cbs))"

lemma user_receiver: "user_polite small got avail cbs \<Longrightarrow> receiver (\<lambda>_ _. True) small got avail cbs"
  unfolding user_polite_def by unfold_locales auto

lemma polite_idle: "polite (\<lambda>_ _. True) small got avail (call None)"
  unfolding polite_def
proof (intro allI impI)
  fix m c as k and w :: 'a
  assume "read_ok m c as k" "mem_ok m"
  then show "\<exists>as' s'. call None (m, c, w) = Some s' \<and> kept (\<lambda>_ _. True) got avail as (m, c, w) as' s'"
    by (intro exI [of _ as] exI [of _ "(m, c, w)"]) (simp add: call_def readable_chainI)
qed

lemma read_all_polite: "polite (\<lambda>_ _. True) (\<lambda>n. n < 2 ^ 32) snd fst (read_all n)"
  unfolding polite_def
proof (intro allI impI)
  fix m c as k and w :: "bytes \<times> bytes"
  assume ok: "read_ok m c as k" and mo: "mem_ok m" and sm: "length (chain_bytes m as) < 2 ^ 32"
  obtain i g where w: "w = (i, g)" by (cases w)
  have size: "readSize c = length (chain_bytes m as)" and ne: "as \<noteq> []"
    using ok by (auto simp: read_ok_def read_shape_def)
  show "\<exists>as' s'. read_all n (m, c, w) = Some s' \<and> kept (\<lambda>_ _. True) snd fst as (m, c, w) as' s'"
  proof (cases "readSize c = 0")
    case True
    then have "ReadData True (readSize c) m c = Some (False, [], m, c)"
      by (simp add: ReadData_def)
    then show ?thesis
      using ok mo by (intro exI [of _ as] exI [of _ "(m, c, w)"]) (simp add: w readable_chainI)
  next
    case False
    have "ends_well m as (readSize c)"
      unfolding ends_well_def using ne size by (intro disjI2 exI [of _ "length as - 1"]) simp
    then obtain m' c' j where r: "ReadData True (readSize c) m c = Some (True, take (readSize c) (chain_bytes m as), m', c')"
      "read_ok m' c' (drop j as) (k - j)" "chain_bytes m' (drop j as) = drop (readSize c) (chain_bytes m as)"
      using ReadData_ends_well [OF ok, of "readSize c"] False sm size by auto
    have f: "read_frame m c m' c'"
      by (rule ReadData_frame [OF r(1)])
    then have "close_flag c' = close_flag c"
      unfolding read_frame_def by (metis conn.ext_inject conn.surjective conn.update_convs(5,7))
    then show ?thesis
      using r f mo size
      by (intro exI [of _ "drop j as"] exI [of _ "(m', c', i, g @ chain_bytes m as)"])
        (auto simp: w read_frame_def readable_chainI)
  qed
qed

lemma call_Some [simp]: "call (Some f) = f"
  by (rule ext) (simp add: call_def)

lemma draining_polite: "user_polite (\<lambda>n. n < 2 ^ 32) snd fst draining"
  unfolding user_polite_def draining_def quiet_def
  using read_all_polite polite_idle [of "\<lambda>n. n < 2 ^ 32" snd fst] by simp

subsection \<open>Properties\<close>

text \<open>
  C5: \<open>onRead\<close> returns for every socket, whatever the portions it delivers, and for every user
  whose callbacks keep the stream, for example by reading what has come; nothing is undefined.  It
  loses, duplicates and reorders nothing: what the user has got, the bytes held and those the
  socket still holds are together what they were, and the receive invariant is kept.  It stops
  waiting for data only when the channel no longer counts as readable or the connection is closed.
\<close>

theorem onRead_receives:
  assumes "socket_ok rv avail" "\<And>lens w. got (snd (rv lens w)) = got w" "pool_ok pl" "read_ok m c as k" "mem_ok m"
    and "user_polite small got avail cbs" "small (length (chain_bytes m as) + length (avail w))"
  shows "\<exists>m' c' w' as' k'. onRead pl rv cbs (m, c, w) = Some (m', c', w') \<and> read_ok m' c' as' k'
    \<and> got w' @ chain_bytes m' as' @ avail w' = got w @ chain_bytes m as @ avail w
    \<and> (ch_readable (chan c') \<longrightarrow> close_flag c')"
proof -
  obtain m' c' w' as' where r: "onRead pl rv cbs (m, c, w) = Some (m', c', w')"
    "kept (\<lambda>_ _. True) got avail as (m, c, w) as' (m', c', w')" "ch_readable (chan c') \<longrightarrow> close_flag c'"
    using receiver.onRead_kept [where R = "\<lambda>_ _. True" and rv = rv and avail = avail and got = got and cbs = cbs
        and small = small and pl = pl and m = m and c = c and as = as and k = k and w = w,
        OF user_receiver [OF assms(6)] assms(1-5,7)] by blast
  then obtain k' where "read_ok m' c' as' k'"
    by (auto simp: readable_chain_def)
  then show ?thesis
    using r by (intro exI [of _ m'] exI [of _ c'] exI [of _ w'] exI [of _ as'] exI [of _ k']) simp
qed

lemma onRead_receives_witness:
  "\<exists>m' c' w' as' k'. onRead demo_pool drain_readv draining (demo_mem, demo_conn, (''ghijklmnop'', ''a'')) = Some (m', c', w')
    \<and> read_ok m' c' as' k' \<and> snd w' @ chain_bytes m' as' @ fst w' = ''abcdefghijklmnop''"
proof -
  have "length (chain_bytes demo_mem [0, Suc 0]) + length (fst (''ghijklmnop'', ''a'')) < 2 ^ 32"
    unfolding demo_read_bytes by simp
  from onRead_receives [where rv = drain_readv and avail = fst and got = snd and cbs = draining and small = "\<lambda>n. n < 2 ^ 32"
      and pl = demo_pool and m = demo_mem and c = demo_conn and as = "[0, Suc 0]" and w = "(''ghijklmnop'', ''a'')",
      OF drain_socket_ok demo_pool_ok demo_read_ok demo_mem_ok draining_polite this]
  show ?thesis
    unfolding demo_read_bytes by (elim exE conjE, intro exI conjI) simp_all
qed

text \<open>
  One turn of \<open>onRead\<close> offers the kernel room for at least one byte and appends exactly the
  bytes it delivers, over the end of the tail's ring and into the next node, before the receive
  callback runs; on an error or at the end of the stream the held bytes stay as they were.
\<close>

theorem onRead_step_appends:
  assumes "read_ok m c as k" "mem_ok m" "pool_ok pl"
  shows "\<exists>lens. 0 < sum_list lens
    \<and> (case rv lens w of
         (None, w') \<Rightarrow> \<exists>m1 as1. onRead_step pl rv cbs (m, c, w) = Some (False, m1, upd_chan disableReadable c, w')
           \<and> read_ok m1 c as1 k \<and> chain_bytes m1 as1 = chain_bytes m as
       | (Some bs, w') \<Rightarrow>
           (bs = [] \<longrightarrow> (\<exists>m1 as1. onRead_step pl rv cbs (m, c, w) = map_option (Pair False) (onClose_conn cbs (m1, c, w'))
             \<and> read_ok m1 c as1 k \<and> chain_bytes m1 as1 = chain_bytes m as))
           \<and> (bs \<noteq> [] \<and> length bs \<le> sum_list lens \<longrightarrow>
             (\<exists>m' c' as' k'. read_ok m' c' as' k' \<and> chain_bytes m' as' = chain_bytes m as @ bs
               \<and> onRead_step pl rv cbs (m, c, w) = after_read cbs (sum_list lens) (length bs) (m', c', w'))))"
proof -
  obtain lens m1 as1 where s: "0 < sum_list lens" "read_ok m1 c as1 k" "chain_bytes m1 as1 = chain_bytes m as"
    and fr: "mem_ok m1" "framed m as m1 as1" and st:
    "case rv lens w of
         (None, w') \<Rightarrow> onRead_step pl rv cbs (m, c, w) = Some (False, m1, upd_chan disableReadable c, w')
       | (Some bs, w') \<Rightarrow>
           if bs = [] then onRead_step pl rv cbs (m, c, w) = map_option (Pair False) (onClose_conn cbs (m1, c, w'))
           else length bs \<le> sum_list lens \<longrightarrow>
             (\<exists>m' c' as' k'. read_ok m' c' as' k' \<and> mem_ok m' \<and> chain_bytes m' as' = chain_bytes m as @ bs
               \<and> framed m as m' as' \<and> c' = c\<lparr>readTail := readTail c', readSize := readSize c'\<rparr>
               \<and> onRead_step pl rv cbs (m, c, w) = after_read cbs (sum_list lens) (length bs) (m', c', w'))"
    using onRead_step_correct [OF assms, where rv = rv and w = w and cbs = cbs]
    by (elim exE conjE) (rule that)
  obtain res w' where rv: "rv lens w = (res, w')"
    by (cases "rv lens w")
  show ?thesis
    by (rule exI [of _ lens], cases res) (use s st rv in \<open>auto split: if_splits\<close>)
qed

lemma onRead_step_appends_witness:
  "\<exists>sz m' c' as' k'. read_ok m' c' as' k' \<and> chain_bytes m' as' = ''bcdefg''
    \<and> onRead_step demo_pool (\<lambda>_ w. (Some ''g'', w)) quiet (demo_mem, demo_conn, ()) = after_read quiet sz 1 (m', c', ())"
proof -
  let ?r = "onRead_step demo_pool (\<lambda>_ w. (Some ''g'', w)) quiet (demo_mem, demo_conn, ())"
  obtain lens :: "nat list" where l: "0 < sum_list lens"
    and r: "''g'' \<noteq> [] \<and> length ''g'' \<le> sum_list lens \<longrightarrow>
      (\<exists>m' c' as' k'. read_ok m' c' as' k' \<and> chain_bytes m' as' = ''bcdef'' @ ''g''
        \<and> ?r = after_read quiet (sum_list lens) (length ''g'') (m', c', ()))"
    using onRead_step_appends [OF demo_read_ok demo_mem_ok demo_pool_ok,
      where rv = "\<lambda>_ w. (Some ''g'', w)" and cbs = quiet and w = "()"]
    unfolding demo_read_bytes prod.case option.case by (elim exE conjE) (rule that)
  from l r show ?thesis by (intro exI [of _ "sum_list lens"]) simp
qed

end
