(* ===== verification/Sockets.thy ===== *)
theory Sockets
  imports Prelude
begin

section \<open>Sockets and addresses (net/Socket.cpp, net/InetAddress.h, net/InetAddress.cpp)\<close>

text \<open>
  \<open>Socket\<close> is a layer of static functions, one system call each.  A system call is a value of
  \<open>syscall\<close>, with the arguments that the code passes; the kernel is a parameter that answers it
  and may change the environment.  Addresses are given by value, and a null pointer for a result is
  the argument \<open>False\<close>.
\<close>

unbundle bit_operations_syntax

subsection \<open>Addresses\<close>

text \<open>The port and the address are the bytes in memory, in network order.\<close>

record sockaddr_in =
  sin_family :: nat
  sin_port :: "8 word list"
  sin_addr :: "8 word list"

definition AF_INET :: nat where "AF_INET = 2"

definition htons :: "16 word \<Rightarrow> 8 word list" where
  "htons port = [ucast (drop_bit 8 port), ucast port]"

definition ntohs :: "8 word list \<Rightarrow> 16 word" where
  "ntohs bs = push_bit 8 (ucast (bs ! 0)) OR ucast (bs ! 1)"

text \<open>
  \<open>inet_pton\<close> for IPv4: four decimal numbers up to 255 without leading zeros, with dots between.
  \<open>tmp\<close> holds the numbers so far, the last first.
\<close>

fun pton_loop :: "nat \<Rightarrow> bool \<Rightarrow> nat list \<Rightarrow> string \<Rightarrow> nat list option" where
  "pton_loop octets saw tmp [] = (if octets < 4 then None else Some (rev tmp))"
| "pton_loop octets saw tmp (c # cs) =
     (let d = of_char c in
      if 48 \<le> d \<and> d \<le> 57
      then (let new = hd tmp * 10 + (d - 48) in
            if saw \<and> hd tmp = 0 then None
            else if new > 255 then None
            else if \<not> saw then (if octets + 1 > 4 then None else pton_loop (octets + 1) True (new # tl tmp) cs)
            else pton_loop octets True (new # tl tmp) cs)
      else if d = 46 \<and> saw then (if octets = 4 then None else pton_loop octets False (0 # tmp) cs)
      else None)"

definition inet_pton :: "string \<Rightarrow> 8 word list option" where
  "inet_pton ip = map_option (map of_nat) (pton_loop 0 False [0] ip)"

definition InetAddress :: "16 word \<Rightarrow> string \<Rightarrow> sockaddr_in" where
  "InetAddress port ip =
     (let addr = \<lparr>sin_family = 0, sin_port = [0, 0], sin_addr = [0, 0, 0, 0]\<rparr>;
          addr1 = addr\<lparr>sin_family := AF_INET\<rparr>;
          addr2 = addr1\<lparr>sin_port := htons port\<rparr>
      in case inet_pton ip of None \<Rightarrow> addr2 | Some a \<Rightarrow> addr2\<lparr>sin_addr := a\<rparr>)"

definition InetAddress_of :: "sockaddr_in \<Rightarrow> sockaddr_in" where
  "InetAddress_of addr = addr"

definition getSockAddr :: "sockaddr_in \<Rightarrow> sockaddr_in" where
  "getSockAddr addr = addr"

definition setSockAddr :: "sockaddr_in \<Rightarrow> sockaddr_in \<Rightarrow> sockaddr_in" where
  "setSockAddr addr self = addr"

subsection \<open>System calls\<close>

definition IPPROTO_TCP :: nat where "IPPROTO_TCP = 6"
definition SOCK_STREAM :: nat where "SOCK_STREAM = 1"
definition SOCK_NONBLOCK :: nat where "SOCK_NONBLOCK = 2048"
definition SOCK_CLOEXEC :: nat where "SOCK_CLOEXEC = 524288"
definition SOMAXCONN :: nat where "SOMAXCONN = 4096"
definition SHUT_WR :: nat where "SHUT_WR = 1"
definition SOL_SOCKET :: nat where "SOL_SOCKET = 1"
definition SO_REUSEADDR :: nat where "SO_REUSEADDR = 2"
definition SO_ERROR :: nat where "SO_ERROR = 4"
definition SO_KEEPALIVE :: nat where "SO_KEEPALIVE = 9"
definition SOL_TCP :: nat where "SOL_TCP = 6"
definition TCP_NODELAY :: nat where "TCP_NODELAY = 1"
definition TCP_KEEPIDLE :: nat where "TCP_KEEPIDLE = 4"

definition EINTR :: nat where "EINTR = 4"
definition EAGAIN :: nat where "EAGAIN = 11"
definition ENFILE :: nat where "ENFILE = 23"
definition EMFILE :: nat where "EMFILE = 24"
definition EADDRINUSE :: nat where "EADDRINUSE = 98"
definition EADDRNOTAVAIL :: nat where "EADDRNOTAVAIL = 99"
definition ENETUNREACH :: nat where "ENETUNREACH = 101"
definition EISCONN :: nat where "EISCONN = 106"
definition ECONNREFUSED :: nat where "ECONNREFUSED = 111"
definition EINPROGRESS :: nat where "EINPROGRESS = 115"

lemmas errno_values = EINTR_def EAGAIN_def ENFILE_def EMFILE_def EADDRINUSE_def EADDRNOTAVAIL_def
  ENETUNREACH_def EISCONN_def ECONNREFUSED_def EINPROGRESS_def

datatype syscall =
    Sys_socket nat nat nat
  | Sys_close int
  | Sys_bind int sockaddr_in
  | Sys_listen int nat
  | Sys_accept4 int bool nat
  | Sys_connect int sockaddr_in
  | Sys_shutdown int nat
  | Sys_setsockopt int nat nat int
  | Sys_getsockopt int nat nat bool
  | Sys_getsockname int bool
  | Sys_getpeername int bool
  | Sys_open_null

text \<open>The answer: the value returned, \<open>errno\<close>, and what was written through the pointer.\<close>

record reply =
  ret :: int
  errno :: nat
  out_addr :: sockaddr_in
  out_int :: int

type_synonym 'w kernel = "syscall \<Rightarrow> 'w \<Rightarrow> reply \<times> 'w"

subsection \<open>The functions of Socket\<close>

definition open_sock :: "'w kernel \<Rightarrow> 'w \<Rightarrow> reply \<times> 'w" where
  "open_sock k = k (Sys_socket AF_INET (SOCK_STREAM OR SOCK_NONBLOCK OR SOCK_CLOEXEC) IPPROTO_TCP)"

definition close_sock :: "'w kernel \<Rightarrow> int \<Rightarrow> 'w \<Rightarrow> reply \<times> 'w" where
  "close_sock k fd = k (Sys_close fd)"

definition bind_sock :: "'w kernel \<Rightarrow> int \<Rightarrow> sockaddr_in \<Rightarrow> 'w \<Rightarrow> reply \<times> 'w" where
  "bind_sock k fd addr = k (Sys_bind fd addr)"

definition listen_sock :: "'w kernel \<Rightarrow> int \<Rightarrow> 'w \<Rightarrow> reply \<times> 'w" where
  "listen_sock k fd = k (Sys_listen fd SOMAXCONN)"

definition accept_sock :: "'w kernel \<Rightarrow> int \<Rightarrow> bool \<Rightarrow> 'w \<Rightarrow> reply \<times> 'w" where
  "accept_sock k fd addr =
     (if addr then k (Sys_accept4 fd True (SOCK_NONBLOCK OR SOCK_CLOEXEC))
      else k (Sys_accept4 fd False (SOCK_NONBLOCK OR SOCK_CLOEXEC)))"

definition connect_sock :: "'w kernel \<Rightarrow> int \<Rightarrow> sockaddr_in \<Rightarrow> 'w \<Rightarrow> reply \<times> 'w" where
  "connect_sock k fd addr = k (Sys_connect fd addr)"

definition shutdownWrite :: "'w kernel \<Rightarrow> int \<Rightarrow> 'w \<Rightarrow> reply \<times> 'w" where
  "shutdownWrite k fd = k (Sys_shutdown fd SHUT_WR)"

definition setReuseAddr :: "'w kernel \<Rightarrow> int \<Rightarrow> bool \<Rightarrow> 'w \<Rightarrow> reply \<times> 'w" where
  "setReuseAddr k fd b = k (Sys_setsockopt fd SOL_SOCKET SO_REUSEADDR (if b then 1 else 0))"

definition setTcpNoDelay :: "'w kernel \<Rightarrow> int \<Rightarrow> bool \<Rightarrow> 'w \<Rightarrow> reply \<times> 'w" where
  "setTcpNoDelay k fd b = k (Sys_setsockopt fd IPPROTO_TCP TCP_NODELAY (if b then 1 else 0))"

definition setKeepAlive :: "'w kernel \<Rightarrow> int \<Rightarrow> bool \<Rightarrow> 'w \<Rightarrow> reply \<times> 'w" where
  "setKeepAlive k fd b = k (Sys_setsockopt fd SOL_SOCKET SO_KEEPALIVE (if b then 1 else 0))"

definition setKeepIdle :: "'w kernel \<Rightarrow> int \<Rightarrow> int \<Rightarrow> 'w \<Rightarrow> reply \<times> 'w" where
  "setKeepIdle k fd optval = k (Sys_setsockopt fd SOL_TCP TCP_KEEPIDLE optval)"

definition getError :: "'w kernel \<Rightarrow> int \<Rightarrow> bool \<Rightarrow> 'w \<Rightarrow> reply \<times> 'w" where
  "getError k fd optval = k (Sys_getsockopt fd SOL_SOCKET SO_ERROR optval)"

definition getSockName :: "'w kernel \<Rightarrow> int \<Rightarrow> bool \<Rightarrow> 'w \<Rightarrow> reply \<times> 'w" where
  "getSockName k fd addr = k (Sys_getsockname fd addr)"

definition getPeerName :: "'w kernel \<Rightarrow> int \<Rightarrow> bool \<Rightarrow> 'w \<Rightarrow> reply \<times> 'w" where
  "getPeerName k fd addr = k (Sys_getpeername fd addr)"

subsection \<open>Properties of the addresses\<close>

text \<open>The usual decimal notation of a byte, and of an address.\<close>

definition dec_byte :: "nat \<Rightarrow> string" where
  "dec_byte n = (if n < 10 then [char_of (48 + n)]
            else if n < 100 then [char_of (48 + n div 10), char_of (48 + n mod 10)]
            else [char_of (48 + n div 100), char_of (48 + n div 10 mod 10), char_of (48 + n mod 10)])"

definition dotted :: "8 word \<Rightarrow> 8 word \<Rightarrow> 8 word \<Rightarrow> 8 word \<Rightarrow> string" where
  "dotted a b c d = dec_byte (unat a) @ ''.'' @ dec_byte (unat b) @ ''.'' @ dec_byte (unat c) @ ''.'' @ dec_byte (unat d)"

lemma of_char_digit: "n < 10 \<Longrightarrow> of_char (char_of (48 + n :: nat)) = (48 + n :: nat)"
  by (simp add: of_char_of take_bit_eq_mod)

lemma pton_dec:
  assumes "n < 256" "k < 4"
  shows "pton_loop k False (0 # tmp) (dec_byte n @ cs) = pton_loop (k + 1) True (n # tmp) cs"
proof -
  have d: "n div 100 < 10" "n div 10 mod 10 < 10" "n mod 10 < 10"
    using assms(1) by auto
  consider "n < 10" | "10 \<le> n" "n < 100" | "100 \<le> n" by linarith
  then show ?thesis
  proof cases
    case 1
    then show ?thesis using assms of_char_digit [of n] by (simp add: dec_byte_def Let_def)
  next
    case 2
    define q r where qr: "q = n div 10" "r = n mod 10"
    then have "q \<le> 9" "r \<le> 9" "q \<noteq> 0" "q * 10 + r = n"
      using 2 by auto
    then have "pton_loop k False (0 # tmp) ([char_of (48 + q), char_of (48 + r)] @ cs) = pton_loop (k + 1) True (n # tmp) cs"
      using 2 assms of_char_digit [of q] of_char_digit [of r] by (simp add: Let_def)
    then show ?thesis
      using 2 by (simp add: dec_byte_def qr)
  next
    case 3
    define p q r where pqr: "p = n div 100" "q = n div 10 mod 10" "r = n mod 10"
    define m where "m = n div 10"
    then have "n = m * 10 + r" "m = p * 10 + q"
      using div_mult2_eq [of n 10 10] by (simp_all add: pqr)
    then have "n = p * 100 + q * 10 + r" by simp
    moreover have "p \<le> 9" "q \<le> 9" "r \<le> 9" "p \<noteq> 0"
      using 3 d by (auto simp: pqr)
    ultimately have "pton_loop k False (0 # tmp) ([char_of (48 + p), char_of (48 + q), char_of (48 + r)] @ cs)
        = pton_loop (k + 1) True (n # tmp) cs"
      using assms of_char_digit [of p] of_char_digit [of q] of_char_digit [of r] by (simp add: Let_def algebra_simps)
    then show ?thesis
      using 3 by (simp add: dec_byte_def pqr)
  qed
qed

lemma htons_round_trip: "ntohs (htons p) = p"
  unfolding htons_def ntohs_def
  by (rule bit_word_eqI) (auto simp: bit_simps)

text \<open>
  An address made from a port and the dotted notation of four bytes holds exactly these: the
  parser of the notation and the byte order of the port lose nothing.
\<close>

theorem inet_address_round_trip:
  "InetAddress port (dotted a b c d) = \<lparr>sin_family = AF_INET, sin_port = htons port, sin_addr = [a, b, c, d]\<rparr>
   \<and> ntohs (sin_port (InetAddress port ip)) = port"
proof
  have lt: "unat x < 256" for x :: "8 word"
    using unsigned_less [of x] by simp
  have dot: "pton_loop (Suc k) True tmp (''.'' @ cs) = pton_loop (Suc k) False (0 # tmp) cs" if "k < 3" for k tmp cs
    using that by simp
  have nil: "dec_byte x @ cs = dec_byte x @ cs @ []" for x cs by simp
  have "pton_loop 0 False [0] (dotted a b c d) = Some [unat a, unat b, unat c, unat d]"
    unfolding dotted_def
    using pton_dec [OF lt, of 0 "[]" a] pton_dec [OF lt, of 1 "[unat a]" b] pton_dec [OF lt, of 2 "[unat b, unat a]" c]
      pton_dec [OF lt, of 3 "[unat c, unat b, unat a]" d "[]"]
    by (simp add: numeral_eq_Suc)
  then show "InetAddress port (dotted a b c d) = \<lparr>sin_family = AF_INET, sin_port = htons port, sin_addr = [a, b, c, d]\<rparr>"
    by (simp add: InetAddress_def inet_pton_def)
  show "ntohs (sin_port (InetAddress port ip)) = port"
    by (simp add: InetAddress_def Let_def htons_round_trip split: option.splits)
qed

text \<open>The result of \<open>inet_pton\<close> is ignored: a host name, or a typing error, is the wildcard address.\<close>

lemma bad_address_is_any:
  "inet_pton ip = None \<Longrightarrow> sin_addr (InetAddress port ip) = [0, 0, 0, 0]"
  "inet_pton ''localhost'' = None" "inet_pton ''127.0.0.01'' = None"
  by (simp_all add: InetAddress_def inet_pton_def Let_def)

end
