(* ===== verification/TcpLife.thy ===== *)
theory TcpLife
  imports TcpRead Sockets
begin

section \<open>The life cycle of a connection (net/TcpConnection.cpp)\<close>

text \<open>
  The public operations may be called in any thread: they test \<open>close_\<close> and hand a functor to the
  loop, which runs it later.  A functor is a \<open>conn_task\<close>, and the operations return the ones
  they queue.  In the loop, \<open>run_task\<close> runs one; what it asks of the loop for the channel comes back
  as a list of requests.  \<open>shutdown\<close> and \<open>close\<close> of the socket are functions of the environment.
\<close>

subsection \<open>Operations\<close>

datatype conn_task = EstablishInLoop | ShutdownInLoop | OnClose | DestroyInLoop | Send bytes

definition establish :: "conn \<Rightarrow> conn_task list" where
  "establish c = (if close_flag c \<or> establish_flag c then [] else [EstablishInLoop])"

definition shutdown :: "conn \<Rightarrow> conn_task list" where
  "shutdown c = (if close_flag c then [] else [ShutdownInLoop])"

definition close_conn :: "conn \<Rightarrow> conn_task list" where
  "close_conn c = (if close_flag c then [] else [OnClose])"

definition destroy :: "conn \<Rightarrow> conn_task list" where
  "destroy c = [DestroyInLoop]"

definition sendPack :: "bytes \<Rightarrow> conn \<Rightarrow> conn_task list" where
  "sendPack data c = (if close_flag c then [] else [Send data])"

definition establishInLoop :: "pool \<Rightarrow> 'w tcp_callbacks \<Rightarrow> 'w tcp \<Rightarrow> (loop_request list \<times> 'w tcp) option" where
  "establishInLoop pl cbs s =
     (case s of (m, c, w) \<Rightarrow>
       if establish_flag c then Some ([], s)
       else do {
         let (r, m1) = take_buf pl m;
         let (p, m2) = take_buf pl m1;
         let (ch, reqs) = open_ch (chan c);
         s' \<leftarrow> call (connectCallback cbs)
           (m2, c\<lparr>establish_flag := True, readHead := r, readTail := r, writeHead := p, writeTail := p,
                  readSize := 0, writeSize := 0, chan := ch\<rparr>, w);
         Some (reqs, s') })"

definition shutdownInLoop :: "(nat \<Rightarrow> 'w \<Rightarrow> 'w) \<Rightarrow> 'w tcp \<Rightarrow> 'w tcp" where
  "shutdownInLoop shut s = (case s of (m, c, w) \<Rightarrow> (m, c, shut (sockFd c) w))"

definition setTcpNoDelay_conn :: "'w kernel \<Rightarrow> bool \<Rightarrow> 'w tcp \<Rightarrow> 'w tcp" where
  "setTcpNoDelay_conn k b s = (case s of (m, c, w) \<Rightarrow> (m, c, snd (setTcpNoDelay k (int (sockFd c)) b w)))"

definition setKeepAlive_conn :: "'w kernel \<Rightarrow> bool \<Rightarrow> 'w tcp \<Rightarrow> 'w tcp" where
  "setKeepAlive_conn k b s = (case s of (m, c, w) \<Rightarrow> (m, c, snd (setKeepAlive k (int (sockFd c)) b w)))"

definition destroyInLoop :: "'w tcp \<Rightarrow> loop_request list \<times> 'w tcp" where
  "destroyInLoop s =
     (case s of (m, c, w) \<Rightarrow> let (ch, reqs) = close_ch (chan c) in (reqs, (m, c\<lparr>chan := ch\<rparr>, w)))"

text \<open>The destructor: each chain is released from its head until \<open>next\<close> is null.\<close>

partial_function (option) release_chain :: "mem \<Rightarrow> ptr \<Rightarrow> mem option" where
  "release_chain m p = do {
     more \<leftarrow> ptr_true p;
     if more then do { (p', m') \<leftarrow> putNext m p; release_chain m' p' } else Some m }"

declare release_chain.simps [code]

definition delete_conn :: "(nat \<Rightarrow> 'w \<Rightarrow> 'w) \<Rightarrow> 'w tcp \<Rightarrow> (mem \<times> 'w) option" where
  "delete_conn close_fd s =
     (case s of (m, c, w) \<Rightarrow> do {
        m1 \<leftarrow> release_chain m (readHead c);
        m2 \<leftarrow> release_chain m1 (writeHead c);
        Some (m2, close_fd (sockFd c) w) })"

text \<open>What the loop does with a queued functor.\<close>

fun run_task ::
  "pool \<Rightarrow> 'w writev \<Rightarrow> (nat \<Rightarrow> 'w \<Rightarrow> 'w) \<Rightarrow> 'w tcp_callbacks \<Rightarrow> conn_task \<Rightarrow> 'w tcp \<Rightarrow> (loop_request list \<times> 'w tcp) option" where
  "run_task pl wv shut cbs EstablishInLoop s = establishInLoop pl cbs s"
| "run_task pl wv shut cbs ShutdownInLoop s = Some ([], shutdownInLoop shut s)"
| "run_task pl wv shut cbs OnClose s = map_option (Pair []) (onClose_conn cbs s)"
| "run_task pl wv shut cbs DestroyInLoop s = Some (destroyInLoop s)"
| "run_task pl wv shut cbs (Send data) s = map_option (Pair []) (send pl wv data s)"

fun run_tasks ::
  "pool \<Rightarrow> 'w writev \<Rightarrow> (nat \<Rightarrow> 'w \<Rightarrow> 'w) \<Rightarrow> 'w tcp_callbacks \<Rightarrow> conn_task list \<Rightarrow> 'w tcp \<Rightarrow> (loop_request list \<times> 'w tcp) option" where
  "run_tasks pl wv shut cbs [] s = Some ([], s)"
| "run_tasks pl wv shut cbs (t # ts) s = do {
     (rs, s1) \<leftarrow> run_task pl wv shut cbs t s;
     (rs', s2) \<leftarrow> run_tasks pl wv shut cbs ts s1;
     Some (rs @ rs', s2) }"

subsection \<open>Establishing\<close>

lemma establish_chains:
  assumes mo: "mem_ok m" and pl: "pool_ok pl" and e: "\<not> establish_flag c"
  defines "m' \<equiv> alloc_cell (alloc_cell m (fresh_buffer pl m)) (fresh_buffer pl (alloc_cell m (fresh_buffer pl m)))"
    and "c' \<equiv> c\<lparr>establish_flag := True, readHead := Addr (fresh m), readTail := Addr (fresh m),
      writeHead := Addr (Suc (fresh m)), writeTail := Addr (Suc (fresh m)), readSize := 0, writeSize := 0,
      chan := fst (open_ch (chan c))\<rparr>"
  shows "establishInLoop pl cbs (m, c, w) = map_option (Pair (snd (open_ch (chan c)))) (call (connectCallback cbs) (m', c', w))"
    and "read_ok m' c' [fresh m] 0" "write_ok m' c' [Suc (fresh m)]" "mem_ok m'"
    and "chain_bytes m' [fresh m] = []" "chain_bytes m' [Suc (fresh m)] = []"
proof -
  show "establishInLoop pl cbs (m, c, w) = map_option (Pair (snd (open_ch (chan c)))) (call (connectCallback cbs) (m', c', w))"
    using e by (simp add: establishInLoop_def take_buf_alloc m'_def c'_def Let_def map_option_case
        split: option.split prod.split)
  show "read_ok m' c' [fresh m] 0" "write_ok m' c' [Suc (fresh m)]"
    using pl by (simp_all add: m'_def c'_def read_ok_def read_shape_def write_ok_def)
  show "mem_ok m'" "chain_bytes m' [fresh m] = []" "chain_bytes m' [Suc (fresh m)] = []"
    using mo by (simp_all add: m'_def)
qed

subsection \<open>Releasing\<close>

lemma release_chain_correct:
  assumes "chain m p as" "distinct as"
  shows "\<exists>m'. release_chain m p = Some m' \<and> cells m' = (\<lambda>a. if a \<in> set as then None else cells m a) \<and> fresh m' = fresh m"
  using assms
proof (induction as arbitrary: m p)
  case Nil
  then show ?case by (subst release_chain.simps) (simp add: ptr_true_def)
next
  case (Cons a as)
  obtain b where b: "p = Addr a" "cells m a = Some b" "chain m (b_next b) as"
    using Cons.prems(1) by (rule chain_Cons_cases)
  have "chain (del_cell m a) (b_next b) as"
    using b(3) Cons.prems(2) by (simp add: chain_del_cell_other)
  then obtain m' where m': "release_chain (del_cell m a) (b_next b) = Some m'"
    "cells m' = (\<lambda>x. if x \<in> set as then None else cells (del_cell m a) x)" "fresh m' = fresh m"
    using Cons.IH [of "del_cell m a"] Cons.prems(2) by auto
  have "release_chain m p = Some m'"
    using b m'(1) by (subst release_chain.simps) (simp add: ptr_true_def putNext_Addr)
  then show ?case
    using m'(2,3) by (intro exI [of _ m']) auto
qed

subsection \<open>Closing\<close>

text \<open>
  A closed connection stays closed, as long as its callbacks, which cannot reach the flag, keep it: the
  callbacks do not run again, and the public operations queue nothing more.
\<close>

lemma closed_is_final:
  assumes "onClose_conn cbs s = Some s1"
    and keep: "\<And>f t t'. f \<in> {disconnectCallback cbs, connCloseCallback cbs} \<Longrightarrow> call f t = Some t'
      \<Longrightarrow> close_flag (fst (snd t)) \<Longrightarrow> close_flag (fst (snd t'))"
  shows "onClose_conn cbs s1 = Some s1" "establish (fst (snd s1)) = []" "shutdown (fst (snd s1)) = []"
    "close_conn (fst (snd s1)) = []" "sendPack data (fst (snd s1)) = []"
proof -
  obtain m c w where s: "s = (m, c, w)" by (cases s)
  have closed: "close_flag (fst (snd s1))"
  proof (cases "close_flag c")
    case False
    then obtain s2 where "call (disconnectCallback cbs) (m, upd_chan disableAll (c\<lparr>close_flag := True\<rparr>), w) = Some s2"
      "call (connCloseCallback cbs) s2 = Some s1"
      using assms(1) by (auto simp: onClose_conn_def s bind_eq_Some_conv)
    then show ?thesis
      using keep [of "disconnectCallback cbs"] keep [of "connCloseCallback cbs" s2 s1] by (auto simp: upd_chan_def)
  qed (use assms(1) in \<open>auto simp: onClose_conn_def s\<close>)
  then show "onClose_conn cbs s1 = Some s1"
    by (cases s1) (simp add: onClose_conn_def)
  show "establish (fst (snd s1)) = []" "shutdown (fst (snd s1)) = []"
    "close_conn (fst (snd s1)) = []" "sendPack data (fst (snd s1)) = []"
    using closed by (simp_all add: establish_def shutdown_def close_conn_def sendPack_def)
qed

subsection \<open>Properties\<close>

text \<open>
  A connection lives in the loop: the first establish gives it two empty, disjoint, well-formed
  chains and registers its channel once; a later one, queued before the first had run, does nothing.
\<close>

theorem establish_once:
  assumes "mem_ok m" "pool_ok pl" "\<not> establish_flag c" "\<not> ch_started (chan c)"
  shows "\<exists>m' c'. run_tasks pl wv shut quiet [EstablishInLoop, EstablishInLoop] (m, c, w) = Some ([AddChannel], (m', c', w))
    \<and> read_ok m' c' [fresh m] 0 \<and> write_ok m' c' [Suc (fresh m)] \<and> mem_ok m'
    \<and> readSize c' = 0 \<and> writeSize c' = 0 \<and> ch_started (chan c') \<and> establish c' = []"
proof -
  let ?m = "alloc_cell (alloc_cell m (fresh_buffer pl m)) (fresh_buffer pl (alloc_cell m (fresh_buffer pl m)))"
  let ?c = "c\<lparr>establish_flag := True, readHead := Addr (fresh m), readTail := Addr (fresh m),
      writeHead := Addr (Suc (fresh m)), writeTail := Addr (Suc (fresh m)), readSize := 0, writeSize := 0,
      chan := fst (open_ch (chan c))\<rparr>"
  note e = establish_chains [OF assms(1-3)]
  have "establishInLoop pl quiet (m, c, w) = Some ([AddChannel], (?m, ?c, w))"
    using e(1) [of quiet w] assms(4) by (simp add: quiet_def call_def open_ch_def)
  moreover have "establishInLoop pl quiet (?m, ?c, w) = Some ([], (?m, ?c, w))"
    by (simp add: establishInLoop_def)
  ultimately have "run_tasks pl wv shut quiet [EstablishInLoop, EstablishInLoop] (m, c, w) = Some ([AddChannel], (?m, ?c, w))"
    by simp
  moreover have "ch_started (chan ?c)" "establish ?c = []"
    using assms(4) by (simp_all add: open_ch_def establish_def)
  ultimately show ?thesis
    using e(2-4) by (intro exI [of _ ?m] exI [of _ ?c]) simp
qed

lemma establish_once_witness:
  "\<exists>m' c'. run_tasks demo_pool wire_writev (\<lambda>_ w. w) quiet [EstablishInLoop, EstablishInLoop] (demo_mem, new_conn 9 1 2, (5, ''''))
    = Some ([AddChannel], (m', c', (5, ''''))) \<and> read_ok m' c' [3] 0 \<and> write_ok m' c' [4]"
  using establish_once [OF demo_mem_ok demo_pool_ok, of "new_conn 9 1 2" wire_writev "\<lambda>_ w. w" "(5, '''')"]
  by (auto simp: new_conn_def enableAll_def new_channel_def)

text \<open>
  C27: the destructor releases every node of both chains, each once, and no other node; it ends,
  and the socket is closed.
\<close>

theorem delete_conn_frees:
  assumes "read_shape m c as k" "write_ok m c bs" "set as \<inter> set bs = {}"
  shows "\<exists>m'. delete_conn close_fd (m, c, w) = Some (m', close_fd (sockFd c) w)
    \<and> cells m' = (\<lambda>a. if a \<in> set as \<union> set bs then None else cells m a)"
proof -
  obtain m1 where 1: "release_chain m (readHead c) = Some m1" "cells m1 = (\<lambda>a. if a \<in> set as then None else cells m a)"
    using release_chain_correct [of m "readHead c" as] assms(1) by (auto simp: read_shape_def)
  have "cells m1 a = cells m a" if "a \<in> set bs" for a
    using assms(3) 1(2) that by auto
  then have "chain m1 (writeHead c) bs"
    using assms(2) chain_cong [of m "writeHead c" bs m1] by (simp add: write_ok_def)
  then obtain m2 where 2: "release_chain m1 (writeHead c) = Some m2" "cells m2 = (\<lambda>a. if a \<in> set bs then None else cells m1 a)"
    using release_chain_correct [of m1 "writeHead c" bs] assms(2) by (auto simp: write_ok_def)
  show ?thesis
    using 1 2 by (intro exI [of _ m2]) (auto simp: delete_conn_def)
qed

lemma demo_sock: "sockFd demo_conn = 7"
  by (simp add: demo_conn_def)

lemma delete_conn_frees_witness:
  "\<exists>m'. delete_conn (\<lambda>fd w. fd # w) (demo_mem, demo_conn, []) = Some (m', [7]) \<and> cells m' 0 = None \<and> cells m' 2 = None"
proof -
  have "read_shape demo_mem demo_conn [0, Suc 0] (Suc 0)"
    using demo_read_ok by (simp add: read_ok_def)
  then show ?thesis
    using delete_conn_frees [OF _ demo_write_ok, of "[0, Suc 0]" "Suc 0" "\<lambda>fd w. fd # w" "[]"]
      demo_sock by auto
qed

text \<open>
  A connection that was never established cannot be deleted: the constructor leaves the buffer
  pointers unset, and the destructor tests them.  A packet sent before the establish functor has run
  fails the same way when the socket does not take all of it.
\<close>

theorem unestablished_undefined:
  assumes "data \<noteq> []" "wv [data] w = (None, w')"
  shows "delete_conn close_fd (m, new_conn fd r s, w) = None
    \<and> run_tasks pl wv shut cbs (sendPack data (new_conn fd r s)) (m, new_conn fd r s, w) = None"
proof
  show "delete_conn close_fd (m, new_conn fd r s, w) = None"
    by (simp add: delete_conn_def new_conn_def release_chain.simps ptr_true_def)
  show "run_tasks pl wv shut cbs (sendPack data (new_conn fd r s)) (m, new_conn fd r s, w) = None"
    using assms by (simp add: sendPack_def new_conn_def send_def writeData_def)
qed

lemma unestablished_undefined_witness:
  "run_tasks demo_pool wire_writev (\<lambda>_ w. w) quiet (sendPack ''x'' (new_conn 9 0 0)) (demo_mem, new_conn 9 0 0, (0, '''')) = None"
  using unestablished_undefined [of "''x''" wire_writev "(0, '''')" "(0, '''')"] by (simp add: wire_writev_def)

end
