(* ===== verification/EPoll.thy ===== *)
theory EPoll
  imports Channel
begin

section \<open>The poller (net/EPollPoller.h, net/EPollPoller.cpp)\<close>

text \<open>
  \<open>EPollPoller\<close> registers channels with the kernel's interest list and turns the events of
  \<open>epoll_wait\<close> into calls on the channels.  The kernel is modelled by what its interface
  documents: a map from descriptors to the registered event mask and the pointer stored with it,
  on which \<open>EPOLL_CTL_ADD\<close> fails for a registered descriptor and the other two for one that is
  not.  A pointer to a channel is its number.
\<close>

unbundle bit_operations_syntax

subsection \<open>Event masks\<close>

definition EPOLLIN :: "32 word" where "EPOLLIN = 0x001"
definition EPOLLOUT :: "32 word" where "EPOLLOUT = 0x004"
definition EPOLLERR :: "32 word" where "EPOLLERR = 0x008"
definition EPOLLHUP :: "32 word" where "EPOLLHUP = 0x010"
definition EPOLLRDHUP :: "32 word" where "EPOLLRDHUP = 0x2000"
definition EPOLLET :: "32 word" where "EPOLLET = 0x80000000"

lemmas epoll_flags = EPOLLIN_def EPOLLOUT_def EPOLLERR_def EPOLLHUP_def EPOLLRDHUP_def EPOLLET_def

text \<open>
  The mask that \<open>addChannel\<close> and \<open>updateChannel\<close> register.  The code starts from an
  uninitialised \<open>event.events\<close>: \<open>uninit\<close> is what it happens to hold.
\<close>

definition event_mask :: "32 word \<Rightarrow> channel \<Rightarrow> 32 word" where
  "event_mask uninit c =
     (let e0 = uninit;
          e1 = (if ch_read c then e0 OR EPOLLIN else e0);
          e2 = (if ch_write c then e1 OR EPOLLOUT else e1)
      in e2 OR (EPOLLERR OR EPOLLRDHUP OR EPOLLET))"

subsection \<open>The interest list\<close>

record epoller =
  interest :: "nat \<Rightarrow> (32 word \<times> nat) option"
  eventSize :: nat

definition kEventSizeInit :: nat where
  "kEventSizeInit = 16"

definition new_epoller :: epoller where
  "new_epoller = \<lparr>interest = (\<lambda>_. None), eventSize = kEventSizeInit\<rparr>"

definition addChannel_ep :: "32 word \<Rightarrow> nat \<Rightarrow> channel \<Rightarrow> epoller \<Rightarrow> epoller" where
  "addChannel_ep uninit i c p =
     (if interest p (ch_fd c) = None
      then p\<lparr>interest := (interest p)(ch_fd c \<mapsto> (event_mask uninit c, i))\<rparr> else p)"

definition updateChannel_ep :: "32 word \<Rightarrow> nat \<Rightarrow> channel \<Rightarrow> epoller \<Rightarrow> epoller" where
  "updateChannel_ep uninit i c p =
     (if interest p (ch_fd c) \<noteq> None
      then p\<lparr>interest := (interest p)(ch_fd c \<mapsto> (event_mask uninit c, i))\<rparr> else p)"

definition removeChannel_ep :: "channel \<Rightarrow> epoller \<Rightarrow> epoller" where
  "removeChannel_ep c p =
     (if interest p (ch_fd c) \<noteq> None then p\<lparr>interest := (interest p)(ch_fd c := None)\<rparr> else p)"

subsection \<open>Dispatching the events\<close>

definition when_event :: "bool \<Rightarrow> (channel \<Rightarrow> channel \<times> loop_request list) \<Rightarrow> channel \<Rightarrow> channel \<times> loop_request list" where
  "when_event b f c = (if b then f c else (c, []))"

text \<open>One event of the array on its channel.\<close>

definition dispatch :: "32 word \<Rightarrow> channel \<Rightarrow> channel \<times> loop_request list" where
  "dispatch events c =
     (let (c1, r1) = when_event (events AND (EPOLLRDHUP OR EPOLLHUP) \<noteq> 0) onClose_ch c;
          (c2, r2) = when_event (events AND EPOLLERR \<noteq> 0) onError_ch c1;
          (c3, r3) = when_event (events AND EPOLLIN \<noteq> 0) onRead_ch c2;
          (c4, r4) = when_event (events AND EPOLLOUT \<noteq> 0) onWrite_ch c3
      in (c4, r1 @ r2 @ r3 @ r4))"

text \<open>The array is doubled when it came back full.\<close>

definition grow_events :: "nat \<Rightarrow> epoller \<Rightarrow> epoller" where
  "grow_events nfd p = (if nfd = eventSize p then p\<lparr>eventSize := eventSize p * 2\<rparr> else p)"

subsection \<open>What dispatching does to a channel\<close>

text \<open>
  An event that is pending in a channel keeps the channel in the loop's active list: \<open>pending_events\<close>
  are the flags that \<open>handleEvents\<close> will act on.
\<close>

definition pending_events :: "channel \<Rightarrow> bool" where
  "pending_events c \<longleftrightarrow> ch_rclose c \<or> ch_rerror c \<or> ch_rread c \<or> ch_rwrite c"

definition listed :: "channel \<Rightarrow> bool" where
  "listed c \<longleftrightarrow> (pending_events c \<longrightarrow> ch_actived c)"

text \<open>A step of the poller on a channel: it may enter the active list, once, and never leaves it.\<close>

definition enters :: "channel \<Rightarrow> channel \<times> loop_request list \<Rightarrow> bool" where
  "enters c r \<longleftrightarrow> snd r = (if \<not> ch_actived c \<and> ch_actived (fst r) then [AddActived] else [])
     \<and> (ch_actived c \<longrightarrow> ch_actived (fst r)) \<and> (listed c \<longrightarrow> listed (fst r)) \<and> ch_fd (fst r) = ch_fd c
     \<and> ch_started (fst r) = ch_started c"

lemma enters_refl [simp]: "enters c (c, [])"
  by (simp add: enters_def)

lemma enters_handlers: "enters c (onClose_ch c)" "enters c (onError_ch c)" "enters c (onRead_ch c)" "enters c (onWrite_ch c)"
  by (simp_all add: enters_def onClose_ch_def onError_ch_def onRead_ch_def onWrite_ch_def addActivedChannel_ch_def
      listed_def pending_events_def)

lemma enters_when: "enters c (f c) \<Longrightarrow> enters c (when_event b f c)"
  by (simp add: when_event_def)

lemma enters_trans:
  "enters c (c1, r1) \<Longrightarrow> enters c1 (c2, r2) \<Longrightarrow> enters c (c2, r1 @ r2)"
  by (auto simp: enters_def)

lemma dispatch_enters: "enters c (dispatch events c)"
proof -
  obtain c1 r1 where 1: "when_event (events AND (EPOLLRDHUP OR EPOLLHUP) \<noteq> 0) onClose_ch c = (c1, r1)" by fastforce
  obtain c2 r2 where 2: "when_event (events AND EPOLLERR \<noteq> 0) onError_ch c1 = (c2, r2)" by fastforce
  obtain c3 r3 where 3: "when_event (events AND EPOLLIN \<noteq> 0) onRead_ch c2 = (c3, r3)" by fastforce
  obtain c4 r4 where 4: "when_event (events AND EPOLLOUT \<noteq> 0) onWrite_ch c3 = (c4, r4)" by fastforce
  have "enters c (c1, r1)" "enters c1 (c2, r2)" "enters c2 (c3, r3)" "enters c3 (c4, r4)"
    unfolding 1 [symmetric] 2 [symmetric] 3 [symmetric] 4 [symmetric]
    by (intro enters_when enters_handlers)+
  then have "enters c (c4, ((r1 @ r2) @ r3) @ r4)"
    by (meson enters_trans)
  then show ?thesis
    by (simp add: dispatch_def 1 2 3 4)
qed

subsection \<open>Property\<close>

text \<open>
  The registered mask is right exactly when the uninitialised word holds no other flag: it then
  asks for errors, hang-ups and edge triggering, and for input and output as the channel does.  For
  other initial contents a channel that does not want to write is registered for output.
\<close>

theorem event_mask_exact:
  "event_mask 0 c = EPOLLERR OR EPOLLRDHUP OR EPOLLET
     OR (if ch_read c then EPOLLIN else 0) OR (if ch_write c then EPOLLOUT else 0)
   \<and> event_mask EPOLLOUT c AND EPOLLOUT \<noteq> 0"
proof
  show "event_mask 0 c = EPOLLERR OR EPOLLRDHUP OR EPOLLET
      OR (if ch_read c then EPOLLIN else 0) OR (if ch_write c then EPOLLOUT else 0)"
    by (simp add: event_mask_def ac_simps)
  have "event_mask EPOLLOUT c AND EPOLLOUT = EPOLLOUT"
    by (simp add: event_mask_def bit.conj_disj_distrib2 epoll_flags)
  then show "event_mask EPOLLOUT c AND EPOLLOUT \<noteq> 0"
    by (simp add: EPOLLOUT_def)
qed

end
