(* ===== verification/EventLoop.thy ===== *)
theory EventLoop
  imports EPoll
begin

section \<open>The event loop (net/EventLoop.h, net/EventLoop.cpp)\<close>

text \<open>
  \<open>EventLoop\<close> waits for events, runs the callbacks of the active channels and then the functors
  that other threads queued; an \<open>eventfd\<close> wakes it.  The channels are objects in a memory of their
  own: a map from channel numbers, \<open>None\<close> for one that was deleted, which is undefined to use.
  The callbacks of channel \<open>i\<close> are \<open>cbs i\<close>, a functor is what \<open>run\<close> does on the loop: both are the
  program's, parameters here.  The \<open>eventfd\<close> is its counter and, as it is registered edge
  triggered, whether it was written since \<open>epoll_wait\<close> last reported it.
\<close>

subsection \<open>State\<close>

record ('f, 'w) evloop =
  quit_flag :: bool
  pendingFunctors :: "'f list"
  activedChannels :: "nat list"
  epollPoller :: epoller
  channels :: "nat \<Rightarrow> channel option"
  wakeupCount :: nat
  wakeupEdge :: bool
  env :: 'w

subsection \<open>Requests of the channels\<close>

definition addChannel :: "32 word \<Rightarrow> nat \<Rightarrow> channel \<Rightarrow> ('f, 'w) evloop \<Rightarrow> ('f, 'w) evloop" where
  "addChannel uninit i c l = l\<lparr>epollPoller := addChannel_ep uninit i c (epollPoller l)\<rparr>"

definition updateChannel :: "32 word \<Rightarrow> nat \<Rightarrow> channel \<Rightarrow> ('f, 'w) evloop \<Rightarrow> ('f, 'w) evloop" where
  "updateChannel uninit i c l = l\<lparr>epollPoller := updateChannel_ep uninit i c (epollPoller l)\<rparr>"

definition removeChannel :: "channel \<Rightarrow> ('f, 'w) evloop \<Rightarrow> ('f, 'w) evloop" where
  "removeChannel c l = l\<lparr>epollPoller := removeChannel_ep c (epollPoller l)\<rparr>"

definition addActivedChannel :: "nat \<Rightarrow> ('f, 'w) evloop \<Rightarrow> ('f, 'w) evloop" where
  "addActivedChannel i l = l\<lparr>activedChannels := activedChannels l @ [i]\<rparr>"

fun do_request :: "32 word \<Rightarrow> nat \<Rightarrow> channel \<Rightarrow> loop_request \<Rightarrow> ('f, 'w) evloop \<Rightarrow> ('f, 'w) evloop" where
  "do_request uninit i c AddChannel l = addChannel uninit i c l"
| "do_request uninit i c UpdateChannel l = updateChannel uninit i c l"
| "do_request uninit i c RemoveChannel l = removeChannel c l"
| "do_request uninit i c AddActived l = addActivedChannel i l"

text \<open>A member function of channel \<open>i\<close> with the requests it makes.\<close>

definition on_channel ::
  "32 word \<Rightarrow> nat \<Rightarrow> (channel \<Rightarrow> channel \<times> loop_request list) \<Rightarrow> ('f, 'w) evloop \<Rightarrow> ('f, 'w) evloop option" where
  "on_channel uninit i f l =
     (case channels l i of None \<Rightarrow> None
      | Some c \<Rightarrow> case f c of (c', rs) \<Rightarrow>
          Some (fold (do_request uninit i c') rs (l\<lparr>channels := (channels l)(i \<mapsto> c')\<rparr>)))"

subsection \<open>Waking up\<close>

text \<open>The channel of the \<open>eventfd\<close> is the first that a loop creates.\<close>

definition wakeupChannel :: nat where
  "wakeupChannel = 0"

definition wakeup :: "('f, 'w) evloop \<Rightarrow> ('f, 'w) evloop" where
  "wakeup l = l\<lparr>wakeupCount := wakeupCount l + 1, wakeupEdge := True\<rparr>"

definition handleWakeup :: "('f, 'w) evloop \<Rightarrow> ('f, 'w) evloop option" where
  "handleWakeup l = on_channel 0 wakeupChannel (\<lambda>c. (disableReadable c, [])) (l\<lparr>wakeupCount := 0\<rparr>)"

definition quit :: "('f, 'w) evloop \<Rightarrow> ('f, 'w) evloop" where
  "quit l = wakeup (l\<lparr>quit_flag := True\<rparr>)"

definition push_functor :: "'f \<Rightarrow> ('f, 'w) evloop \<Rightarrow> ('f, 'w) evloop" where
  "push_functor f l = l\<lparr>pendingFunctors := pendingFunctors l @ [f]\<rparr>"

definition runInLoop :: "'f \<Rightarrow> ('f, 'w) evloop \<Rightarrow> ('f, 'w) evloop" where
  "runInLoop f l = wakeup (push_functor f l)"

subsection \<open>Polling\<close>

text \<open>
  \<open>epoll_wait\<close> with the size of the array: \<open>None\<close> when it fails, else the events, each a mask and
  a channel; it may change the environment.
\<close>

type_synonym ('f, 'w) epoll_wait = "nat \<Rightarrow> ('f, 'w) evloop \<Rightarrow> (32 word \<times> nat) list option \<times> ('f, 'w) evloop"

fun dispatch_all :: "32 word \<Rightarrow> (32 word \<times> nat) list \<Rightarrow> ('f, 'w) evloop \<Rightarrow> ('f, 'w) evloop option" where
  "dispatch_all uninit [] l = Some l"
| "dispatch_all uninit ((events, i) # evs) l = do {
     l' \<leftarrow> on_channel uninit i (dispatch events) l;
     dispatch_all uninit evs l' }"

definition poll :: "32 word \<Rightarrow> ('f, 'w) epoll_wait \<Rightarrow> ('f, 'w) evloop \<Rightarrow> ('f, 'w) evloop option" where
  "poll uninit epoll_wait l =
     (case epoll_wait (eventSize (epollPoller l)) l of
        (None, l1) \<Rightarrow> Some l1
      | (Some evs, l1) \<Rightarrow> do {
          l2 \<leftarrow> dispatch_all uninit evs l1;
          Some (l2\<lparr>epollPoller := grow_events (length evs) (epollPoller l2)\<rparr>) })"

subsection \<open>Handling\<close>

text \<open>
  \<open>handleEvents\<close> of channel \<open>i\<close>: a callback that deletes the channel leaves \<open>handleEvents\<close> with a
  dangling \<open>this\<close>.  The loop iterates over \<open>activedChannels_\<close>: an insertion on the way invalidates
  its iterators.
\<close>

definition alive :: "nat \<Rightarrow> (('f, 'w) evloop \<Rightarrow> ('f, 'w) evloop option) \<Rightarrow> ('f, 'w) evloop \<Rightarrow> ('f, 'w) evloop option" where
  "alive i f l = do { l' \<leftarrow> f l; if channels l' i = None then None else Some l' }"

definition alive_callbacks :: "nat \<Rightarrow> ('f, 'w) evloop callbacks \<Rightarrow> ('f, 'w) evloop callbacks" where
  "alive_callbacks i cb = \<lparr>closeCallback = map_option (alive i) (closeCallback cb), errorCallback = map_option (alive i) (errorCallback cb),
     readCallback = map_option (alive i) (readCallback cb), writeCallback = map_option (alive i) (writeCallback cb)\<rparr>"

definition channel_at :: "nat \<Rightarrow> ('f, 'w) evloop \<Rightarrow> channel" where
  "channel_at i l = (case channels l i of None \<Rightarrow> new_channel 0 | Some c \<Rightarrow> c)"

definition change_channel :: "nat \<Rightarrow> (channel \<Rightarrow> channel) \<Rightarrow> ('f, 'w) evloop \<Rightarrow> ('f, 'w) evloop" where
  "change_channel i f l = l\<lparr>channels := (channels l)(i := map_option f (channels l i))\<rparr>"

definition handle_channel :: "(nat \<Rightarrow> ('f, 'w) evloop callbacks) \<Rightarrow> nat \<Rightarrow> ('f, 'w) evloop \<Rightarrow> ('f, 'w) evloop option" where
  "handle_channel cbs i l =
     (if channels l i = None then None
      else handleEvents (channel_at i) (change_channel i) (alive_callbacks i (cbs i)) l)"

fun handle_channels ::
  "(nat \<Rightarrow> ('f, 'w) evloop callbacks) \<Rightarrow> nat list \<Rightarrow> ('f, 'w) evloop \<Rightarrow> ('f, 'w) evloop option" where
  "handle_channels cbs [] l = Some l"
| "handle_channels cbs (i # is) l = do {
     l' \<leftarrow> handle_channel cbs i l;
     if activedChannels l' \<noteq> activedChannels l then None else handle_channels cbs is l' }"

definition handleActivedChannels :: "(nat \<Rightarrow> ('f, 'w) evloop callbacks) \<Rightarrow> ('f, 'w) evloop \<Rightarrow> ('f, 'w) evloop option" where
  "handleActivedChannels cbs l = do {
     l' \<leftarrow> handle_channels cbs (activedChannels l) l;
     Some (l'\<lparr>activedChannels := []\<rparr>) }"

subsection \<open>Functors\<close>

definition swap_functors :: "('f, 'w) evloop \<Rightarrow> 'f list \<times> ('f, 'w) evloop" where
  "swap_functors l = (pendingFunctors l, l\<lparr>pendingFunctors := []\<rparr>)"

fun run_functors :: "('f \<Rightarrow> ('f, 'w) evloop \<Rightarrow> ('f, 'w) evloop option) \<Rightarrow> 'f list \<Rightarrow> ('f, 'w) evloop \<Rightarrow> ('f, 'w) evloop option" where
  "run_functors run [] l = Some l"
| "run_functors run (f # fs) l = do { l' \<leftarrow> run f l; run_functors run fs l' }"

definition doPendingFunctors :: "('f \<Rightarrow> ('f, 'w) evloop \<Rightarrow> ('f, 'w) evloop option) \<Rightarrow> ('f, 'w) evloop \<Rightarrow> ('f, 'w) evloop option" where
  "doPendingFunctors run l = (case swap_functors l of (fs, l') \<Rightarrow> run_functors run fs l')"

subsection \<open>The loop\<close>

definition turn ::
  "32 word \<Rightarrow> ('f, 'w) epoll_wait \<Rightarrow> (nat \<Rightarrow> ('f, 'w) evloop callbacks) \<Rightarrow> ('f \<Rightarrow> ('f, 'w) evloop \<Rightarrow> ('f, 'w) evloop option)
   \<Rightarrow> ('f, 'w) evloop \<Rightarrow> ('f, 'w) evloop option" where
  "turn uninit ew cbs run l = do {
     l1 \<leftarrow> poll uninit ew l;
     l2 \<leftarrow> handleActivedChannels cbs l1;
     doPendingFunctors run l2 }"

partial_function (option) turns ::
  "32 word \<Rightarrow> ('f, 'w) epoll_wait \<Rightarrow> (nat \<Rightarrow> ('f, 'w) evloop callbacks) \<Rightarrow> ('f \<Rightarrow> ('f, 'w) evloop \<Rightarrow> ('f, 'w) evloop option)
   \<Rightarrow> ('f, 'w) evloop \<Rightarrow> ('f, 'w) evloop option" where
  "turns uninit ew cbs run l =
     (if quit_flag l then Some l else do { l' \<leftarrow> turn uninit ew cbs run l; turns uninit ew cbs run l' })"

declare turns.simps [code]

definition loop ::
  "32 word \<Rightarrow> ('f, 'w) epoll_wait \<Rightarrow> (nat \<Rightarrow> ('f, 'w) evloop callbacks) \<Rightarrow> ('f \<Rightarrow> ('f, 'w) evloop \<Rightarrow> ('f, 'w) evloop option)
   \<Rightarrow> ('f, 'w) evloop \<Rightarrow> ('f, 'w) evloop option" where
  "loop uninit ew cbs run l = turns uninit ew cbs run (l\<lparr>quit_flag := False\<rparr>)"

text \<open>The descriptor that \<open>eventfd\<close> gives; the program aborts when there is none.\<close>

definition createEventFd :: "int \<Rightarrow> nat option" where
  "createEventFd eventfd = (if eventfd < 0 then None else Some (nat eventfd))"

definition new_loop :: "32 word \<Rightarrow> nat \<Rightarrow> 'w \<Rightarrow> ('f, 'w) evloop option" where
  "new_loop uninit wakeupFd w =
     on_channel uninit wakeupChannel open_ch
       \<lparr>quit_flag = False, pendingFunctors = [], activedChannels = [], epollPoller = new_epoller,
        channels = [wakeupChannel \<mapsto> enableRead (new_channel wakeupFd)], wakeupCount = 0, wakeupEdge = False, env = w\<rparr>"

definition delete_loop :: "('f, 'w) evloop \<Rightarrow> ('f, 'w) evloop option" where
  "delete_loop l = on_channel 0 wakeupChannel close_ch l"

end
