(* ===== verification/LoopEvents.thy ===== *)
theory LoopEvents
  imports EventLoop "HOL-Library.Sublist"
begin

section \<open>No event is lost in the loop\<close>

text \<open>
  The list of active channels: between the turns it is empty, and no channel has an event that was
  received and not handled.  The callbacks are the program's; the contract they need is a locale.
\<close>

subsection \<open>Flags\<close>

definition event_flags :: "channel \<Rightarrow> bool list" where
  "event_flags c = [ch_rclose c, ch_rerror c, ch_rread c, ch_rwrite c, ch_actived c]"

definition no_flags :: "bool list" where
  "no_flags = [False, False, False, False, False]"

definition flags_at :: "('f, 'w) evloop \<Rightarrow> nat \<Rightarrow> bool list option" where
  "flags_at l i = map_option event_flags (channels l i)"

text \<open>The kinds of events: the flag of each, when a channel takes an event of the poller, and the mask.\<close>

datatype event_kind = CloseEvent | ErrorEvent | ReadEvent | WriteEvent

definition event_order :: "event_kind list" where
  "event_order = [CloseEvent, ErrorEvent, ReadEvent, WriteEvent]"

fun pends :: "channel \<Rightarrow> event_kind \<Rightarrow> bool" where
  "pends c CloseEvent = ch_rclose c"
| "pends c ErrorEvent = ch_rerror c"
| "pends c ReadEvent = ch_rread c"
| "pends c WriteEvent = ch_rwrite c"

fun ready :: "channel \<Rightarrow> event_kind \<Rightarrow> bool" where
  "ready c CloseEvent \<longleftrightarrow> \<not> ch_closed c"
| "ready c ErrorEvent \<longleftrightarrow> True"
| "ready c ReadEvent \<longleftrightarrow> ch_read c \<and> \<not> ch_readable c"
| "ready c WriteEvent \<longleftrightarrow> ch_write c \<and> \<not> ch_writeable c"

fun reports :: "32 word \<Rightarrow> event_kind \<Rightarrow> bool" where
  "reports ev CloseEvent \<longleftrightarrow> ev AND (EPOLLRDHUP OR EPOLLHUP) \<noteq> 0"
| "reports ev ErrorEvent \<longleftrightarrow> ev AND EPOLLERR \<noteq> 0"
| "reports ev ReadEvent \<longleftrightarrow> ev AND EPOLLIN \<noteq> 0"
| "reports ev WriteEvent \<longleftrightarrow> ev AND EPOLLOUT \<noteq> 0"

fun callback_of :: "'w callbacks \<Rightarrow> event_kind \<Rightarrow> ('w \<Rightarrow> 'w option) option" where
  "callback_of cb CloseEvent = closeCallback cb"
| "callback_of cb ErrorEvent = errorCallback cb"
| "callback_of cb ReadEvent = readCallback cb"
| "callback_of cb WriteEvent = writeCallback cb"

lemma event_order_set [simp]: "set event_order = UNIV" "distinct event_order"
  by (auto simp: event_order_def intro: event_kind.exhaust)

lemma pends_flags: "event_flags c = event_flags d \<Longrightarrow> pends c k = pends d k"
  by (cases k) (simp_all add: event_flags_def)

text \<open>What a handler of the poller does to the event of each kind.\<close>

definition receives :: "channel \<Rightarrow> (event_kind \<Rightarrow> bool) \<Rightarrow> channel \<Rightarrow> bool" where
  "receives c R c' \<longleftrightarrow> (\<forall>k. (pends c' k \<longleftrightarrow> pends c k \<or> ready c k \<and> R k) \<and> (\<not> pends c' k \<longrightarrow> ready c' k = ready c k))"

lemma receives_trans: "receives c R c1 \<Longrightarrow> receives c1 S c2 \<Longrightarrow> receives c (\<lambda>k. R k \<or> S k) c2"
  unfolding receives_def by blast

lemma receivesI: "(\<And>k. (pends c' k \<longleftrightarrow> pends c k \<or> ready c k \<and> R k) \<and> (\<not> pends c' k \<longrightarrow> ready c' k = ready c k)) \<Longrightarrow> receives c R c'"
  by (simp add: receives_def)

lemma handlers_receive:
  "receives c (\<lambda>k. b \<and> k = CloseEvent) (fst (when_event b onClose_ch c))"
  "receives c (\<lambda>k. b \<and> k = ErrorEvent) (fst (when_event b onError_ch c))"
  "receives c (\<lambda>k. b \<and> k = ReadEvent) (fst (when_event b onRead_ch c))"
  "receives c (\<lambda>k. b \<and> k = WriteEvent) (fst (when_event b onWrite_ch c))"
  by (rule receivesI, case_tac k; simp add: when_event_def onClose_ch_def onError_ch_def onRead_ch_def onWrite_ch_def
      addActivedChannel_ch_def; blast)+

lemma dispatch_receives: "receives c (reports ev) (fst (dispatch ev c))"
proof -
  obtain c1 r1 where 1: "when_event (ev AND (EPOLLRDHUP OR EPOLLHUP) \<noteq> 0) onClose_ch c = (c1, r1)" by fastforce
  obtain c2 r2 where 2: "when_event (ev AND EPOLLERR \<noteq> 0) onError_ch c1 = (c2, r2)" by fastforce
  obtain c3 r3 where 3: "when_event (ev AND EPOLLIN \<noteq> 0) onRead_ch c2 = (c3, r3)" by fastforce
  obtain c4 r4 where 4: "when_event (ev AND EPOLLOUT \<noteq> 0) onWrite_ch c3 = (c4, r4)" by fastforce
  note r = handlers_receive(1) [of c "ev AND (EPOLLRDHUP OR EPOLLHUP) \<noteq> 0", unfolded 1 fst_conv]
    handlers_receive(2) [of c1 "ev AND EPOLLERR \<noteq> 0", unfolded 2 fst_conv]
    handlers_receive(3) [of c2 "ev AND EPOLLIN \<noteq> 0", unfolded 3 fst_conv]
    handlers_receive(4) [of c3 "ev AND EPOLLOUT \<noteq> 0", unfolded 4 fst_conv]
  have "receives c (\<lambda>k. ((ev AND (EPOLLRDHUP OR EPOLLHUP) \<noteq> 0 \<and> k = CloseEvent \<or> ev AND EPOLLERR \<noteq> 0 \<and> k = ErrorEvent)
      \<or> ev AND EPOLLIN \<noteq> 0 \<and> k = ReadEvent) \<or> ev AND EPOLLOUT \<noteq> 0 \<and> k = WriteEvent) c4"
    by (rule receives_trans [OF receives_trans [OF receives_trans [OF r(1) r(2)] r(3)] r(4)])
  moreover have "(\<lambda>k. ((ev AND (EPOLLRDHUP OR EPOLLHUP) \<noteq> 0 \<and> k = CloseEvent \<or> ev AND EPOLLERR \<noteq> 0 \<and> k = ErrorEvent)
      \<or> ev AND EPOLLIN \<noteq> 0 \<and> k = ReadEvent) \<or> ev AND EPOLLOUT \<noteq> 0 \<and> k = WriteEvent) = reports ev"
  proof
    show "(((ev AND (EPOLLRDHUP OR EPOLLHUP) \<noteq> 0 \<and> k = CloseEvent \<or> ev AND EPOLLERR \<noteq> 0 \<and> k = ErrorEvent)
      \<or> ev AND EPOLLIN \<noteq> 0 \<and> k = ReadEvent) \<or> ev AND EPOLLOUT \<noteq> 0 \<and> k = WriteEvent) = reports ev k" for k
      by (cases k) simp_all
  qed
  ultimately show ?thesis
    by (simp only: dispatch_def 1 2 3 4 Let_def prod.case fst_conv)
qed

lemma dispatch_pends:
  "pends (fst (dispatch ev c)) k \<longleftrightarrow> pends c k \<or> ready c k \<and> reports ev k"
  "\<not> pends (fst (dispatch ev c)) k \<Longrightarrow> ready (fst (dispatch ev c)) k \<longleftrightarrow> ready c k"
  using dispatch_receives [of c ev] by (simp_all add: receives_def)

text \<open>The functors that were queued stay in front of the queue, and a request to quit stays.\<close>

definition grows :: "('f, 'w) evloop \<Rightarrow> ('f, 'w) evloop \<Rightarrow> bool" where
  "grows l l' \<longleftrightarrow> prefix (pendingFunctors l) (pendingFunctors l') \<and> (quit_flag l \<longrightarrow> quit_flag l')"

lemma grows_refl [simp]: "grows l l"
  by (simp add: grows_def)

lemma grows_trans: "grows l1 l2 \<Longrightarrow> grows l2 l3 \<Longrightarrow> grows l1 l3"
  unfolding grows_def by (metis prefix_order.trans)

definition same_queue :: "('f, 'w) evloop \<Rightarrow> ('f, 'w) evloop \<Rightarrow> bool" where
  "same_queue l l' \<longleftrightarrow> pendingFunctors l' = pendingFunctors l \<and> quit_flag l' = quit_flag l"

text \<open>
  What a callback may do: leave the active list and the event flags of every channel alone, queue
  functors, and create channels, which have no events.  Channels are deleted by functors, not by callbacks.
\<close>

definition keeps :: "('f, 'w) evloop \<Rightarrow> ('f, 'w) evloop \<Rightarrow> bool" where
  "keeps l l' \<longleftrightarrow> activedChannels l' = activedChannels l \<and> grows l l'
     \<and> (\<forall>j. flags_at l' j = flags_at l j \<or> flags_at l j = None \<and> flags_at l' j = Some no_flags)"

lemma keepsD: "keeps l l' \<Longrightarrow> activedChannels l' = activedChannels l"
  "keeps l l' \<Longrightarrow> flags_at l j = Some fl \<Longrightarrow> flags_at l' j = Some fl"
  "keeps l l' \<Longrightarrow> flags_at l' j = flags_at l j \<or> flags_at l j = None \<and> flags_at l' j = Some no_flags"
  by (auto simp: keeps_def) (metis option.distinct(1))

lemma keeps_refl [simp]: "keeps l l"
  by (simp add: keeps_def)

lemma keeps_trans: "keeps l1 l2 \<Longrightarrow> keeps l2 l3 \<Longrightarrow> keeps l1 l3"
  unfolding keeps_def by (metis option.distinct(1) grows_trans)

definition active_ok :: "('f, 'w) evloop \<Rightarrow> bool" where
  "active_ok l \<longleftrightarrow> distinct (activedChannels l)
     \<and> (\<forall>i. i \<in> set (activedChannels l) \<longleftrightarrow> (\<exists>c. channels l i = Some c \<and> ch_actived c))
     \<and> (\<forall>i c. channels l i = Some c \<longrightarrow> listed c)"

lemma active_okD:
  assumes "active_ok l"
  shows "distinct (activedChannels l)" "channels l i = Some c \<Longrightarrow> i \<in> set (activedChannels l) \<longleftrightarrow> ch_actived c"
    "channels l i = None \<Longrightarrow> i \<notin> set (activedChannels l)" "channels l i = Some c \<Longrightarrow> listed c"
  using assms by (auto simp: active_ok_def)

subsection \<open>Polling\<close>

lemma on_channel_enters:
  assumes ok: "active_ok l" and i: "channels l i = Some c" and e: "enters c (f c)"
  shows "\<exists>l'. on_channel uninit i f l = Some l' \<and> active_ok l' \<and> same_queue l l' \<and> (\<forall>j. channels l' j = None \<longleftrightarrow> channels l j = None)"
proof -
  obtain c' rs where f: "f c = (c', rs)" by fastforce
  have rs: "rs = (if \<not> ch_actived c \<and> ch_actived c' then [AddActived] else [])"
    and up: "ch_actived c \<longrightarrow> ch_actived c'" and li: "listed c'"
    using e f active_okD(4) [OF ok i] by (simp_all add: enters_def)
  have mem: "i \<in> set (activedChannels l) \<longleftrightarrow> ch_actived c"
    using active_okD(2) [OF ok i] .
  show ?thesis
    using ok i f rs up li mem by (auto simp: on_channel_def active_ok_def addActivedChannel_def same_queue_def)
qed

lemma dispatch_all_ok:
  assumes "active_ok l" "\<And>ev i. (ev, i) \<in> set evs \<Longrightarrow> channels l i \<noteq> None"
  shows "\<exists>l'. dispatch_all uninit evs l = Some l' \<and> active_ok l' \<and> same_queue l l' \<and> (\<forall>j. channels l' j = None \<longleftrightarrow> channels l j = None)"
  using assms
proof (induction evs arbitrary: l)
  case (Cons e evs)
  obtain ev i where e: "e = (ev, i)" by (cases e)
  obtain c where "channels l i = Some c"
    using Cons.prems(2) [of ev i] e by auto
  then obtain l1 where 1: "on_channel uninit i (dispatch ev) l = Some l1" "active_ok l1" "\<forall>j. channels l1 j = None \<longleftrightarrow> channels l j = None"
    "same_queue l l1"
    using on_channel_enters [where f = "dispatch ev", OF Cons.prems(1) _ dispatch_enters] by blast
  have "channels l1 i \<noteq> None" if "(ev, i) \<in> set evs" for ev i
    using Cons.prems(2) [of ev i] that 1(3) by simp
  then obtain l2 where "dispatch_all uninit evs l1 = Some l2" "active_ok l2" "\<forall>j. channels l2 j = None \<longleftrightarrow> channels l1 j = None"
    "same_queue l1 l2"
    using Cons.IH [OF 1(2)] by blast
  then show ?case
    using 1 e by (intro exI [of _ l2]) (simp add: same_queue_def)
qed (simp add: same_queue_def)

text \<open>Exactly the reported events that their channels are ready for become pending.\<close>

lemma dispatch_all_pends:
  assumes "dispatch_all uninit evs l = Some l'" "channels l i = Some c"
  shows "\<exists>c'. channels l' i = Some c' \<and> (\<forall>k. pends c' k \<longleftrightarrow> pends c k \<or> ready c k \<and> (\<exists>ev. (ev, i) \<in> set evs \<and> reports ev k))"
  using assms
proof (induction evs arbitrary: l c)
  case (Cons e evs)
  obtain ev j where e: "e = (ev, j)" by (cases e)
  obtain l1 where 1: "on_channel uninit j (dispatch ev) l = Some l1" "dispatch_all uninit evs l1 = Some l'"
    using Cons.prems(1) e by (auto simp: bind_eq_Some_conv)
  have ch: "channels l1 = (channels l)(j \<mapsto> fst (dispatch ev cj))" if "channels l j = Some cj" for cj
    using 1(1) that dispatch_enters [of cj ev]
    by (cases "dispatch ev cj") (auto simp: on_channel_def enters_def addActivedChannel_def split: if_splits)
  show ?case
  proof (cases "i = j")
    case True
    then have "channels l1 i = Some (fst (dispatch ev c))"
      using ch Cons.prems(2) by simp
    then obtain c' where c': "channels l' i = Some c'" "\<And>k. pends c' k \<longleftrightarrow> pends (fst (dispatch ev c)) k
        \<or> ready (fst (dispatch ev c)) k \<and> (\<exists>ev. (ev, i) \<in> set evs \<and> reports ev k)"
      using Cons.IH [OF 1(2)] by blast
    have "pends c' k \<longleftrightarrow> pends c k \<or> ready c k \<and> (\<exists>ev. (ev, i) \<in> set (e # evs) \<and> reports ev k)" for k
      unfolding c'(2) [of k] using dispatch_pends [of ev c k] e True by (cases "pends (fst (dispatch ev c)) k") auto
    then show ?thesis
      using c'(1) by blast
  next
    case False
    obtain cj where "channels l j = Some cj"
      using 1(1) by (auto simp: on_channel_def split: option.splits)
    then have "channels l1 i = Some c"
      using ch False Cons.prems(2) by simp
    then show ?thesis
      using Cons.IH [OF 1(2)] e False by auto
  qed
qed simp

text \<open>
  The kernel: it reports events of registered channels, which are live, and changes nothing of the
  loop but its environment and the edge of the \<open>eventfd\<close>.
\<close>

definition epoll_ok :: "('f, 'w) epoll_wait \<Rightarrow> bool" where
  "epoll_ok ew \<longleftrightarrow> (\<forall>n l. case ew n l of (r, l') \<Rightarrow>
     channels l' = channels l \<and> activedChannels l' = activedChannels l \<and> same_queue l l'
     \<and> (case r of None \<Rightarrow> True | Some evs \<Rightarrow> \<forall>e\<in>set evs. channels l (snd e) \<noteq> None))"

lemma epoll_okD:
  assumes "epoll_ok ew" "ew n l = (r, l')"
  shows "channels l' = channels l" "activedChannels l' = activedChannels l" "same_queue l l'"
    "r = Some evs \<Longrightarrow> (ev, i) \<in> set evs \<Longrightarrow> channels l i \<noteq> None"
proof -
  have "case ew n l of (r, l') \<Rightarrow> channels l' = channels l \<and> activedChannels l' = activedChannels l
     \<and> same_queue l l'
     \<and> (case r of None \<Rightarrow> True | Some evs \<Rightarrow> \<forall>e\<in>set evs. channels l (snd e) \<noteq> None)"
    by (rule assms(1) [unfolded epoll_ok_def, THEN spec, THEN spec])
  then show "channels l' = channels l" "activedChannels l' = activedChannels l" "same_queue l l'"
    "r = Some evs \<Longrightarrow> (ev, i) \<in> set evs \<Longrightarrow> channels l i \<noteq> None"
    using assms(2) by auto
qed

lemma poll_ok:
  assumes ok: "active_ok l" and ew: "epoll_ok ew"
  shows "\<exists>l'. poll uninit ew l = Some l' \<and> active_ok l' \<and> same_queue l l'"
proof -
  obtain r l1 where e: "ew (eventSize (epollPoller l)) l = (r, l1)"
    by (cases "ew (eventSize (epollPoller l)) l")
  note k = epoll_okD [OF ew e]
  then have ok1: "active_ok l1"
    using ok by (simp add: active_ok_def)
  show ?thesis
  proof (cases r)
    case (Some evs)
    obtain l2 where "dispatch_all uninit evs l1 = Some l2" "active_ok l2" "same_queue l1 l2"
      using dispatch_all_ok [OF ok1, of evs uninit] k(1) k(4) [OF Some] by auto
    then show ?thesis
      using e Some k(3) by (simp add: poll_def active_ok_def same_queue_def)
  qed (use e ok1 k(3) in \<open>simp add: poll_def\<close>)
qed

text \<open>The events that a turn's poll receives for channel \<open>i\<close>.\<close>

definition reported :: "('f, 'w) epoll_wait \<Rightarrow> ('f, 'w) evloop \<Rightarrow> nat \<Rightarrow> event_kind \<Rightarrow> bool" where
  "reported ew l i k \<longleftrightarrow> (case fst (ew (eventSize (epollPoller l)) l) of None \<Rightarrow> False
     | Some evs \<Rightarrow> \<exists>(ev, j) \<in> set evs. j = i \<and> reports ev k)"

lemma poll_pends:
  assumes "epoll_ok ew" "poll uninit ew l = Some l'" "channels l i = Some c"
  shows "\<exists>c'. channels l' i = Some c' \<and> (\<forall>k. pends c' k \<longleftrightarrow> pends c k \<or> ready c k \<and> reported ew l i k)"
proof -
  obtain r l1 where e: "ew (eventSize (epollPoller l)) l = (r, l1)"
    by (cases "ew (eventSize (epollPoller l)) l")
  note k = epoll_okD [OF assms(1) e]
  have c: "channels l1 i = Some c"
    using k(1) assms(3) by simp
  show ?thesis
  proof (cases r)
    case None
    then show ?thesis
      using assms(2) e c by (simp add: poll_def reported_def)
  next
    case (Some evs)
    then obtain l2 where l2: "dispatch_all uninit evs l1 = Some l2" "channels l' = channels l2"
      using assms(2) e by (auto simp: poll_def bind_eq_Some_conv)
    have "reported ew l i k \<longleftrightarrow> (\<exists>ev. (ev, i) \<in> set evs \<and> reports ev k)" for k
      using e Some by (auto simp: reported_def)
    then show ?thesis
      using dispatch_all_pends [OF l2(1) c] l2(2) by simp
  qed
qed

subsection \<open>Handling\<close>

text \<open>A step that leaves channel \<open>i\<close> with the flags \<open>fl\<close> and keeps the others.\<close>

definition sets :: "nat \<Rightarrow> bool list \<Rightarrow> ('f, 'w) evloop \<Rightarrow> ('f, 'w) evloop \<Rightarrow> bool" where
  "sets i fl l l' \<longleftrightarrow> activedChannels l' = activedChannels l \<and> grows l l'
     \<and> flags_at l' i = Some fl
     \<and> (\<forall>j. j \<noteq> i \<longrightarrow> flags_at l' j = flags_at l j \<or> flags_at l j = None \<and> flags_at l' j = Some no_flags)"

lemma sets_trans: "sets i fl l1 l2 \<Longrightarrow> sets i fl' l2 l3 \<Longrightarrow> sets i fl' l1 l3"
  unfolding sets_def by (metis option.distinct(1) grows_trans)

lemma sets_keeps: "sets i fl l1 l2 \<Longrightarrow> keeps l2 l3 \<Longrightarrow> sets i fl l1 l3"
  unfolding sets_def keeps_def by (metis option.distinct(1) grows_trans)

lemma sets_change:
  assumes "flags_at l i = Some fl" "\<And>c. event_flags (f c) = (event_flags c)[k := b]"
  shows "sets i (fl[k := b]) l (change_channel i f l)"
  using assms by (auto simp: sets_def change_channel_def flags_at_def grows_def)

lemma channel_at_flags: "flags_at l i = Some fl \<Longrightarrow> event_flags (channel_at i l) = fl"
  by (auto simp: flags_at_def channel_at_def)

locale loop_callbacks =
  fixes cbs :: "nat \<Rightarrow> ('f, 'w) evloop callbacks"
  assumes keeps: "f \<in> {closeCallback (cbs i), errorCallback (cbs i), readCallback (cbs i), writeCallback (cbs i)}
    \<Longrightarrow> f = Some g \<Longrightarrow> channels l i \<noteq> None \<Longrightarrow> \<exists>l'. g l = Some l' \<and> keeps l l'"
begin

lemma alive_keeps:
  assumes "f \<in> {closeCallback (cbs i), errorCallback (cbs i), readCallback (cbs i), writeCallback (cbs i)}"
    "f = Some g" "flags_at l i = Some fl"
  shows "\<exists>l'. alive i g l = Some l' \<and> keeps l l'"
proof -
  have "channels l i \<noteq> None"
    using assms(3) by (auto simp: flags_at_def)
  then obtain l' where "g l = Some l'" "keeps l l'"
    using keeps [OF assms(1,2)] by blast
  moreover have "channels l' i \<noteq> None"
    using keepsD(2) [OF calculation(2) assms(3)] by (auto simp: flags_at_def)
  ultimately show ?thesis
    by (auto simp: alive_def)
qed

end

context loop_callbacks
begin

lemma fire_stage:
  assumes fl: "flags_at l i = Some fl" and k: "k < 5"
    and f: "f \<in> {closeCallback (cbs i), errorCallback (cbs i), readCallback (cbs i), writeCallback (cbs i)}"
    and flag: "\<And>c. flag c = event_flags c ! k" "\<And>c. event_flags (clear c) = (event_flags c)[k := False]"
  shows "\<exists>l'. fire (channel_at i) (change_channel i) flag clear (map_option (alive i) f) l = Some l' \<and> sets i (fl[k := False]) l l'"
proof (cases "fl ! k")
  case True
  note s = sets_change [where f = clear, OF fl flag(2)]
  show ?thesis
  proof (cases f)
    case None
    then show ?thesis
      using True s channel_at_flags [OF fl] by (simp add: fire_def flag(1))
  next
    case (Some g)
    have "flags_at (change_channel i clear l) i = Some (fl[k := False])"
      using s by (simp add: sets_def)
    then obtain l' where "alive i g (change_channel i clear l) = Some l'" "keeps (change_channel i clear l) l'"
      using alive_keeps [OF f Some] by blast
    then show ?thesis
      using True Some sets_keeps [OF s] channel_at_flags [OF fl] by (simp add: fire_def flag(1))
  qed
next
  case False
  have "fl[k := False] = fl"
    using False by (metis list_update_id)
  moreover have "sets i fl l l"
    using fl by (simp add: sets_def)
  ultimately show ?thesis
    using False channel_at_flags [OF fl] by (simp add: fire_def flag(1))
qed

text \<open>The four stages of \<open>handleEvents\<close>: each serves one flag and leaves the later ones.\<close>

lemma handle_channel_stages:
  assumes "flags_at l i = Some [a, b, c, d, e]"
  obtains l0 l1 l2 l3 l4 where "l0 = change_channel i (\<lambda>c. c\<lparr>ch_actived := False\<rparr>) l"
    "sets i [a, b, c, d, False] l l0"
    "fire (channel_at i) (change_channel i) ch_rclose (\<lambda>c. c\<lparr>ch_rclose := False\<rparr>) (map_option (alive i) (closeCallback (cbs i))) l0 = Some l1"
    "sets i [False, b, c, d, False] l0 l1"
    "fire (channel_at i) (change_channel i) ch_rerror (\<lambda>c. c\<lparr>ch_rerror := False\<rparr>) (map_option (alive i) (errorCallback (cbs i))) l1 = Some l2"
    "sets i [False, False, c, d, False] l1 l2"
    "fire (channel_at i) (change_channel i) ch_rread (\<lambda>c. c\<lparr>ch_rread := False\<rparr>) (map_option (alive i) (readCallback (cbs i))) l2 = Some l3"
    "sets i [False, False, False, d, False] l2 l3"
    "fire (channel_at i) (change_channel i) ch_rwrite (\<lambda>c. c\<lparr>ch_rwrite := False\<rparr>) (map_option (alive i) (writeCallback (cbs i))) l3 = Some l4"
    "sets i [False, False, False, False, False] l3 l4"
    "handle_channel cbs i l = Some l4"
proof -
  let ?get = "channel_at i" and ?upd = "change_channel i"
  define l0 where "l0 = ?upd (\<lambda>c. c\<lparr>ch_actived := False\<rparr>) l"
  have s0: "sets i [a, b, c, d, False] l l0"
    using sets_change [OF assms, of "\<lambda>c. c\<lparr>ch_actived := False\<rparr>" 4 False] by (simp add: event_flags_def l0_def)
  obtain l1 where 1: "fire ?get ?upd ch_rclose (\<lambda>c. c\<lparr>ch_rclose := False\<rparr>) (map_option (alive i) (closeCallback (cbs i))) l0 = Some l1"
    "sets i [False, b, c, d, False] l0 l1"
    using fire_stage [of l0 i "[a, b, c, d, False]" 0 "closeCallback (cbs i)" ch_rclose "\<lambda>c. c\<lparr>ch_rclose := False\<rparr>"] s0
    by (auto simp: sets_def event_flags_def)
  obtain l2 where 2: "fire ?get ?upd ch_rerror (\<lambda>c. c\<lparr>ch_rerror := False\<rparr>) (map_option (alive i) (errorCallback (cbs i))) l1 = Some l2"
    "sets i [False, False, c, d, False] l1 l2"
    using fire_stage [of l1 i "[False, b, c, d, False]" 1 "errorCallback (cbs i)" ch_rerror "\<lambda>c. c\<lparr>ch_rerror := False\<rparr>"] 1(2)
    by (auto simp: sets_def event_flags_def)
  obtain l3 where 3: "fire ?get ?upd ch_rread (\<lambda>c. c\<lparr>ch_rread := False\<rparr>) (map_option (alive i) (readCallback (cbs i))) l2 = Some l3"
    "sets i [False, False, False, d, False] l2 l3"
    using fire_stage [of l2 i "[False, False, c, d, False]" 2 "readCallback (cbs i)" ch_rread "\<lambda>c. c\<lparr>ch_rread := False\<rparr>"] 2(2)
    by (auto simp: sets_def event_flags_def)
  obtain l4 where 4: "fire ?get ?upd ch_rwrite (\<lambda>c. c\<lparr>ch_rwrite := False\<rparr>) (map_option (alive i) (writeCallback (cbs i))) l3 = Some l4"
    "sets i [False, False, False, False, False] l3 l4"
    using fire_stage [of l3 i "[False, False, False, d, False]" 3 "writeCallback (cbs i)" ch_rwrite "\<lambda>c. c\<lparr>ch_rwrite := False\<rparr>"] 3(2)
    by (auto simp: sets_def event_flags_def)
  have "channels l i \<noteq> None"
    using assms by (auto simp: flags_at_def)
  then have "handle_channel cbs i l = Some l4"
    using 1(1) 2(1) 3(1) 4(1) by (simp add: handle_channel_def handleEvents_def Let_def l0_def alive_callbacks_def)
  then show thesis
    by (rule that [OF l0_def s0 1 2 3 4])
qed

lemma handle_channel_clears:
  assumes "flags_at l i = Some fl"
  shows "\<exists>l'. handle_channel cbs i l = Some l' \<and> sets i no_flags l l'"
proof -
  obtain a b c d e where "fl = [a, b, c, d, e]"
    using assms by (auto simp: flags_at_def event_flags_def)
  then have "flags_at l i = Some [a, b, c, d, e]"
    using assms by simp
  then show ?thesis
    by (rule handle_channel_stages) (unfold no_flags_def, meson sets_trans)
qed

lemma handle_channels_clear:
  assumes "\<And>i. i \<in> set is \<Longrightarrow> flags_at l i \<noteq> None"
  shows "\<exists>l'. handle_channels cbs is l = Some l' \<and> activedChannels l' = activedChannels l
    \<and> grows l l'
    \<and> (\<forall>j. if j \<in> set is then flags_at l' j = Some no_flags
           else flags_at l' j = flags_at l j \<or> flags_at l j = None \<and> flags_at l' j = Some no_flags)"
  using assms
proof (induction "is" arbitrary: l)
  case (Cons i "is")
  obtain l1 where 1: "handle_channel cbs i l = Some l1" "sets i no_flags l l1"
    using handle_channel_clears [of l i] Cons.prems [of i] by auto
  have live: "flags_at l1 j \<noteq> None" if "j \<in> set is" for j
    using 1(2) Cons.prems [of j] that unfolding sets_def by (metis list.set_intros(2) option.distinct(1))
  obtain l' where l': "handle_channels cbs is l1 = Some l'" "activedChannels l' = activedChannels l1"
    "grows l1 l'"
    "\<forall>j. if j \<in> set is then flags_at l' j = Some no_flags
           else flags_at l' j = flags_at l1 j \<or> flags_at l1 j = None \<and> flags_at l' j = Some no_flags"
    using Cons.IH [OF live] by blast
  have "if j \<in> set (i # is) then flags_at l' j = Some no_flags
      else flags_at l' j = flags_at l j \<or> flags_at l j = None \<and> flags_at l' j = Some no_flags" for j
    using l'(4) [THEN spec, of j] 1(2) unfolding sets_def
    by (cases "j \<in> set is"; cases "j = i") (auto split: if_splits)
  then show ?case
    using 1 l'(1-3) grows_trans by (intro exI [of _ l']) (auto simp: sets_def)
qed simp

lemma handleActivedChannels_correct:
  assumes ok: "active_ok l"
  shows "\<exists>l'. handleActivedChannels cbs l = Some l' \<and> active_ok l' \<and> activedChannels l' = []
    \<and> grows l l'
    \<and> (\<forall>i c. channels l' i = Some c \<longrightarrow> \<not> pending_events c)"
proof -
  have "flags_at l i \<noteq> None" if "i \<in> set (activedChannels l)" for i
    using active_okD(3) [OF ok, of i] that by (auto simp: flags_at_def)
  then obtain l1 where l1: "handle_channels cbs (activedChannels l) l = Some l1" "grows l l1"
    "\<forall>j. if j \<in> set (activedChannels l) then flags_at l1 j = Some no_flags
         else flags_at l1 j = flags_at l j \<or> flags_at l j = None \<and> flags_at l1 j = Some no_flags"
    using handle_channels_clear [of "activedChannels l" l] by blast
  have clear: "\<not> pending_events c \<and> \<not> ch_actived c" if c: "channels l1 j = Some c" for j c
  proof (cases "j \<in> set (activedChannels l)")
    case False
    then consider "flags_at l1 j = Some no_flags" | "flags_at l1 j = flags_at l j"
      using l1(3) [THEN spec, of j] by auto
    then show ?thesis
    proof cases
      case 2
      then obtain c0 where "channels l j = Some c0" "event_flags c = event_flags c0"
        using c by (cases "channels l j") (auto simp: flags_at_def)
      then show ?thesis
        using active_okD(2,4) [OF ok, of j c0] False by (simp add: event_flags_def listed_def pending_events_def)
    qed (use c in \<open>simp add: flags_at_def event_flags_def no_flags_def pending_events_def\<close>)
  next
    case True
    then have "flags_at l1 j = Some no_flags"
      using l1(3) [THEN spec, of j] by simp
    then show ?thesis
      using c by (simp add: flags_at_def event_flags_def no_flags_def pending_events_def)
  qed
  then have "active_ok (l1\<lparr>activedChannels := []\<rparr>)" "grows l (l1\<lparr>activedChannels := []\<rparr>)"
    using l1(2) by (auto simp: active_ok_def listed_def grows_def)
  then show ?thesis
    using l1(1) clear by (simp add: handleActivedChannels_def)
qed

end

subsection \<open>Which callbacks run\<close>

text \<open>
  Callbacks that leave a note in the environment: the notes of a turn say which callbacks it ran.
\<close>

locale noted_callbacks = loop_callbacks cbs for cbs :: "nat \<Rightarrow> ('f, 'w) evloop callbacks" +
  fixes journal :: "'w \<Rightarrow> 'n list" and note_of :: "nat \<Rightarrow> event_kind \<Rightarrow> 'n"
  assumes leaves_note: "callback_of (cbs i) k = Some g \<Longrightarrow> g l = Some l' \<Longrightarrow> journal (env l') = journal (env l) @ [note_of i k]"

text \<open>The calls that the pending events of channel \<open>i\<close> ask for.\<close>

definition due :: "(nat \<Rightarrow> ('f, 'w) evloop callbacks) \<Rightarrow> ('f, 'w) evloop \<Rightarrow> nat \<Rightarrow> event_kind \<Rightarrow> bool" where
  "due cbs l i k \<longleftrightarrow> pends (channel_at i l) k \<and> callback_of (cbs i) k \<noteq> None"

definition due_calls :: "(nat \<Rightarrow> ('f, 'w) evloop callbacks) \<Rightarrow> ('f, 'w) evloop \<Rightarrow> (nat \<times> event_kind) list" where
  "due_calls cbs l = concat (map (\<lambda>i. map (Pair i) (filter (due cbs l i) event_order)) (activedChannels l))"

lemma due_flags: "flags_at l i = flags_at l' i \<Longrightarrow> flags_at l i \<noteq> None \<Longrightarrow> due cbs l i = due cbs l' i"
proof (rule ext)
  assume fl: "flags_at l i = flags_at l' i" "flags_at l i \<noteq> None"
  then have "event_flags (channel_at i l) = event_flags (channel_at i l')"
    by (auto simp: flags_at_def channel_at_def)
  then have "pends (channel_at i l) k = pends (channel_at i l') k" for k
    by (rule pends_flags)
  then show "due cbs l i k = due cbs l' i k" for k
    by (simp add: due_def)
qed

lemma distinct_calls: "distinct is \<Longrightarrow> distinct (concat (map (\<lambda>i. map (Pair i) (filter (P i) event_order)) is))"
  by (induction "is") (auto simp: distinct_map inj_on_def)

lemma due_calls_set:
  assumes "active_ok l"
  shows "distinct (due_calls cbs l)"
    "(i, k) \<in> set (due_calls cbs l) \<longleftrightarrow> (\<exists>c. channels l i = Some c \<and> pends c k) \<and> callback_of (cbs i) k \<noteq> None"
proof -
  show "distinct (due_calls cbs l)"
    unfolding due_calls_def by (rule distinct_calls [OF active_okD(1) [OF assms]])
  have "(i, k) \<in> set (due_calls cbs l) \<longleftrightarrow> i \<in> set (activedChannels l) \<and> due cbs l i k"
    by (auto simp: due_calls_def)
  moreover have "i \<in> set (activedChannels l)" if "channels l i = Some c" "pends c k" for c
  proof -
    have "pending_events c"
      using that(2) by (cases k) (simp_all add: pending_events_def)
    then show ?thesis
      using active_okD(2,4) [OF assms that(1)] by (simp add: listed_def)
  qed
  moreover have "\<exists>c. channels l i = Some c" if "i \<in> set (activedChannels l)"
    using active_okD(3) [OF assms, of i] that by auto
  ultimately show "(i, k) \<in> set (due_calls cbs l) \<longleftrightarrow> (\<exists>c. channels l i = Some c \<and> pends c k) \<and> callback_of (cbs i) k \<noteq> None"
    by (auto simp: due_def channel_at_def)
qed

context noted_callbacks
begin

lemma fire_notes:
  assumes "fire (channel_at i) (change_channel i) flag clear (map_option (alive i) (callback_of (cbs i) k)) l = Some l'"
    and "\<And>c. flag c = pends c k"
  shows "journal (env l') = journal (env l) @ (if due cbs l i k then [note_of i k] else [])"
  using assms leaves_note
  by (auto simp: fire_def due_def change_channel_def alive_def bind_eq_Some_conv split: if_splits option.splits)

lemma handle_channel_notes:
  assumes fl: "flags_at l i \<noteq> None" and h: "handle_channel cbs i l = Some l'"
  shows "journal (env l') = journal (env l) @ map (note_of i) (filter (due cbs l i) event_order)"
proof -
  obtain ch where ch: "channels l i = Some ch"
    using fl by (auto simp: flags_at_def)
  let ?a = "ch_rclose ch" and ?b = "ch_rerror ch" and ?c = "ch_rread ch" and ?d = "ch_rwrite ch"
  have "flags_at l i = Some [?a, ?b, ?c, ?d, ch_actived ch]"
    using ch by (simp add: flags_at_def event_flags_def)
  then obtain l0 l1 l2 l3 l4 where l0: "l0 = change_channel i (\<lambda>c. c\<lparr>ch_actived := False\<rparr>) l"
    and s: "sets i [?a, ?b, ?c, ?d, False] l l0" "sets i [False, ?b, ?c, ?d, False] l0 l1"
      "sets i [False, False, ?c, ?d, False] l1 l2" "sets i [False, False, False, ?d, False] l2 l3"
    and f: "fire (channel_at i) (change_channel i) ch_rclose (\<lambda>c. c\<lparr>ch_rclose := False\<rparr>) (map_option (alive i) (closeCallback (cbs i))) l0 = Some l1"
      "fire (channel_at i) (change_channel i) ch_rerror (\<lambda>c. c\<lparr>ch_rerror := False\<rparr>) (map_option (alive i) (errorCallback (cbs i))) l1 = Some l2"
      "fire (channel_at i) (change_channel i) ch_rread (\<lambda>c. c\<lparr>ch_rread := False\<rparr>) (map_option (alive i) (readCallback (cbs i))) l2 = Some l3"
      "fire (channel_at i) (change_channel i) ch_rwrite (\<lambda>c. c\<lparr>ch_rwrite := False\<rparr>) (map_option (alive i) (writeCallback (cbs i))) l3 = Some l4"
    and l4: "handle_channel cbs i l = Some l4"
    by (rule handle_channel_stages)
  have at: "event_flags (channel_at i m) = xs" if "sets i xs n m" for xs m and n :: "('f, 'w) evloop"
    using that channel_at_flags unfolding sets_def by blast
  have due: "due cbs l0 i CloseEvent = due cbs l i CloseEvent" "due cbs l1 i ErrorEvent = due cbs l i ErrorEvent"
    "due cbs l2 i ReadEvent = due cbs l i ReadEvent" "due cbs l3 i WriteEvent = due cbs l i WriteEvent"
    using s [THEN at] ch by (simp_all add: due_def event_flags_def) (simp_all add: channel_at_def)
  have "journal (env l4) = journal (env l0) @ (if due cbs l i CloseEvent then [note_of i CloseEvent] else [])
      @ (if due cbs l i ErrorEvent then [note_of i ErrorEvent] else []) @ (if due cbs l i ReadEvent then [note_of i ReadEvent] else [])
      @ (if due cbs l i WriteEvent then [note_of i WriteEvent] else [])"
    using fire_notes [where k = CloseEvent and i = i, OF f(1) [folded callback_of.simps]]
      fire_notes [where k = ErrorEvent and i = i, OF f(2) [folded callback_of.simps]]
      fire_notes [where k = ReadEvent and i = i, OF f(3) [folded callback_of.simps]]
      fire_notes [where k = WriteEvent and i = i, OF f(4) [folded callback_of.simps]] due by simp
  moreover have "env l0 = env l"
    by (simp add: l0 change_channel_def)
  ultimately show ?thesis
    using h l4 by (simp add: event_order_def)
qed

lemma handle_channels_notes:
  assumes "distinct is" "\<And>i. i \<in> set is \<Longrightarrow> flags_at l i \<noteq> None" "handle_channels cbs is l = Some l'"
  shows "journal (env l') = journal (env l) @ concat (map (\<lambda>i. map (note_of i) (filter (due cbs l i) event_order)) is)"
  using assms
proof (induction "is" arbitrary: l)
  case (Cons i "is")
  obtain l1 where 1: "handle_channel cbs i l = Some l1" "sets i no_flags l l1"
    using handle_channel_clears [of l i] Cons.prems(2) [of i] by auto
  have same: "flags_at l1 j = flags_at l j" "flags_at l j \<noteq> None" if "j \<in> set is" for j
    using 1(2) Cons.prems(1,2) that unfolding sets_def by (metis distinct.simps(2) list.set_intros(2))+
  have "handle_channels cbs is l1 = Some l'"
    using Cons.prems(3) 1(1) by (simp split: if_splits)
  then have "journal (env l') = journal (env l1) @ concat (map (\<lambda>i. map (note_of i) (filter (due cbs l1 i) event_order)) is)"
    using Cons.IH [of l1] Cons.prems(1) same by simp
  moreover have "due cbs l1 j = due cbs l j" if "j \<in> set is" for j
    using due_flags [of l1 j l cbs] same [OF that] by simp
  ultimately show ?case
    using handle_channel_notes [OF _ 1(1)] Cons.prems(2) [of i] by (simp cong: map_cong)
qed simp

lemma handleActivedChannels_notes:
  assumes ok: "active_ok l" and h: "handleActivedChannels cbs l = Some l'"
  shows "journal (env l') = journal (env l) @ map (\<lambda>(i, k). note_of i k) (due_calls cbs l)"
proof -
  have "flags_at l i \<noteq> None" if "i \<in> set (activedChannels l)" for i
    using active_okD(3) [OF ok, of i] that by (auto simp: flags_at_def)
  moreover obtain l1 where "handle_channels cbs (activedChannels l) l = Some l1" "env l' = env l1"
    using h by (auto simp: handleActivedChannels_def bind_eq_Some_conv)
  ultimately show ?thesis
    using handle_channels_notes [OF active_okD(1) [OF ok]]
    by (simp add: due_calls_def map_concat o_def)
qed

end

end
