(* ===== verification/LoopCalls.thy ===== *)
theory LoopCalls
  imports LoopEvents
begin

section \<open>What callbacks and functors do to the loop\<close>

text \<open>
  The code that runs in a loop, callbacks and functors alike, acts on it through the interface of
  \<open>EventLoop\<close> and \<open>Channel\<close>.  A piece of such code is the list of its calls, chosen in view of the
  state it finds, and the change it makes to its own state.  A call on a channel that does not exist
  is not one a correct program makes, and is left out.
\<close>

subsection \<open>Calls\<close>

datatype adjustment = EnableRead | DisableRead | EnableWrite | DisableWrite | EnableAll | DisableAll
  | DisableReadable | DisableWriteable

fun adjust :: "adjustment \<Rightarrow> channel \<Rightarrow> channel" where
  "adjust EnableRead = enableRead"
| "adjust DisableRead = disableRead"
| "adjust EnableWrite = enableWrite"
| "adjust DisableWrite = disableWrite"
| "adjust EnableAll = enableAll"
| "adjust DisableAll = disableAll"
| "adjust DisableReadable = disableReadable"
| "adjust DisableWriteable = disableWriteable"

datatype 'f loop_call = RunInLoop 'f | Quit | Create nat nat | Open nat | Update nat | Close nat | Adjust nat adjustment

fun exec_call :: "32 word \<Rightarrow> 'f loop_call \<Rightarrow> ('f, 'w) evloop \<Rightarrow> ('f, 'w) evloop option" where
  "exec_call uninit (RunInLoop f) l = Some (runInLoop f l)"
| "exec_call uninit Quit l = Some (quit l)"
| "exec_call uninit (Create i fd) l = (if channels l i = None then Some (l\<lparr>channels := (channels l)(i \<mapsto> new_channel fd)\<rparr>) else None)"
| "exec_call uninit (Open i) l = on_channel uninit i open_ch l"
| "exec_call uninit (Update i) l = on_channel uninit i update_ch l"
| "exec_call uninit (Close i) l = on_channel uninit i close_ch l"
| "exec_call uninit (Adjust i a) l = on_channel uninit i (\<lambda>c. (adjust a c, [])) l"

fun exec_calls :: "32 word \<Rightarrow> 'f loop_call list \<Rightarrow> ('f, 'w) evloop \<Rightarrow> ('f, 'w) evloop" where
  "exec_calls uninit [] l = l"
| "exec_calls uninit (c # cs) l = exec_calls uninit cs (case exec_call uninit c l of None \<Rightarrow> l | Some l' \<Rightarrow> l')"

type_synonym ('f, 'w) script = "('f, 'w) evloop \<Rightarrow> 'f loop_call list \<times> 'w"

definition run_script :: "32 word \<Rightarrow> ('f, 'w) script \<Rightarrow> ('f, 'w) evloop \<Rightarrow> ('f, 'w) evloop option" where
  "run_script uninit sc l = (case sc l of (cs, w) \<Rightarrow> Some (exec_calls uninit cs (l\<lparr>env := w\<rparr>)))"

text \<open>The callbacks of a program: the loop's own for its \<open>eventfd\<close>, scripts for the other channels.\<close>

definition program_callbacks ::
  "32 word \<Rightarrow> (nat \<Rightarrow> event_kind \<Rightarrow> ('f, 'w) script option) \<Rightarrow> nat \<Rightarrow> ('f, 'w) evloop callbacks" where
  "program_callbacks uninit prog i =
     (if i = wakeupChannel
      then \<lparr>closeCallback = None, errorCallback = None, readCallback = Some handleWakeup, writeCallback = None\<rparr>
      else \<lparr>closeCallback = map_option (run_script uninit) (prog i CloseEvent),
            errorCallback = map_option (run_script uninit) (prog i ErrorEvent),
            readCallback = map_option (run_script uninit) (prog i ReadEvent),
            writeCallback = map_option (run_script uninit) (prog i WriteEvent)\<rparr>)"

subsection \<open>They keep the contract\<close>

lemma flags_adjust [simp]: "event_flags (adjust a c) = event_flags c"
  by (cases a) (simp_all add: event_flags_def enableRead_def disableRead_def enableWrite_def disableWrite_def
    enableAll_def disableAll_def disableReadable_def disableWriteable_def)

lemma flags_open_close [simp]: "event_flags (fst (open_ch c)) = event_flags c" "event_flags (fst (update_ch c)) = event_flags c"
  "event_flags (fst (close_ch c)) = event_flags c"
  by (simp_all add: event_flags_def open_ch_def update_ch_def close_ch_def)

lemma flags_new [simp]: "event_flags (new_channel fd) = no_flags"
  by (simp add: event_flags_def new_channel_def no_flags_def)

text \<open>A request other than that of the poller changes only the interest list.\<close>

lemma do_request_keeps:
  "r \<noteq> AddActived \<Longrightarrow> activedChannels (do_request u i c r l) = activedChannels l \<and> channels (do_request u i c r l) = channels l
    \<and> pendingFunctors (do_request u i c r l) = pendingFunctors l \<and> wakeupCount (do_request u i c r l) = wakeupCount l
    \<and> wakeupEdge (do_request u i c r l) = wakeupEdge l \<and> quit_flag (do_request u i c r l) = quit_flag l"
  by (cases r) (simp_all add: addChannel_def updateChannel_def removeChannel_def)

lemma on_channel_keeps:
  assumes o: "on_channel u i f l = Some l'" and f: "\<And>c. event_flags (fst (f c)) = event_flags c"
    and r: "\<And>c. snd (f c) \<in> {[], [AddChannel], [UpdateChannel], [RemoveChannel]}"
  shows "keeps l l'" "pendingFunctors l' = pendingFunctors l" "wakeupCount l' = wakeupCount l" "wakeupEdge l' = wakeupEdge l"
    "quit_flag l' = quit_flag l"
proof -
  obtain c where c: "channels l i = Some c"
    using o by (auto simp: on_channel_def split: option.splits)
  obtain c' rs where fc: "f c = (c', rs)" by fastforce
  have fl: "event_flags c' = event_flags c" and rs: "rs \<in> {[], [AddChannel], [UpdateChannel], [RemoveChannel]}"
    using f [of c] r [of c] fc by simp_all
  let ?l = "l\<lparr>channels := (channels l)(i \<mapsto> c')\<rparr>"
  have l': "l' = fold (do_request u i c') rs ?l"
    using o c fc by (simp add: on_channel_def)
  have s: "activedChannels l' = activedChannels l \<and> channels l' = (channels l)(i \<mapsto> c')
    \<and> pendingFunctors l' = pendingFunctors l \<and> wakeupCount l' = wakeupCount l \<and> wakeupEdge l' = wakeupEdge l
    \<and> quit_flag l' = quit_flag l"
    using rs unfolding l' by (auto simp: addChannel_def updateChannel_def removeChannel_def)
  then show "pendingFunctors l' = pendingFunctors l" "wakeupCount l' = wakeupCount l" "wakeupEdge l' = wakeupEdge l"
    "quit_flag l' = quit_flag l"
    by simp_all
  show "keeps l l'"
    using s fl c by (simp add: keeps_def grows_def flags_at_def)
qed

lemma call_requests:
  "snd (open_ch c) \<in> {[], [AddChannel], [UpdateChannel], [RemoveChannel]}"
  "snd (update_ch c) \<in> {[], [AddChannel], [UpdateChannel], [RemoveChannel]}"
  "snd (close_ch c) \<in> {[], [AddChannel], [UpdateChannel], [RemoveChannel]}"
  by (simp_all add: open_ch_def update_ch_def close_ch_def)

lemmas on_channel_open = on_channel_keeps [where f = open_ch, OF _ flags_open_close(1) call_requests(1)]
lemmas on_channel_update = on_channel_keeps [where f = update_ch, OF _ flags_open_close(2) call_requests(2)]
lemmas on_channel_close = on_channel_keeps [where f = close_ch, OF _ flags_open_close(3) call_requests(3)]

lemma on_channel_adjust:
  assumes "on_channel u i (\<lambda>c. (adjust a c, [])) l = Some l'"
  shows "keeps l l'" "pendingFunctors l' = pendingFunctors l" "wakeupCount l' = wakeupCount l" "wakeupEdge l' = wakeupEdge l"
    "quit_flag l' = quit_flag l"
  using on_channel_keeps [OF assms] by simp_all

lemmas on_channel_calls = on_channel_open on_channel_update on_channel_close on_channel_adjust

lemma exec_call_keeps:
  assumes "exec_call u c l = Some l'"
  shows "keeps l l'"
proof (cases c)
  case (RunInLoop f)
  then show ?thesis
    using assms by (auto simp: keeps_def grows_def flags_at_def runInLoop_def wakeup_def push_functor_def)
next
  case Quit
  then show ?thesis
    using assms by (auto simp: keeps_def grows_def flags_at_def quit_def wakeup_def)
next
  case (Create i fd)
  then show ?thesis
    using assms by (auto simp: keeps_def grows_def flags_at_def split: if_splits)
qed (use assms in \<open>auto intro: on_channel_calls\<close>)

lemma exec_calls_keeps: "keeps l (exec_calls u cs l)"
proof (induction cs arbitrary: l)
  case (Cons c cs)
  show ?case
  proof (cases "exec_call u c l")
    case (Some l')
    then show ?thesis
      using keeps_trans [OF exec_call_keeps [OF Some] Cons.IH [of l']] by simp
  qed (use Cons.IH in simp)
qed simp

lemma run_script_keeps: "\<exists>l'. run_script u sc l = Some l' \<and> keeps l l'"
proof -
  obtain cs w where "sc l = (cs, w)" by fastforce
  moreover have "keeps l (l\<lparr>env := w\<rparr>)"
    by (simp add: keeps_def grows_def flags_at_def)
  ultimately show ?thesis
    using keeps_trans [OF _ exec_calls_keeps, of l "l\<lparr>env := w\<rparr>" u cs] by (simp add: run_script_def)
qed

lemma handleWakeup_keeps:
  assumes "channels l wakeupChannel \<noteq> None"
  shows "\<exists>l'. handleWakeup l = Some l' \<and> keeps l l'"
proof -
  obtain c where c: "channels l wakeupChannel = Some c"
    using assms by auto
  have "event_flags (disableReadable c) = event_flags c"
    using flags_adjust [of DisableReadable c] by simp
  then show ?thesis
    using c by (simp add: handleWakeup_def on_channel_def keeps_def grows_def flags_at_def)
qed

interpretation program: loop_callbacks "program_callbacks uninit prog" for uninit prog
proof
  fix f :: "(('a, 'b) evloop \<Rightarrow> ('a, 'b) evloop option) option" and i g and l :: "('a, 'b) evloop"
  assume f: "f \<in> {closeCallback (program_callbacks uninit prog i), errorCallback (program_callbacks uninit prog i),
      readCallback (program_callbacks uninit prog i), writeCallback (program_callbacks uninit prog i)}"
    and g: "f = Some g" and i: "channels l i \<noteq> None"
  show "\<exists>l'. g l = Some l' \<and> keeps l l'"
  proof (cases "i = wakeupChannel")
    case True
    then have "g = handleWakeup"
      using f g by (auto simp: program_callbacks_def)
    then show ?thesis
      using handleWakeup_keeps True i by blast
  next
    case False
    then obtain sc where "g = run_script uninit sc"
      using f g by (auto simp: program_callbacks_def eq_commute [of "Some g"])
    then show ?thesis
      using run_script_keeps by blast
  qed
qed

subsection \<open>Callbacks that leave a note\<close>

text \<open>
  To state which callbacks a turn runs, the environment is the program's own state with a list of the
  calls so far.  Every callback first adds its channel and event to the list; the program's scripts
  read and replace only their own part.
\<close>

type_synonym 'v noted = "'v \<times> (nat \<times> event_kind) list"

definition take_note :: "nat \<Rightarrow> event_kind \<Rightarrow> ('f, 'v noted) evloop \<Rightarrow> ('f, 'v noted) evloop" where
  "take_note i k l = l\<lparr>env := (fst (env l), snd (env l) @ [(i, k)])\<rparr>"

definition noting :: "nat \<Rightarrow> ('f, 'v noted) evloop callbacks \<Rightarrow> ('f, 'v noted) evloop callbacks" where
  "noting i cb = \<lparr>closeCallback = map_option (\<lambda>g l. g (take_note i CloseEvent l)) (closeCallback cb),
     errorCallback = map_option (\<lambda>g l. g (take_note i ErrorEvent l)) (errorCallback cb),
     readCallback = map_option (\<lambda>g l. g (take_note i ReadEvent l)) (readCallback cb),
     writeCallback = map_option (\<lambda>g l. g (take_note i WriteEvent l)) (writeCallback cb)\<rparr>"

type_synonym ('f, 'v) own_program = "nat \<Rightarrow> event_kind \<Rightarrow> (('f, 'v noted) evloop \<Rightarrow> 'f loop_call list \<times> 'v) option"

definition own_scripts :: "('f, 'v) own_program \<Rightarrow> nat \<Rightarrow> event_kind \<Rightarrow> ('f, 'v noted) script option" where
  "own_scripts prog i k = map_option (\<lambda>sc l. (fst (sc l), (snd (sc l), snd (env l)))) (prog i k)"

definition noted_program :: "32 word \<Rightarrow> ('f, 'v) own_program \<Rightarrow> nat \<Rightarrow> ('f, 'v noted) evloop callbacks" where
  "noted_program uninit prog i = noting i (program_callbacks uninit (own_scripts prog) i)"

lemma callback_noting: "callback_of (noting i cb) k = map_option (\<lambda>g l. g (take_note i k l)) (callback_of cb k)"
  by (cases k) (simp_all add: noting_def)

lemma callback_in: "callback_of cb k \<in> {closeCallback cb, errorCallback cb, readCallback cb, writeCallback cb}"
  by (cases k) simp_all

lemma callback_named:
  assumes "f \<in> {closeCallback cb, errorCallback cb, readCallback cb, writeCallback cb}"
  obtains k where "f = callback_of cb k"
  using assms that [of CloseEvent] that [of ErrorEvent] that [of ReadEvent] that [of WriteEvent] by auto

lemma callback_set: "callback_of (noted_program u prog i) k \<noteq> None \<longleftrightarrow> (if i = wakeupChannel then k = ReadEvent else prog i k \<noteq> None)"
  unfolding noted_program_def callback_noting by (cases k) (simp_all add: program_callbacks_def own_scripts_def)

text \<open>Calls on the loop leave the environment alone.\<close>

lemma do_request_env [simp]: "env (do_request u i c r l) = env l"
  by (cases r) (simp_all add: addChannel_def updateChannel_def removeChannel_def addActivedChannel_def)

lemma do_requests_env [simp]: "env (fold (do_request u i c) rs l) = env l"
  by (induction rs arbitrary: l) simp_all

lemma on_channel_env: "on_channel u i f l = Some l' \<Longrightarrow> env l' = env l"
  by (auto simp: on_channel_def split: option.splits prod.splits)

lemma exec_call_env: "exec_call u c l = Some l' \<Longrightarrow> env l' = env l"
  by (cases c) (auto simp: runInLoop_def wakeup_def push_functor_def quit_def split: if_splits dest: on_channel_env)

lemma exec_calls_env [simp]: "env (exec_calls u cs l) = env l"
  by (induction cs arbitrary: l) (auto split: option.split dest: exec_call_env)

lemma program_callback_notes:
  assumes "callback_of (program_callbacks u (own_scripts prog) i) k = Some g" "g l = Some l'"
  shows "snd (env l') = snd (env l)"
proof (cases "i = wakeupChannel")
  case True
  then have "g = handleWakeup"
    using assms(1) by (cases k) (simp_all add: program_callbacks_def)
  then show ?thesis
    using assms(2) by (auto simp: handleWakeup_def dest: on_channel_env)
next
  case False
  then obtain sc where "g = run_script u (\<lambda>l. (fst (sc l), (snd (sc l), snd (env l))))"
    using assms(1) by (cases k) (auto simp: program_callbacks_def own_scripts_def)
  then show ?thesis
    using assms(2) by (auto simp: run_script_def)
qed

interpretation recorded: noted_callbacks "noted_program u prog" snd Pair for u prog
proof
  fix f :: "(('a, 'b noted) evloop \<Rightarrow> ('a, 'b noted) evloop option) option" and i g and l :: "('a, 'b noted) evloop"
  let ?cb = "program_callbacks u (own_scripts prog) i"
  assume f: "f \<in> {closeCallback (noted_program u prog i), errorCallback (noted_program u prog i),
      readCallback (noted_program u prog i), writeCallback (noted_program u prog i)}"
    and g: "f = Some g" and i: "channels l i \<noteq> None"
  from f obtain k where "f = callback_of (noted_program u prog i) k"
    by (rule callback_named)
  then obtain h where h: "callback_of ?cb k = Some h" "g = (\<lambda>l. h (take_note i k l))"
    using g by (cases "callback_of ?cb k") (auto simp: noted_program_def callback_noting)
  have "\<exists>l'. h (take_note i k l) = Some l' \<and> keeps (take_note i k l) l'"
    by (rule program.keeps [OF callback_in h(1)]) (use i in \<open>simp add: take_note_def\<close>)
  moreover have "keeps l (take_note i k l)"
    by (simp add: keeps_def grows_def flags_at_def take_note_def)
  ultimately show "\<exists>l'. g l = Some l' \<and> keeps l l'"
    using h(2) keeps_trans by blast
next
  fix i k g and l l' :: "('a, 'b noted) evloop"
  assume "callback_of (noted_program u prog i) k = Some g" "g l = Some l'"
  then obtain h where "callback_of (program_callbacks u (own_scripts prog) i) k = Some h" "h (take_note i k l) = Some l'"
    by (auto simp: noted_program_def callback_noting)
  then show "snd (env l') = snd (env l) @ [(i, k)]"
    using program_callback_notes [of u prog i k h "take_note i k l" l'] by (simp add: take_note_def)
qed

subsection \<open>Property\<close>

text \<open>
  C2: no event is lost and none is handled twice.  A turn's poll makes pending exactly the reported
  events for which the channel is ready (the interest is enabled and the last event of the kind was
  served), beside those already pending.  Then the turn runs exactly the callbacks of the pending
  events: each once, channel by channel in the order of the active list, close, error, read and
  write, whatever calls the callbacks make, and without undefined behaviour.  It ends with an empty
  list and no received event unhandled.
\<close>

theorem turn_handles_all_events:
  assumes "active_ok l" "epoll_ok ew"
  shows "\<exists>l1 l2 calls. poll uninit ew l = Some l1 \<and> active_ok l1
    \<and> (\<forall>i c. channels l i = Some c \<longrightarrow> (\<exists>c'. channels l1 i = Some c'
         \<and> (\<forall>k. pends c' k \<longleftrightarrow> pends c k \<or> ready c k \<and> reported ew l i k)))
    \<and> handleActivedChannels (noted_program uninit prog) l1 = Some l2 \<and> active_ok l2
    \<and> snd (env l2) = snd (env l1) @ calls
    \<and> calls = due_calls (noted_program uninit prog) l1 \<and> distinct calls
    \<and> (\<forall>i k. (i, k) \<in> set calls \<longleftrightarrow> (\<exists>c. channels l1 i = Some c \<and> pends c k)
         \<and> (if i = wakeupChannel then k = ReadEvent else prog i k \<noteq> None))
    \<and> activedChannels l2 = [] \<and> (\<forall>i c. channels l2 i = Some c \<longrightarrow> \<not> pending_events c)"
proof -
  obtain l1 where 1: "poll uninit ew l = Some l1" "active_ok l1"
    using poll_ok [OF assms] by blast
  obtain l2 where 2: "handleActivedChannels (noted_program uninit prog) l1 = Some l2" "active_ok l2"
    "activedChannels l2 = []" "\<forall>i c. channels l2 i = Some c \<longrightarrow> \<not> pending_events c"
    using recorded.handleActivedChannels_correct [OF 1(2)] by blast
  have "snd (env l2) = snd (env l1) @ due_calls (noted_program uninit prog) l1"
    using recorded.handleActivedChannels_notes [OF 1(2) 2(1)] by simp
  moreover have "\<forall>i c. channels l i = Some c \<longrightarrow> (\<exists>c'. channels l1 i = Some c'
      \<and> (\<forall>k. pends c' k \<longleftrightarrow> pends c k \<or> ready c k \<and> reported ew l i k))"
    using poll_pends [OF assms(2) 1(1)] by blast
  moreover have "(i, k) \<in> set (due_calls (noted_program uninit prog) l1) \<longleftrightarrow> (\<exists>c. channels l1 i = Some c \<and> pends c k)
      \<and> (if i = wakeupChannel then k = ReadEvent else prog i k \<noteq> None)" for i k
    using due_calls_set(2) [OF 1(2)] callback_set by metis
  ultimately show ?thesis
    using 1 2 due_calls_set(1) [OF 1(2)]
    by (intro exI [of _ l1] exI [of _ l2] exI [of _ "due_calls (noted_program uninit prog) l1"]) simp
qed

definition demo_loop :: "(nat, unit) evloop" where
  "demo_loop = the (new_loop 0 3 ())"

definition demo_epoll :: "(nat, unit) epoll_wait" where
  "demo_epoll n l = (if channels l 0 = None then None else Some [(EPOLLIN, 0), (EPOLLRDHUP OR EPOLLIN, 0)], l\<lparr>wakeupEdge := False\<rparr>)"

lemma demo_loop_ok: "active_ok demo_loop" "pendingFunctors demo_loop = []" "channels demo_loop 0 \<noteq> None"
  by (auto simp: demo_loop_def new_loop_def on_channel_def open_ch_def addChannel_def active_ok_def enableRead_def
      new_channel_def wakeupChannel_def listed_def pending_events_def)

lemma demo_epoll_ok: "epoll_ok demo_epoll"
  by (simp add: epoll_ok_def demo_epoll_def same_queue_def)

text \<open>Beside the \<open>eventfd\<close>, a connection: it is readable and its peer has closed; both callbacks are set.\<close>

definition two_channels :: "(nat, nat noted) evloop" where
  "two_channels = (let l = the (new_loop 0 3 (0, [])) in
     l\<lparr>channels := (channels l)(1 \<mapsto> enableRead (new_channel 7))\<rparr>)"

definition two_events :: "(nat, nat noted) epoll_wait" where
  "two_events n l = (if channels l 0 = None \<or> channels l 1 = None then None
     else Some [(EPOLLIN OR EPOLLRDHUP, 1), (EPOLLIN, 0)], l\<lparr>wakeupEdge := False\<rparr>)"

definition two_scripts :: "(nat, nat) own_program" where
  "two_scripts i k = (if k = CloseEvent then Some (\<lambda>l. ([Close i], fst (env l))) else if k = ReadEvent
     then Some (\<lambda>l. ([RunInLoop 9], fst (env l) + 1)) else None)"

lemma two_channels_ok: "active_ok two_channels"
  by (auto simp: two_channels_def Let_def new_loop_def on_channel_def open_ch_def addChannel_def active_ok_def enableRead_def
      new_channel_def wakeupChannel_def listed_def pending_events_def)

lemma two_events_ok: "epoll_ok two_events"
  by (simp add: epoll_ok_def two_events_def same_queue_def)

lemma two_channels_at: "channels two_channels 1 = Some (enableRead (new_channel 7))"
  by (simp add: two_channels_def Let_def)

lemma two_reported: "reported two_events two_channels 1 CloseEvent" "reported two_events two_channels 1 ReadEvent"
  by (simp_all add: reported_def two_events_def two_channels_def Let_def new_loop_def on_channel_def open_ch_def addChannel_def
      enableRead_def new_channel_def wakeupChannel_def epoll_flags)

lemma turn_handles_all_events_witness:
  "\<exists>l1 l2 calls. poll 0 two_events two_channels = Some l1 \<and> handleActivedChannels (noted_program 0 two_scripts) l1 = Some l2
    \<and> snd (env l2) = snd (env l1) @ calls \<and> distinct calls \<and> (1, CloseEvent) \<in> set calls \<and> (1, ReadEvent) \<in> set calls
    \<and> activedChannels l2 = []"
proof -
  have set: "two_scripts 1 CloseEvent \<noteq> None" "two_scripts 1 ReadEvent \<noteq> None"
    "ready (enableRead (new_channel 7)) CloseEvent" "ready (enableRead (new_channel 7)) ReadEvent" "(1::nat) \<noteq> wakeupChannel"
    by (simp_all add: two_scripts_def enableRead_def new_channel_def wakeupChannel_def)
  show ?thesis
    using turn_handles_all_events [OF two_channels_ok two_events_ok, of 0 two_scripts] two_channels_at two_reported set
    by metis
qed

end
