(* ===== verification/LoopWake.thy ===== *)
theory LoopWake
  imports LoopCalls
begin

section \<open>The loop and the other threads\<close>

text \<open>
  \<open>runInLoop\<close> and \<open>quit\<close> are called from any thread.  The system is the loop, the place of its
  thread, and the number of threads that have queued a functor (or stored \<open>quit_\<close>) and not yet
  written to the \<open>eventfd\<close>.  Two ghost lists record which functors were queued and which were run.
\<close>

subsection \<open>Steps\<close>

datatype 'f loop_place = NotStarted | AtTest | Polling | Handling | Doing | Running "'f list" | Returned

record ('f, 'w) loop_sys =
  lplace :: "'f loop_place"
  lp :: "('f, 'w) evloop"
  waking :: nat
  queued :: "'f list"
  ran :: "'f list"

text \<open>The functors that code running in the loop has queued.\<close>

definition new_functors :: "('f, 'w) evloop \<Rightarrow> ('f, 'w) evloop \<Rightarrow> 'f list" where
  "new_functors l l' = drop (length (pendingFunctors l)) (pendingFunctors l')"

definition loop_thread ::
  "32 word \<Rightarrow> ('f, 'w) epoll_wait \<Rightarrow> (nat \<Rightarrow> ('f, 'w) evloop callbacks) \<Rightarrow> ('f \<Rightarrow> ('f, 'w) evloop \<Rightarrow> ('f, 'w) evloop option)
   \<Rightarrow> ('f, 'w) loop_sys \<Rightarrow> ('f, 'w) loop_sys option" where
  "loop_thread u ew cbs run s =
     (case lplace s of
        NotStarted \<Rightarrow> Some (s\<lparr>lp := (lp s)\<lparr>quit_flag := False\<rparr>, lplace := AtTest\<rparr>)
      | AtTest \<Rightarrow> Some (s\<lparr>lplace := (if quit_flag (lp s) then Returned else Polling)\<rparr>)
      | Polling \<Rightarrow> do { l \<leftarrow> poll u ew (lp s); Some (s\<lparr>lp := l, lplace := Handling\<rparr>) }
      | Handling \<Rightarrow> do {
          l \<leftarrow> handleActivedChannels cbs (lp s);
          Some (s\<lparr>lp := l, lplace := Doing, queued := queued s @ new_functors (lp s) l\<rparr>) }
      | Doing \<Rightarrow> (case swap_functors (lp s) of (fs, l) \<Rightarrow> Some (s\<lparr>lp := l, lplace := Running fs\<rparr>))
      | Running [] \<Rightarrow> Some (s\<lparr>lplace := AtTest\<rparr>)
      | Running (f # fs) \<Rightarrow> do {
          l \<leftarrow> run f (lp s);
          Some (s\<lparr>lp := l, lplace := Running fs, queued := queued s @ new_functors (lp s) l, ran := ran s @ [f]\<rparr>) }
      | Returned \<Rightarrow> Some s)"

inductive loop_step ::
  "32 word \<Rightarrow> ('f, 'w) epoll_wait \<Rightarrow> (nat \<Rightarrow> ('f, 'w) evloop callbacks) \<Rightarrow> ('f \<Rightarrow> ('f, 'w) evloop \<Rightarrow> ('f, 'w) evloop option)
   \<Rightarrow> ('f, 'w) loop_sys \<Rightarrow> ('f, 'w) loop_sys \<Rightarrow> bool" for u ew cbs run where
  thread: "loop_thread u ew cbs run s = Some s' \<Longrightarrow> loop_step u ew cbs run s s'"
| push: "loop_step u ew cbs run s (s\<lparr>lp := push_functor f (lp s), waking := waking s + 1, queued := queued s @ [f]\<rparr>)"
| store_quit: "loop_step u ew cbs run s (s\<lparr>lp := (lp s)\<lparr>quit_flag := True\<rparr>, waking := waking s + 1\<rparr>)"
| wake: "0 < waking s \<Longrightarrow> loop_step u ew cbs run s (s\<lparr>lp := wakeup (lp s), waking := waking s - 1\<rparr>)"

inductive loop_reaches ::
  "32 word \<Rightarrow> ('f, 'w) epoll_wait \<Rightarrow> (nat \<Rightarrow> ('f, 'w) evloop callbacks) \<Rightarrow> ('f \<Rightarrow> ('f, 'w) evloop \<Rightarrow> ('f, 'w) evloop option)
   \<Rightarrow> ('f, 'w) loop_sys \<Rightarrow> ('f, 'w) loop_sys \<Rightarrow> bool" for u ew cbs run where
  here: "loop_reaches u ew cbs run s s"
| further: "loop_reaches u ew cbs run s t \<Longrightarrow> loop_step u ew cbs run t v \<Longrightarrow> loop_reaches u ew cbs run s v"

definition start_sys :: "('f, 'w) evloop \<Rightarrow> ('f, 'w) loop_sys" where
  "start_sys l = \<lparr>lplace = NotStarted, lp = l, waking = 0, queued = [], ran = []\<rparr>"

text \<open>Steps of the loop's thread alone; a turn in \<open>epoll_wait\<close> ends when it has something to report.\<close>

fun thread_steps ::
  "32 word \<Rightarrow> ('f, 'w) epoll_wait \<Rightarrow> (nat \<Rightarrow> ('f, 'w) evloop callbacks) \<Rightarrow> ('f \<Rightarrow> ('f, 'w) evloop \<Rightarrow> ('f, 'w) evloop option)
   \<Rightarrow> nat \<Rightarrow> ('f, 'w) loop_sys \<Rightarrow> ('f, 'w) loop_sys option" where
  "thread_steps u ew cbs run 0 s = Some s"
| "thread_steps u ew cbs run (Suc n) s = do { s' \<leftarrow> loop_thread u ew cbs run s; thread_steps u ew cbs run n s' }"

subsection \<open>The contract of a functor\<close>

text \<open>What makes \<open>epoll_wait\<close> return: the \<open>eventfd\<close> is not zero and was written since its last report.\<close>

definition readable :: "('f, 'w) evloop \<Rightarrow> bool" where
  "readable l \<longleftrightarrow> 0 < wakeupCount l \<and> wakeupEdge l"

definition wakes :: "('f, 'w) evloop \<Rightarrow> ('f, 'w) evloop \<Rightarrow> bool" where
  "wakes l l' \<longleftrightarrow> prefix (pendingFunctors l) (pendingFunctors l')
     \<and> (pendingFunctors l' \<noteq> pendingFunctors l \<longrightarrow> readable l') \<and> (readable l \<longrightarrow> readable l')
     \<and> (quit_flag l \<longrightarrow> quit_flag l')"

lemma wakes_trans: "wakes l1 l2 \<Longrightarrow> wakes l2 l3 \<Longrightarrow> wakes l1 l3"
  unfolding wakes_def by (metis prefix_order.trans)

definition idle_list :: "('f, 'w) evloop \<Rightarrow> bool" where
  "idle_list l \<longleftrightarrow> active_ok l \<and> activedChannels l = []"

definition running_list :: "'f loop_place \<Rightarrow> 'f list" where
  "running_list p = (case p of Running fs \<Rightarrow> fs | _ \<Rightarrow> [])"

text \<open>
  The invariant: the loop's list of active channels is in order, and empty except while handling;
  what was queued is what was run, is being run, or is pending; and while the thread is not on its
  way to the functors, pending ones mean that it is woken, or about to be.
\<close>

definition sys_ok :: "('f, 'w) loop_sys \<Rightarrow> bool" where
  "sys_ok s \<longleftrightarrow> (if lplace s = Handling then active_ok (lp s) else idle_list (lp s))
     \<and> queued s = ran s @ running_list (lplace s) @ pendingFunctors (lp s)
     \<and> (lplace s \<noteq> Handling \<and> lplace s \<noteq> Doing \<and> pendingFunctors (lp s) \<noteq> [] \<longrightarrow> 0 < waking s \<or> readable (lp s))
     \<and> (lplace s = Polling \<and> quit_flag (lp s) \<longrightarrow> 0 < waking s \<or> readable (lp s))"

lemma loop_place_next:
  assumes "loop_thread u ew cbs run s = Some s'"
  shows "lplace s = Polling \<Longrightarrow> lplace s' = Handling" "lplace s = Handling \<Longrightarrow> lplace s' = Doing"
    "lplace s = Doing \<Longrightarrow> \<exists>fs. lplace s' = Running fs"
  using assms by (auto simp: loop_thread_def swap_functors_def bind_eq_Some_conv)

locale loop_program = loop_callbacks cbs for cbs :: "nat \<Rightarrow> ('f, 'w) evloop callbacks" +
  fixes run :: "'f \<Rightarrow> ('f, 'w) evloop \<Rightarrow> ('f, 'w) evloop option"
  assumes run_wakes: "idle_list l \<Longrightarrow> \<exists>l'. run f l = Some l' \<and> wakes l l' \<and> idle_list l'"
begin

lemma loop_thread_ok:
  assumes ew: "epoll_ok ew" and ok: "sys_ok s"
  shows "\<exists>s'. loop_thread u ew cbs run s = Some s' \<and> sys_ok s'"
proof (cases "lplace s")
  case Polling
  then obtain l where "poll u ew (lp s) = Some l" "active_ok l" "same_queue (lp s) l"
    using poll_ok [OF _ ew, of "lp s" u] ok by (auto simp: sys_ok_def idle_list_def)
  then show ?thesis
    using Polling ok by (simp add: loop_thread_def sys_ok_def running_list_def same_queue_def)
next
  case Handling
  then obtain l where "handleActivedChannels cbs (lp s) = Some l" "active_ok l" "activedChannels l = []"
    "prefix (pendingFunctors (lp s)) (pendingFunctors l)"
    using handleActivedChannels_correct [of "lp s"] ok by (auto simp: sys_ok_def grows_def)
  then show ?thesis
    using Handling ok by (auto simp: loop_thread_def sys_ok_def running_list_def new_functors_def idle_list_def prefix_def)
next
  case (Running fs)
  show ?thesis
  proof (cases fs)
    case Nil
    then show ?thesis
      using Running ok by (simp add: loop_thread_def sys_ok_def running_list_def)
  next
    case (Cons f fs')
    obtain l where l: "run f (lp s) = Some l" "wakes (lp s) l" "idle_list l"
      using run_wakes [of "lp s" f] ok Running by (auto simp: sys_ok_def)
    obtain new where new: "pendingFunctors l = pendingFunctors (lp s) @ new"
      using l(2) by (auto simp: wakes_def prefix_def)
    then show ?thesis
      using l Cons Running ok
      by (auto simp: loop_thread_def sys_ok_def running_list_def new_functors_def wakes_def)
  qed
next
  case Doing
  then show ?thesis
    using ok by (auto simp: loop_thread_def sys_ok_def running_list_def swap_functors_def idle_list_def active_ok_def)
qed (use ok in \<open>auto simp: loop_thread_def sys_ok_def running_list_def idle_list_def active_ok_def readable_def\<close>)

lemma loop_step_ok: "loop_step u ew cbs run s s' \<Longrightarrow> epoll_ok ew \<Longrightarrow> sys_ok s \<Longrightarrow> sys_ok s'"
proof (induction rule: loop_step.induct)
  case (thread s s')
  then show ?case using loop_thread_ok [of ew s u] by auto
qed (auto simp: sys_ok_def idle_list_def active_ok_def push_functor_def wakeup_def readable_def split: if_splits)

lemma loop_reaches_ok: "loop_reaches u ew cbs run s t \<Longrightarrow> epoll_ok ew \<Longrightarrow> sys_ok s \<Longrightarrow> sys_ok t"
  by (induction rule: loop_reaches.induct) (auto dest: loop_step_ok)

text \<open>A request to quit that the thread can see stays until it returns.\<close>

lemma loop_thread_quit:
  assumes ew: "epoll_ok ew" and ok: "sys_ok s" and st: "loop_thread u ew cbs run s = Some s'"
    and q: "lplace s \<noteq> NotStarted" "quit_flag (lp s)"
  shows "lplace s' \<noteq> NotStarted \<and> quit_flag (lp s')"
proof (cases "lplace s")
  case Polling
  then show ?thesis
    using poll_ok [OF _ ew, of "lp s" u] ok q st by (auto simp: loop_thread_def sys_ok_def idle_list_def same_queue_def)
next
  case Handling
  then show ?thesis
    using handleActivedChannels_correct [of "lp s"] ok q st by (auto simp: loop_thread_def sys_ok_def grows_def)
next
  case (Running fs)
  then show ?thesis
    using run_wakes [of "lp s" "hd fs"] ok q st by (cases fs) (auto simp: loop_thread_def sys_ok_def wakes_def)
qed (use q st in \<open>auto simp: loop_thread_def swap_functors_def split: if_splits\<close>)

lemma loop_reaches_quit:
  "loop_reaches u ew cbs run s t \<Longrightarrow> epoll_ok ew \<Longrightarrow> sys_ok s \<Longrightarrow> lplace s \<noteq> NotStarted \<Longrightarrow> quit_flag (lp s)
    \<Longrightarrow> lplace t \<noteq> NotStarted \<and> quit_flag (lp t)"
proof (induction rule: loop_reaches.induct)
  case (further s t v)
  have ok: "sys_ok t"
    using loop_reaches_ok further.hyps(1) further.prems(1,2) by blast
  from further.hyps(2) further.IH [OF further.prems] show ?case
    by (cases rule: loop_step.cases)
      (auto simp: push_functor_def wakeup_def dest: loop_thread_quit [OF further.prems(1) ok])
qed simp

text \<open>From then on the thread's own steps lead to its return.\<close>

lemma running_returns:
  assumes ew: "epoll_ok ew"
  shows "sys_ok s \<Longrightarrow> lplace s = Running fs \<Longrightarrow> quit_flag (lp s) \<Longrightarrow> \<exists>n t. thread_steps u ew cbs run n s = Some t \<and> lplace t = Returned"
proof (induction fs arbitrary: s)
  case Nil
  then show ?case
    by (intro exI [of _ "2::nat"]) (simp add: numeral_2_eq_2 loop_thread_def)
next
  case (Cons f fs)
  obtain s' where s': "loop_thread u ew cbs run s = Some s'" "sys_ok s'"
    using loop_thread_ok [OF ew Cons.prems(1)] by blast
  then have "lplace s' = Running fs" "quit_flag (lp s')"
    using loop_thread_quit [OF ew Cons.prems(1) s'(1)] Cons.prems run_wakes [of "lp s" f]
    by (auto simp: loop_thread_def sys_ok_def)
  then obtain n t where "thread_steps u ew cbs run n s' = Some t" "lplace t = Returned"
    using Cons.IH s'(2) by blast
  then show ?case
    using s'(1) by (intro exI [of _ "Suc n"]) simp
qed

lemma one_step:
  assumes "epoll_ok ew" "sys_ok s" "lplace s \<noteq> NotStarted" "quit_flag (lp s)"
    and next_ret: "\<And>s'. loop_thread u ew cbs run s = Some s' \<Longrightarrow> sys_ok s' \<Longrightarrow> quit_flag (lp s')
      \<Longrightarrow> \<exists>n t. thread_steps u ew cbs run n s' = Some t \<and> lplace t = Returned"
  shows "\<exists>n t. thread_steps u ew cbs run n s = Some t \<and> lplace t = Returned"
proof -
  obtain s' where s': "loop_thread u ew cbs run s = Some s'" "sys_ok s'"
    using loop_thread_ok [OF assms(1,2)] by blast
  then obtain n t where "thread_steps u ew cbs run n s' = Some t" "lplace t = Returned"
    using next_ret loop_thread_quit [OF assms(1,2) s'(1) assms(3,4)] by blast
  then show ?thesis
    using s'(1) by (intro exI [of _ "Suc n"]) simp
qed

lemma thread_returns:
  assumes ew: "epoll_ok ew" and ok: "sys_ok s" and q: "lplace s \<noteq> NotStarted" "quit_flag (lp s)"
  shows "\<exists>n t. thread_steps u ew cbs run n s = Some t \<and> lplace t = Returned"
proof -
  let ?ret = "\<lambda>s. \<exists>n t. thread_steps u ew cbs run n s = Some t \<and> lplace t = Returned"
  have run: "?ret s" if "sys_ok s" "lplace s = Running fs" "quit_flag (lp s)" for s fs
    using running_returns [OF ew that] .
  have doing: "?ret s" if "sys_ok s" "lplace s = Doing" "quit_flag (lp s)" for s
    by (rule one_step [OF ew that(1) _ that(3)]) (use that(2) in \<open>auto dest: loop_place_next(3) intro: run\<close>)
  have handling: "?ret s" if "sys_ok s" "lplace s = Handling" "quit_flag (lp s)" for s
    by (rule one_step [OF ew that(1) _ that(3)]) (use that(2) in \<open>auto dest: loop_place_next(2) intro: doing\<close>)
  have polling: "?ret s" if "sys_ok s" "lplace s = Polling" "quit_flag (lp s)" for s
    by (rule one_step [OF ew that(1) _ that(3)]) (use that(2) in \<open>auto dest: loop_place_next(1) intro: handling\<close>)
  show ?thesis
  proof (cases "lplace s")
    case AtTest
    then show ?thesis
      using q(2) by (intro exI [of _ "1::nat"]) (simp add: loop_thread_def)
  next
    case Returned
    then show ?thesis by (intro exI [of _ "0::nat"]) simp
  qed (use q ok run doing handling polling in auto)
qed

end

subsection \<open>The program's functors\<close>

text \<open>
  A functor makes calls, as a callback does, and then releases objects: the channels it deletes.
\<close>

definition run_functor ::
  "32 word \<Rightarrow> ('f \<Rightarrow> ('f, 'w) script) \<Rightarrow> ('f \<Rightarrow> ('f, 'w) evloop \<Rightarrow> nat \<Rightarrow> bool) \<Rightarrow> 'f \<Rightarrow> ('f, 'w) evloop \<Rightarrow> ('f, 'w) evloop option" where
  "run_functor u code deletes f l = do {
     l' \<leftarrow> run_script u (code f) l;
     Some (l'\<lparr>channels := (\<lambda>i. if deletes f l' i then None else channels l' i)\<rparr>) }"

lemma exec_call_wakes:
  assumes "exec_call u c l = Some l'"
  shows "wakes l l'"
proof (cases c)
  case (RunInLoop f)
  then show ?thesis
    using assms by (auto simp: wakes_def readable_def runInLoop_def wakeup_def push_functor_def)
next
  case Quit
  then show ?thesis
    using assms by (auto simp: wakes_def readable_def quit_def wakeup_def)
next
  case (Create i fd)
  then show ?thesis
    using assms by (auto simp: wakes_def readable_def split: if_splits)
qed (use assms in \<open>auto simp: wakes_def readable_def on_channel_calls(2-5,7-10,12-15,17-20)\<close>)

lemma exec_calls_wakes: "wakes l (exec_calls u cs l)"
proof (induction cs arbitrary: l)
  case (Cons c cs)
  show ?case
  proof (cases "exec_call u c l")
    case (Some l')
    then show ?thesis
      using wakes_trans [OF exec_call_wakes [OF Some] Cons.IH [of l']] by simp
  qed (use Cons.IH in simp)
qed (simp add: wakes_def)

lemma keeps_idle:
  assumes "keeps l l'" "idle_list l"
  shows "idle_list l'"
proof -
  have "\<not> ch_actived c \<and> listed c" if c: "channels l' i = Some c" for i c
  proof -
    have "flags_at l' i = Some (event_flags c)"
      using c by (simp add: flags_at_def)
    then consider "event_flags c = no_flags" | c0 where "channels l i = Some c0" "event_flags c0 = event_flags c"
      using keepsD(3) [OF assms(1), of i] by (cases "channels l i") (auto simp: flags_at_def)
    then show ?thesis
    proof cases
      case 1
      then show ?thesis by (simp add: event_flags_def no_flags_def listed_def pending_events_def)
    next
      case 2
      then have "\<not> ch_actived c0 \<and> listed c0"
        using assms(2) by (auto simp: idle_list_def active_ok_def)
      with 2 show ?thesis by (auto simp: event_flags_def listed_def pending_events_def)
    qed
  qed
  then show ?thesis
    using keepsD(1) [OF assms(1)] assms(2) by (auto simp: idle_list_def active_ok_def)
qed

interpretation threads: loop_program "program_callbacks u prog" "run_functor u code deletes" for u prog code deletes
proof
  fix l :: "('a, 'b) evloop" and f
  assume idle: "idle_list l"
  obtain cs w where sc: "code f l = (cs, w)" by fastforce
  let ?l = "exec_calls u cs (l\<lparr>env := w\<rparr>)"
  let ?l' = "?l\<lparr>channels := (\<lambda>i. if deletes f ?l i then None else channels ?l i)\<rparr>"
  have "wakes l (l\<lparr>env := w\<rparr>)" "keeps l (l\<lparr>env := w\<rparr>)"
    by (simp_all add: wakes_def readable_def keeps_def grows_def flags_at_def)
  then have "wakes l ?l" "keeps l ?l"
    using wakes_trans [OF _ exec_calls_wakes] keeps_trans [OF _ exec_calls_keeps] by blast+
  moreover have "idle_list ?l'" if "idle_list ?l"
    using that by (auto simp: idle_list_def active_ok_def)
  ultimately have "wakes l ?l' \<and> idle_list ?l'"
    using keeps_idle [OF _ idle] by (simp add: wakes_def readable_def)
  then show "\<exists>l'. run_functor u code deletes f l = Some l' \<and> wakes l l' \<and> idle_list l'"
    by (simp add: run_functor_def run_script_def sc)
qed

subsection \<open>Properties\<close>

text \<open>
  C1: whatever the interleaving of the loop with other threads that queue functors or quit, and
  whatever calls the program's callbacks and functors make: the functors run in the order they were
  queued, each once; the loop's thread never meets undefined behaviour; and it never sleeps on a
  queued functor: while it waits, either the \<open>eventfd\<close> makes \<open>epoll_wait\<close> return or the thread that
  queued the functor is about to write to it.
\<close>

theorem functors_run_in_order:
  assumes "epoll_ok ew" "idle_list l" "pendingFunctors l = []"
    and r: "loop_reaches u ew (program_callbacks u prog) (run_functor u code deletes) (start_sys l) s"
  shows "queued s = ran s @ running_list (lplace s) @ pendingFunctors (lp s)
    \<and> (lplace s = Polling \<and> pendingFunctors (lp s) \<noteq> [] \<longrightarrow> 0 < waking s \<or> readable (lp s))
    \<and> loop_thread u ew (program_callbacks u prog) (run_functor u code deletes) s \<noteq> None"
proof -
  have "sys_ok (start_sys l)"
    using assms(2,3) by (simp add: sys_ok_def start_sys_def running_list_def)
  then have ok: "sys_ok s"
    using threads.loop_reaches_ok [OF r assms(1)] by blast
  obtain s' where "loop_thread u ew (program_callbacks u prog) (run_functor u code deletes) s = Some s'"
    using threads.loop_thread_ok [OF assms(1) ok] by blast
  with ok show ?thesis
    by (simp add: sys_ok_def)
qed

lemma functors_run_in_order_witness:
  "\<exists>s. loop_reaches 0 demo_epoll (program_callbacks 0 (\<lambda>_ _. None)) (run_functor 0 (\<lambda>_ _. ([], ())) (\<lambda>_ _ _. False)) (start_sys demo_loop) s
    \<and> queued s = [5] \<and> ran s @ running_list (lplace s) @ pendingFunctors (lp s) = [5]"
proof -
  let ?s = "(start_sys demo_loop)\<lparr>lp := push_functor 5 (lp (start_sys demo_loop)), waking := waking (start_sys demo_loop) + 1,
    queued := queued (start_sys demo_loop) @ [5]\<rparr>"
  have r: "loop_reaches 0 demo_epoll (program_callbacks 0 (\<lambda>_ _. None)) (run_functor 0 (\<lambda>_ _. ([], ())) (\<lambda>_ _ _. False)) (start_sys demo_loop) ?s"
    by (rule loop_reaches.further [OF loop_reaches.here loop_step.push])
  have "idle_list demo_loop"
    using demo_loop_ok(1) by (simp add: idle_list_def) (simp add: demo_loop_def new_loop_def on_channel_def open_ch_def
      addChannel_def enableRead_def new_channel_def)
  moreover have "queued ?s = [5]"
    by (simp add: start_sys_def)
  ultimately show ?thesis
    using functors_run_in_order [OF demo_epoll_ok _ demo_loop_ok(2) r] r by metis
qed

text \<open>
  C17: a request to quit that is made after the loop has started is not lost: whatever happens
  meanwhile, the loop's thread does not sleep on it, and from every later state it returns after
  finitely many steps of its own.
\<close>

theorem quit_ends_loop:
  assumes "epoll_ok ew" "idle_list l" "pendingFunctors l = []"
    and r: "loop_reaches u ew (program_callbacks u prog) (run_functor u code deletes) (start_sys l) s"
    and q: "lplace s \<noteq> NotStarted" "quit_flag (lp s)"
    and r': "loop_reaches u ew (program_callbacks u prog) (run_functor u code deletes) s t"
  shows "(lplace t = Polling \<longrightarrow> 0 < waking t \<or> readable (lp t))
    \<and> (\<exists>n v. thread_steps u ew (program_callbacks u prog) (run_functor u code deletes) n t = Some v \<and> lplace v = Returned)"
proof -
  have "sys_ok (start_sys l)"
    using assms(2,3) by (simp add: sys_ok_def start_sys_def running_list_def)
  then have ok: "sys_ok s"
    using threads.loop_reaches_ok [OF r assms(1)] by blast
  then have t: "sys_ok t" "lplace t \<noteq> NotStarted" "quit_flag (lp t)"
    using threads.loop_reaches_ok [OF r' assms(1)] threads.loop_reaches_quit [OF r' assms(1)] q by blast+
  then show ?thesis
    using threads.thread_returns [OF assms(1) t] by (simp add: sys_ok_def)
qed

text \<open>The kernel as documented for a loop with no channel but its own: it reports the \<open>eventfd\<close>, once.\<close>

definition wake_epoll :: "('f, 'w) epoll_wait" where
  "wake_epoll n l = (Some (if readable l \<and> channels l 0 \<noteq> None then [(EPOLLIN, 0)] else []), l\<lparr>wakeupEdge := False\<rparr>)"

lemma wake_epoll_ok: "epoll_ok wake_epoll"
  by (simp add: epoll_ok_def wake_epoll_def same_queue_def)

lemma demo_idle: "idle_list demo_loop"
  using demo_loop_ok(1) by (simp add: idle_list_def) (simp add: demo_loop_def new_loop_def on_channel_def open_ch_def
      addChannel_def enableRead_def new_channel_def)

lemma quit_ends_loop_witness:
  "\<exists>n v. thread_steps 0 wake_epoll (program_callbacks 0 (\<lambda>_ _. None)) (run_functor 0 (\<lambda>_ _. ([], ())) (\<lambda>_ _ _. False)) n
     \<lparr>lplace = AtTest, lp = demo_loop\<lparr>quit_flag := True\<rparr>, waking = 1, queued = [], ran = []\<rparr> = Some v \<and> lplace v = Returned"
proof -
  let ?cbs = "program_callbacks 0 (\<lambda>_ _. None) :: nat \<Rightarrow> (nat, unit) evloop callbacks"
  let ?run = "run_functor 0 (\<lambda>_ _. ([], ())) (\<lambda>_ _ _. False) :: nat \<Rightarrow> (nat, unit) evloop \<Rightarrow> (nat, unit) evloop option"
  let ?s = "(start_sys demo_loop)\<lparr>lp := demo_loop\<lparr>quit_flag := False\<rparr>, lplace := AtTest\<rparr>"
  let ?q = "?s\<lparr>lp := (lp ?s)\<lparr>quit_flag := True\<rparr>, waking := waking ?s + 1\<rparr>"
  have "loop_step 0 wake_epoll ?cbs ?run (start_sys demo_loop) ?s"
    by (rule loop_step.thread) (simp add: loop_thread_def start_sys_def)
  then have r: "loop_reaches 0 wake_epoll ?cbs ?run (start_sys demo_loop) ?q"
    by (rule loop_reaches.further [OF loop_reaches.further [OF loop_reaches.here] loop_step.store_quit])
  show ?thesis
    using quit_ends_loop [OF wake_epoll_ok demo_idle demo_loop_ok(2) r _ _ loop_reaches.here]
    by (simp add: start_sys_def)
qed

end
