(* ===== verification/LoopThread.thy ===== *)
theory LoopThread
  imports LoopWake
begin

section \<open>The loop and the steps of its thread\<close>

text \<open>
  \<open>loop\<close> is the code's function, run to its end; \<open>loop_thread\<close> is the same code as single steps, between
  which other threads may act.  Here the two are shown to agree when no other thread acts.
\<close>

text \<open>What is left of \<open>loop\<close> at a place.\<close>

definition rest_of ::
  "32 word \<Rightarrow> ('f, 'w) epoll_wait \<Rightarrow> (nat \<Rightarrow> ('f, 'w) evloop callbacks) \<Rightarrow> ('f \<Rightarrow> ('f, 'w) evloop \<Rightarrow> ('f, 'w) evloop option)
   \<Rightarrow> ('f, 'w) loop_sys \<Rightarrow> ('f, 'w) evloop option" where
  "rest_of u ew cbs run s =
     (let ts = turns u ew cbs run; pend = (\<lambda>l. doPendingFunctors run l \<bind> ts);
          handle = (\<lambda>l. handleActivedChannels cbs l \<bind> pend); l = lp s
      in case lplace s of
           NotStarted \<Rightarrow> loop u ew cbs run l
         | AtTest \<Rightarrow> ts l
         | Polling \<Rightarrow> poll u ew l \<bind> handle
         | Handling \<Rightarrow> handle l
         | Doing \<Rightarrow> pend l
         | Running fs \<Rightarrow> run_functors run fs l \<bind> ts
         | Returned \<Rightarrow> Some l)"

lemma turns_unfold:
  "turns u ew cbs run l = (if quit_flag l then Some l else
     poll u ew l \<bind> (\<lambda>l1. handleActivedChannels cbs l1 \<bind> (\<lambda>l2. doPendingFunctors run l2 \<bind> turns u ew cbs run)))"
  by (subst turns.simps) (simp add: turn_def bind_assoc)

text \<open>A step leaves what is left unchanged, and undefined behaviour of one is that of the other.\<close>

lemma rest_of_step:
  "rest_of u ew cbs run s = loop_thread u ew cbs run s \<bind> rest_of u ew cbs run"
proof (cases "lplace s")
  case AtTest
  then show ?thesis
    by (simp add: rest_of_def loop_thread_def Let_def) (simp add: turns_unfold)
next
  case (Running fs)
  then show ?thesis
    by (cases fs) (simp_all add: rest_of_def loop_thread_def Let_def bind_assoc)
next
  case Doing
  then show ?thesis
    by (simp add: rest_of_def loop_thread_def Let_def doPendingFunctors_def split: prod.splits)
qed (simp_all add: rest_of_def loop_thread_def Let_def loop_def bind_assoc)

lemma rest_of_steps: "thread_steps u ew cbs run n s = Some t \<Longrightarrow> rest_of u ew cbs run s = rest_of u ew cbs run t"
proof (induction n arbitrary: s)
  case (Suc n)
  then show ?case
    by (subst rest_of_step) (auto simp: bind_eq_Some_conv)
qed simp

text \<open>Steps can be put in front.\<close>

definition returns_with where
  "returns_with u ew cbs run s y \<longleftrightarrow> (\<exists>n t. thread_steps u ew cbs run n s = Some t \<and> lplace t = Returned \<and> lp t = y)"

lemma returns_with_step: "loop_thread u ew cbs run s = Some s' \<Longrightarrow> returns_with u ew cbs run s' y \<Longrightarrow> returns_with u ew cbs run s y"
  unfolding returns_with_def by (metis bind.bind_lunit thread_steps.simps(2))

lemma run_functors_returns:
  "run_functors run fs l = Some l' \<Longrightarrow> lplace s = Running fs \<Longrightarrow> lp s = l
    \<Longrightarrow> (\<And>s'. lplace s' = AtTest \<Longrightarrow> lp s' = l' \<Longrightarrow> returns_with u ew cbs run s' y) \<Longrightarrow> returns_with u ew cbs run s y"
proof (induction fs arbitrary: s l)
  case Nil
  have "loop_thread u ew cbs run s = Some (s\<lparr>lplace := AtTest\<rparr>)"
    using Nil.prems(2) by (simp add: loop_thread_def)
  then show ?case
    by (rule returns_with_step) (use Nil.prems in simp)
next
  case (Cons f fs)
  obtain l1 where l1: "run f l = Some l1" "run_functors run fs l1 = Some l'"
    using Cons.prems(1) by (auto simp: bind_eq_Some_conv)
  let ?s = "s\<lparr>lp := l1, lplace := Running fs, queued := queued s @ new_functors (lp s) l1, ran := ran s @ [f]\<rparr>"
  have "loop_thread u ew cbs run s = Some ?s"
    using Cons.prems(2,3) l1(1) by (simp add: loop_thread_def)
  then show ?case
    by (rule returns_with_step) (rule Cons.IH [OF l1(2)], use Cons.prems(4) in simp_all)
qed

lemma turn_returns:
  assumes t: "turn u ew cbs run l = Some l'" and s: "lplace s = AtTest" "lp s = l" "\<not> quit_flag l"
    and rec: "\<And>s'. lplace s' = AtTest \<Longrightarrow> lp s' = l' \<Longrightarrow> returns_with u ew cbs run s' y"
  shows "returns_with u ew cbs run s y"
proof -
  obtain l1 l2 where l: "poll u ew l = Some l1" "handleActivedChannels cbs l1 = Some l2" "doPendingFunctors run l2 = Some l'"
    using t by (auto simp: turn_def bind_eq_Some_conv)
  obtain fs l3 where sw: "swap_functors l2 = (fs, l3)" by fastforce
  then have rf: "run_functors run fs l3 = Some l'"
    using l(3) by (simp add: doPendingFunctors_def)
  let ?s1 = "s\<lparr>lplace := Polling\<rparr>"
  let ?s2 = "?s1\<lparr>lp := l1, lplace := Handling\<rparr>"
  let ?s3 = "?s2\<lparr>lp := l2, lplace := Doing, queued := queued s @ new_functors l1 l2\<rparr>"
  let ?s4 = "?s3\<lparr>lp := l3, lplace := Running fs\<rparr>"
  have "loop_thread u ew cbs run s = Some ?s1" "loop_thread u ew cbs run ?s1 = Some ?s2"
    "loop_thread u ew cbs run ?s2 = Some ?s3" "loop_thread u ew cbs run ?s3 = Some ?s4"
    using s l(1,2) sw by (simp_all add: loop_thread_def)
  moreover have "returns_with u ew cbs run ?s4 y"
    by (rule run_functors_returns [OF rf _ _ rec]) simp_all
  ultimately show ?thesis
    using returns_with_step by metis
qed

lemma turns_returns:
  assumes "turns u ew cbs run l = Some y"
  shows "\<forall>s. lplace s = AtTest \<and> lp s = l \<longrightarrow> returns_with u ew cbs run s y"
proof (rule turns.raw_induct [where P = "\<lambda>u ew cbs run l y. \<forall>s. lplace s = AtTest \<and> lp s = l \<longrightarrow> returns_with u ew cbs run s y",
      OF _ assms], intro allI impI)
  fix rec :: "32 word \<Rightarrow> ('a, 'b) epoll_wait \<Rightarrow> (nat \<Rightarrow> ('a, 'b) evloop callbacks) \<Rightarrow> ('a \<Rightarrow> ('a, 'b) evloop \<Rightarrow> ('a, 'b) evloop option)
     \<Rightarrow> ('a, 'b) evloop \<Rightarrow> ('a, 'b) evloop option"
    and u ew cbs run l y and s :: "('a, 'b) loop_sys"
  assume ih: "\<And>u ew cbs run l y. rec u ew cbs run l = Some y \<Longrightarrow> \<forall>s. lplace s = AtTest \<and> lp s = l \<longrightarrow> returns_with u ew cbs run s y"
    and body: "(if quit_flag l then Some l else do { l' \<leftarrow> turn u ew cbs run l; rec u ew cbs run l' }) = Some y"
    and s: "lplace s = AtTest \<and> lp s = l"
  show "returns_with u ew cbs run s y"
  proof (cases "quit_flag l")
    case True
    then have "thread_steps u ew cbs run 1 s = Some (s\<lparr>lplace := Returned\<rparr>)"
      using s by (simp add: loop_thread_def)
    then show ?thesis
      using body True s unfolding returns_with_def by fastforce
  next
    case False
    then obtain l' where "turn u ew cbs run l = Some l'" "rec u ew cbs run l' = Some y"
      using body by (auto simp: bind_eq_Some_conv)
    then show ?thesis
      using turn_returns s False ih by blast
  qed
qed

subsection \<open>Agreement\<close>

text \<open>
  The function \<open>loop\<close> and the steps of its thread agree: \<open>loop\<close> returns a state exactly when the
  thread alone, started on the same loop, comes to its end in that state after some number of steps.
\<close>

theorem loop_runs_thread:
  "loop u ew cbs run l = Some l' \<longleftrightarrow>
     (\<exists>n t. thread_steps u ew cbs run n (start_sys l) = Some t \<and> lplace t = Returned \<and> lp t = l')"
proof
  assume "loop u ew cbs run l = Some l'"
  then have "turns u ew cbs run (l\<lparr>quit_flag := False\<rparr>) = Some l'"
    by (simp add: loop_def)
  then have "returns_with u ew cbs run ((start_sys l)\<lparr>lp := l\<lparr>quit_flag := False\<rparr>, lplace := AtTest\<rparr>) l'"
    using turns_returns by fastforce
  then have "returns_with u ew cbs run (start_sys l) l'"
    by (rule returns_with_step [rotated]) (simp add: loop_thread_def start_sys_def)
  then show "\<exists>n t. thread_steps u ew cbs run n (start_sys l) = Some t \<and> lplace t = Returned \<and> lp t = l'"
    by (simp add: returns_with_def)
next
  assume "\<exists>n t. thread_steps u ew cbs run n (start_sys l) = Some t \<and> lplace t = Returned \<and> lp t = l'"
  then obtain n t where t: "thread_steps u ew cbs run n (start_sys l) = Some t" "lplace t = Returned" "lp t = l'"
    by blast
  have "rest_of u ew cbs run (start_sys l) = loop u ew cbs run l"
    by (simp add: rest_of_def start_sys_def)
  then show "loop u ew cbs run l = Some l'"
    using rest_of_steps [OF t(1)] t(2,3) by (simp add: rest_of_def)
qed

end
