(* ===== verification/LoopPool.thy ===== *)
theory LoopPool
  imports LoopThread
begin

section \<open>A pool of loops (net/EventLoopThreadPool.h, net/EventLoopThreadPool.cpp)\<close>

text \<open>
  \<open>EventLoopThreadPool\<close> owns a number of loops and runs each in a thread of its own.  The thread of
  loop \<open>i\<close> starts in \<open>start_sys\<close> of the loop; its steps are those of \<open>loop_thread\<close>.  The descriptors
  of the loops' \<open>eventfd\<close>s are given by the kernel.
\<close>

subsection \<open>Operations\<close>

record ('f, 'w) loop_pool =
  pool_count :: "32 word"
  pool_loops :: "('f, 'w) evloop list"
  pool_threads :: "nat list"

fun new_loops :: "32 word \<Rightarrow> (nat \<Rightarrow> nat) \<Rightarrow> 'w \<Rightarrow> nat \<Rightarrow> ('f, 'w) evloop list option" where
  "new_loops uninit fds w 0 = Some []"
| "new_loops uninit fds w (Suc i) = do {
     ls \<leftarrow> new_loops uninit fds w i;
     l \<leftarrow> new_loop uninit (fds i) w;
     Some (ls @ [l]) }"

definition new_loop_pool :: "32 word \<Rightarrow> (nat \<Rightarrow> nat) \<Rightarrow> 'w \<Rightarrow> 32 word \<Rightarrow> ('f, 'w) loop_pool option" where
  "new_loop_pool uninit fds w n = do {
     ls \<leftarrow> new_loops uninit fds w (unat n);
     Some \<lparr>pool_count = n, pool_loops = ls, pool_threads = []\<rparr> }"

definition getCount :: "('f, 'w) loop_pool \<Rightarrow> 32 word" where
  "getCount p = pool_count p"

text \<open>\<open>Some None\<close> is the null pointer, and \<open>None\<close> an access behind the end of the vector.\<close>

definition getLoop :: "32 word \<Rightarrow> ('f, 'w) loop_pool \<Rightarrow> nat option option" where
  "getLoop index p =
     (if index < pool_count p then (if unat index < length (pool_loops p) then Some (Some (unat index)) else None)
      else Some None)"

definition start_pool :: "('f, 'w) loop_pool \<Rightarrow> ('f, 'w) loop_pool" where
  "start_pool p = p\<lparr>pool_threads := pool_threads p @ [0..<unat (pool_count p)]\<rparr>"

text \<open>The destructor first asks every loop to quit, then joins the threads.\<close>

definition quit_pool :: "('f, 'w) loop_pool \<Rightarrow> ('f, 'w) loop_pool" where
  "quit_pool p = p\<lparr>pool_loops := map quit (pool_loops p)\<rparr>"

text \<open>
  Then it joins the threads and deletes the loops.  \<open>join i\<close> is the loop at the end of its thread,
  and \<open>None\<close> when the thread does not end.
\<close>

definition join_pool ::
  "(nat \<Rightarrow> ('f, 'w) evloop \<Rightarrow> ('f, 'w) evloop option) \<Rightarrow> ('f, 'w) loop_pool \<Rightarrow> ('f, 'w) evloop list option" where
  "join_pool join p =
     those (map (\<lambda>i. if i \<in> set (pool_threads p) then join i (pool_loops p ! i) else Some (pool_loops p ! i))
       [0..<length (pool_loops p)])"

definition delete_pool ::
  "(nat \<Rightarrow> ('f, 'w) evloop \<Rightarrow> ('f, 'w) evloop option) \<Rightarrow> ('f, 'w) loop_pool \<Rightarrow> ('f, 'w) evloop list option" where
  "delete_pool join p = do {
     ls \<leftarrow> join_pool join (quit_pool p);
     those (map delete_loop ls) }"

subsection \<open>Lemmas\<close>

lemma new_loop_Some:
  "new_loop u fd w = Some \<lparr>quit_flag = False, pendingFunctors = [], activedChannels = [],
     epollPoller = addChannel_ep u 0 (fst (open_ch (enableRead (new_channel fd)))) new_epoller,
     channels = [0 \<mapsto> fst (open_ch (enableRead (new_channel fd)))], wakeupCount = 0, wakeupEdge = False, env = w\<rparr>"
  by (simp add: new_loop_def on_channel_def open_ch_def wakeupChannel_def addChannel_def enableRead_def new_channel_def)

lemma new_loops_Some: "\<exists>ls :: ('f, 'w) evloop list. new_loops u fds w n = Some ls \<and> length ls = n \<and> (\<forall>i<n. new_loop u (fds i) w = Some (ls ! i))"
proof (induction n)
  case (Suc n)
  then obtain ls :: "('f, 'w) evloop list" where "new_loops u fds w n = Some ls" "length ls = n" "\<forall>i<n. new_loop u (fds i) w = Some (ls ! i)"
    by blast
  then show ?case
    by (simp add: new_loop_Some nth_append less_Suc_eq)
qed simp

lemma new_loop_pool_cases:
  assumes "new_loop_pool u fds w n = Some p"
  obtains ls where "p = \<lparr>pool_count = n, pool_loops = ls, pool_threads = []\<rparr>" "length ls = unat n"
    "\<forall>i<unat n. new_loop u (fds i) w = Some (ls ! i)"
proof -
  obtain ls where ls: "new_loops u fds w (unat n) = Some ls" "p = \<lparr>pool_count = n, pool_loops = ls, pool_threads = []\<rparr>"
    using assms by (auto simp: new_loop_pool_def bind_eq_Some_conv)
  have "\<exists>ls'. Some ls = Some ls' \<and> length ls' = unat n \<and> (\<forall>i<unat n. new_loop u (fds i) w = Some (ls' ! i))"
    unfolding ls(1) [symmetric] by (rule new_loops_Some)
  then show thesis
    using that ls(2) by auto
qed

lemma thread_steps_reaches: "thread_steps u ew cbs run n s = Some t \<Longrightarrow> loop_reaches u ew cbs run s0 s \<Longrightarrow> loop_reaches u ew cbs run s0 t"
proof (induction n arbitrary: s)
  case (Suc n)
  then obtain s' where "loop_thread u ew cbs run s = Some s'" "thread_steps u ew cbs run n s' = Some t"
    by (auto simp: bind_eq_Some_conv)
  then show ?case
    using Suc.IH loop_reaches.further [OF Suc.prems(2) loop_step.thread] by blast
qed simp

text \<open>A loop that is asleep: nothing will end its \<open>epoll_wait\<close>.\<close>

definition asleep :: "('f, 'w) loop_sys \<Rightarrow> bool" where
  "asleep s \<longleftrightarrow> lplace s = Polling \<and> \<not> quit_flag (lp s) \<and> waking s = 0 \<and> \<not> readable (lp s)
     \<and> fst (wake_epoll (eventSize (epollPoller (lp s))) (lp s)) = Some []"

lemma quit_new_loop_sleeps:
  assumes l: "new_loop u fd w = Some l"
  shows "\<exists>s. thread_steps u wake_epoll (program_callbacks u prog) run 7 (start_sys (quit l)) = Some s \<and> asleep s"
proof -
  note seven = eval_nat_numeral
  show ?thesis
    unfolding l [unfolded new_loop_Some option.inject, symmetric]
    by (simp add: seven loop_thread_def start_sys_def quit_def wakeup_def poll_def wake_epoll_def readable_def
       handleActivedChannels_def swap_functors_def asleep_def on_channel_def dispatch_def when_event_def epoll_flags
       onRead_ch_def onClose_ch_def onError_ch_def onWrite_ch_def open_ch_def enableRead_def new_channel_def
       addActivedChannel_ch_def addActivedChannel_def handle_channel_def handleEvents_def change_channel_def channel_at_def
       fire_def alive_callbacks_def alive_def program_callbacks_def wakeupChannel_def handleWakeup_def disableReadable_def
       new_functors_def)
qed

text \<open>
  The cycle of a loop whose \<open>quit_\<close> was reset and that has only its own channel: it polls, serves the
  \<open>eventfd\<close> when it was written, runs no functor, and polls again.
\<close>

definition own_channel :: "nat \<Rightarrow> channel" where
  "own_channel fd = fst (open_ch (enableRead (new_channel fd)))"

definition cycling :: "nat \<Rightarrow> ('f, 'w) loop_sys \<Rightarrow> bool" where
  "cycling fd s \<longleftrightarrow> pendingFunctors (lp s) = [] \<and> (lplace s \<noteq> NotStarted \<longrightarrow> \<not> quit_flag (lp s))
     \<and> lplace s \<in> {NotStarted, AtTest, Polling, Handling, Doing, Running []}
     \<and> (activedChannels (lp s) = [] \<and> channels (lp s) = [0 \<mapsto> own_channel fd]
        \<or> lplace s = Handling \<and> activedChannels (lp s) = [0]
          \<and> channels (lp s) = [0 \<mapsto> (own_channel fd)\<lparr>ch_readable := True, ch_rread := True, ch_actived := True\<rparr>])"

lemma poll_own:
  assumes "channels l = [0 \<mapsto> own_channel fd]" "activedChannels l = []" "pendingFunctors l = []" "\<not> quit_flag l"
  shows "\<exists>l'. poll u wake_epoll l = Some l' \<and> pendingFunctors l' = [] \<and> \<not> quit_flag l'
    \<and> (activedChannels l' = [] \<and> channels l' = [0 \<mapsto> own_channel fd]
       \<or> activedChannels l' = [0] \<and> channels l' = [0 \<mapsto> (own_channel fd)\<lparr>ch_readable := True, ch_rread := True, ch_actived := True\<rparr>])"
  using assms
  by (cases "readable l") (simp_all add: poll_def wake_epoll_def own_channel_def open_ch_def enableRead_def new_channel_def
      on_channel_def dispatch_def when_event_def epoll_flags onRead_ch_def addActivedChannel_ch_def addActivedChannel_def)

lemma handle_own:
  assumes "channels l = [0 \<mapsto> (own_channel fd)\<lparr>ch_readable := True, ch_rread := True, ch_actived := True\<rparr>]"
    "activedChannels l = [0]"
  shows "\<exists>l'. handleActivedChannels (program_callbacks u prog) l = Some l' \<and> pendingFunctors l' = pendingFunctors l
    \<and> quit_flag l' = quit_flag l \<and> activedChannels l' = [] \<and> channels l' = [0 \<mapsto> own_channel fd]"
  using assms
  by (simp add: handleActivedChannels_def handle_channel_def handleEvents_def change_channel_def channel_at_def
      fire_def alive_callbacks_def alive_def program_callbacks_def wakeupChannel_def handleWakeup_def disableReadable_def
      on_channel_def own_channel_def open_ch_def enableRead_def new_channel_def)

lemma cycling_step:
  assumes "cycling fd s"
  shows "\<exists>s'. loop_thread u wake_epoll (program_callbacks u prog) run s = Some s' \<and> cycling fd s'"
proof (cases "lplace s")
  case Polling
  then have "channels (lp s) = [0 \<mapsto> own_channel fd]" "activedChannels (lp s) = []" "pendingFunctors (lp s) = []" "\<not> quit_flag (lp s)"
    using assms by (simp_all add: cycling_def)
  then show ?thesis
    using poll_own [of "lp s" fd u] Polling by (auto simp: cycling_def loop_thread_def)
next
  case Handling
  then have c: "pendingFunctors (lp s) = []" "\<not> quit_flag (lp s)"
    "activedChannels (lp s) = [] \<and> channels (lp s) = [0 \<mapsto> own_channel fd]
      \<or> activedChannels (lp s) = [0] \<and> channels (lp s) = [0 \<mapsto> (own_channel fd)\<lparr>ch_readable := True, ch_rread := True, ch_actived := True\<rparr>]"
    using assms by (simp_all add: cycling_def)
  then have "\<exists>l'. handleActivedChannels (program_callbacks u prog) (lp s) = Some l' \<and> pendingFunctors l' = pendingFunctors (lp s)
      \<and> quit_flag l' = quit_flag (lp s) \<and> activedChannels l' = [] \<and> channels l' = [0 \<mapsto> own_channel fd]"
    using handle_own [of "lp s" fd u prog] by (elim disjE conjE) (simp add: handleActivedChannels_def, blast)
  then show ?thesis
    using c Handling by (auto simp: cycling_def loop_thread_def)
next
  case (Running fs)
  then show ?thesis
    using assms by (cases fs) (auto simp: cycling_def loop_thread_def)
qed (use assms in \<open>auto simp: cycling_def loop_thread_def swap_functors_def\<close>)

lemma cycling_steps:
  "cycling fd s \<Longrightarrow> \<exists>t. thread_steps u wake_epoll (program_callbacks u prog) run m s = Some t \<and> lplace t \<noteq> Returned"
proof (induction m arbitrary: s)
  case (Suc m)
  obtain s' where "loop_thread u wake_epoll (program_callbacks u prog) run s = Some s'" "cycling fd s'"
    using cycling_step [OF Suc.prems] by blast
  then show ?case
    using Suc.IH by simp
qed (auto simp: cycling_def)

lemma quit_new_loop_cycles:
  assumes "new_loop u fd w = Some l"
  shows "cycling fd (start_sys (quit l))"
  using assms by (auto simp: new_loop_Some cycling_def start_sys_def quit_def wakeup_def own_channel_def)

lemma those_None: "None \<in> set xs \<Longrightarrow> those xs = None"
  by (induction xs) (auto split: option.split)

subsection \<open>Properties\<close>

text \<open>
  C37: the destructor of a pool can hang.  If it asks the loops to quit after \<open>start\<close> but before the
  threads have entered \<open>loop\<close>, and no other thread acts on the loops, then every thread resets the
  flag, serves the wake-up and goes to sleep; whenever \<open>epoll_wait\<close> times out it goes round again and
  never returns.  So the joins never end, and the destructor does not return.
\<close>

theorem pool_join_can_hang:
  assumes "new_loop_pool u fds w n = Some p" "i \<in> set (pool_threads (start_pool p))"
  shows "(\<exists>m s. thread_steps u wake_epoll (program_callbacks u prog) run m (start_sys (pool_loops (quit_pool (start_pool p)) ! i)) = Some s
      \<and> asleep s)
    \<and> (\<forall>m. \<exists>s. thread_steps u wake_epoll (program_callbacks u prog) run m (start_sys (pool_loops (quit_pool (start_pool p)) ! i)) = Some s
      \<and> lplace s \<noteq> Returned)
    \<and> delete_pool (\<lambda>i. loop u wake_epoll (program_callbacks u prog) run) (start_pool p) = None"
proof -
  let ?steps = "thread_steps u wake_epoll (program_callbacks u prog) run" and ?loop = "loop u wake_epoll (program_callbacks u prog) run"
  obtain ls where p: "p = \<lparr>pool_count = n, pool_loops = ls, pool_threads = []\<rparr>" "length ls = unat n"
    and l: "\<forall>i<unat n. new_loop u (fds i) w = Some (ls ! i)"
    by (rule new_loop_pool_cases [OF assms(1)])
  have i: "i < unat n"
    using assms(2) p(1) by (simp add: start_pool_def)
  then have q: "pool_loops (quit_pool (start_pool p)) ! i = quit (ls ! i)"
    using p by (simp add: quit_pool_def start_pool_def)
  have new: "new_loop u (fds i) w = Some (ls ! i)"
    using l i by simp
  have never: "\<exists>s. ?steps m (start_sys (quit (ls ! i))) = Some s \<and> lplace s \<noteq> Returned" for m
    by (rule cycling_steps [OF quit_new_loop_cycles [OF new]])
  have "?loop (quit (ls ! i)) = None"
    using never loop_runs_thread [of u wake_epoll "program_callbacks u prog" run "quit (ls ! i)"]
    by (metis not_None_eq option.inject)
  then have "None \<in> set (map (\<lambda>i. if i \<in> set (pool_threads (quit_pool (start_pool p))) then ?loop (pool_loops (quit_pool (start_pool p)) ! i)
      else Some (pool_loops (quit_pool (start_pool p)) ! i)) [0..<length (pool_loops (quit_pool (start_pool p)))])"
    using i p q by (force simp: quit_pool_def start_pool_def)
  then have "delete_pool (\<lambda>i. ?loop) (start_pool p) = None"
    by (simp add: delete_pool_def join_pool_def those_None)
  then show ?thesis
    using quit_new_loop_sleeps [OF new] never unfolding q by blast
qed

lemma pool_join_can_hang_witness:
  "\<exists>p :: (nat, unit) loop_pool. new_loop_pool 0 (\<lambda>i. 3 + i) () 2 = Some p
    \<and> delete_pool (\<lambda>i. loop 0 wake_epoll (program_callbacks 0 (\<lambda>_ _. None)) (\<lambda>_. Some)) (start_pool p) = None"
proof -
  obtain ls :: "(nat, unit) evloop list" where "new_loops 0 (\<lambda>i. 3 + i) () (unat (2 :: 32 word)) = Some ls"
    using new_loops_Some [of 0 "\<lambda>i. 3 + i" "()" "unat (2 :: 32 word)", where 'f = nat] by metis
  then obtain p :: "(nat, unit) loop_pool" where p: "new_loop_pool 0 (\<lambda>i. 3 + i) () 2 = Some p" "pool_count p = 2"
    by (auto simp: new_loop_pool_def)
  then have "1 \<in> set (pool_threads (start_pool p))"
    by (simp add: start_pool_def)
  then show ?thesis
    using pool_join_can_hang [where prog = "\<lambda>_ _. None" and run = "\<lambda>_. Some" and i = 1, OF p(1)] p(1)
    by (intro exI [of _ p] conjI) simp_all
qed

text \<open>
  A pool of \<open>n\<close> loops gives for every index below \<open>n\<close> the loop of that index, and a null pointer for
  every other.
\<close>

theorem getLoop_total:
  assumes "new_loop_pool u fds w n = Some p"
  shows "getLoop i p = Some (if i < getCount p then Some (unat i) else None)"
proof -
  obtain ls where "p = \<lparr>pool_count = n, pool_loops = ls, pool_threads = []\<rparr>" "length ls = unat n"
    by (rule new_loop_pool_cases [OF assms])
  then show ?thesis
    by (simp add: getLoop_def getCount_def word_less_nat_alt)
qed

end
