(* ===== verification/Acceptor.thy ===== *)
theory Acceptor
  imports Sockets Channel "HOL-Library.Sublist"
begin

section \<open>Accepting connections (net/Acceptor.h, net/Acceptor.cpp)\<close>

text \<open>
  An \<open>Acceptor\<close> listens on a socket and hands each new connection to a callback.  \<open>listen\<close> and
  \<open>close\<close> may be called in any thread and queue a functor, an \<open>acceptor_task\<close>.  Its channel's requests
  to the loop come back as a list.  When the process is out of descriptors, \<open>onRead\<close> gives up a spare
  one to accept the connection and close it.  When \<open>socket\<close> fails the code goes on with descriptor
  -1: the model does not follow it there, and the constructor gives \<open>None\<close>.
\<close>

subsection \<open>State and operations\<close>

record acceptor =
  ac_local :: sockaddr_in
  ac_sock :: int
  ac_chan :: channel
  listenning :: bool
  accept_flag :: bool
  idleFd :: int

datatype acceptor_task = ListenInLoop | CloseInLoop

definition new_acceptor :: "'w kernel \<Rightarrow> sockaddr_in \<Rightarrow> 'w \<Rightarrow> (acceptor \<times> 'w) option" where
  "new_acceptor k addr w =
     (case open_sock k w of (r, w1) \<Rightarrow>
      if ret r < 0 then None
      else case k Sys_open_null w1 of (i, w2) \<Rightarrow>
           case bind_sock k (ret r) addr w2 of (_, w3) \<Rightarrow>
             Some (\<lparr>ac_local = addr, ac_sock = ret r, ac_chan = enableRead (new_channel (nat (ret r))),
                    listenning = False, accept_flag = False, idleFd = ret i\<rparr>, w3))"

definition delete_acceptor :: "'w kernel \<Rightarrow> acceptor \<times> 'w \<Rightarrow> 'w" where
  "delete_acceptor k s =
     (case s of (a, w) \<Rightarrow> case close_sock k (ac_sock a) w of (_, w1) \<Rightarrow> snd (k (Sys_close (idleFd a)) w1))"

definition setReuseAddr_ac :: "'w kernel \<Rightarrow> bool \<Rightarrow> acceptor \<times> 'w \<Rightarrow> acceptor \<times> 'w" where
  "setReuseAddr_ac k b s = (case s of (a, w) \<Rightarrow> (a, snd (setReuseAddr k (ac_sock a) b w)))"

definition listen_ac :: "acceptor \<Rightarrow> acceptor \<times> acceptor_task list" where
  "listen_ac a = (if accept_flag a then (a, []) else (a\<lparr>accept_flag := True\<rparr>, [ListenInLoop]))"

definition close_ac :: "acceptor \<Rightarrow> acceptor \<times> acceptor_task list" where
  "close_ac a = (if \<not> accept_flag a then (a, []) else (a\<lparr>accept_flag := False\<rparr>, [CloseInLoop]))"

definition listenInLoop :: "'w kernel \<Rightarrow> acceptor \<times> 'w \<Rightarrow> loop_request list \<times> acceptor \<times> 'w" where
  "listenInLoop k s =
     (case s of (a, w) \<Rightarrow>
      if \<not> accept_flag a \<or> listenning a then ([], s)
      else case listen_sock k (ac_sock a) w of (_, w1) \<Rightarrow>
           case open_ch (ac_chan a) of (ch, reqs) \<Rightarrow> (reqs, a\<lparr>listenning := True, ac_chan := ch\<rparr>, w1))"

definition closeInLoop :: "acceptor \<times> 'w \<Rightarrow> loop_request list \<times> acceptor \<times> 'w" where
  "closeInLoop s =
     (case s of (a, w) \<Rightarrow>
      if accept_flag a then ([], s)
      else case close_ch (ac_chan a) of (ch, reqs) \<Rightarrow> (reqs, a\<lparr>ac_chan := ch\<rparr>, w))"

type_synonym 'w accept_callback = "int \<Rightarrow> sockaddr_in \<Rightarrow> acceptor \<times> 'w \<Rightarrow> (acceptor \<times> 'w) option"

text \<open>The four calls that give up the spare descriptor and take it back.\<close>

definition drop_one :: "'w kernel \<Rightarrow> acceptor \<times> 'w \<Rightarrow> acceptor \<times> 'w" where
  "drop_one k s =
     (case s of (a, w) \<Rightarrow>
      case k (Sys_close (idleFd a)) w of (_, w1) \<Rightarrow>
      case accept_sock k (ac_sock a) False w1 of (r, w2) \<Rightarrow>
      case k (Sys_close (ret r)) w2 of (_, w3) \<Rightarrow>
      case k Sys_open_null w3 of (i, w4) \<Rightarrow> (a\<lparr>idleFd := ret i\<rparr>, w4))"

partial_function (option) accept_loop :: "'w kernel \<Rightarrow> 'w accept_callback option \<Rightarrow> acceptor \<times> 'w \<Rightarrow> (acceptor \<times> 'w) option" where
  "accept_loop k cb s =
     (case s of (a, w) \<Rightarrow>
      case accept_sock k (ac_sock a) True w of (r, w1) \<Rightarrow>
      if ret r < 0
      then (if errno r = EAGAIN then Some (a\<lparr>ac_chan := disableReadable (ac_chan a)\<rparr>, w1)
            else if errno r = EMFILE \<or> errno r = ENFILE then accept_loop k cb (drop_one k (a, w1))
            else Some (a, w1))
      else (case cb of
              Some f \<Rightarrow> do { s' \<leftarrow> f (ret r) (out_addr r) (a, w1); accept_loop k cb s' }
            | None \<Rightarrow> accept_loop k cb (a, snd (close_sock k (ret r) w1))))"

declare accept_loop.simps [code]

definition onRead_ac :: "'w kernel \<Rightarrow> 'w accept_callback option \<Rightarrow> acceptor \<times> 'w \<Rightarrow> (acceptor \<times> 'w) option" where
  "onRead_ac k cb s = (if \<not> accept_flag (fst s) then Some s else accept_loop k cb s)"

text \<open>What the loop does with a queued functor.\<close>

fun run_acceptor_task :: "'w kernel \<Rightarrow> acceptor_task \<Rightarrow> acceptor \<times> 'w \<Rightarrow> loop_request list \<times> acceptor \<times> 'w" where
  "run_acceptor_task k ListenInLoop s = listenInLoop k s"
| "run_acceptor_task k CloseInLoop s = closeInLoop s"

subsection \<open>The contract of the environment\<close>

text \<open>
  What Linux promises for a listening socket with a queue \<open>backlog\<close> of completed connections.  \<open>held\<close> is
  the set of open descriptors and \<open>room\<close> the number of free entries of the process's table.  \<open>accept\<close>
  looks for a free descriptor before it looks at the queue: it fails with \<open>EMFILE\<close> when there is none,
  with \<open>EAGAIN\<close> when the queue is empty, and else takes the first connection.  Closing a descriptor
  that is not open changes nothing.
\<close>

definition accepts ::
  "'w kernel \<Rightarrow> int \<Rightarrow> ('w \<Rightarrow> sockaddr_in list) \<Rightarrow> ('w \<Rightarrow> nat) \<Rightarrow> ('w \<Rightarrow> int set) \<Rightarrow> bool" where
  "accepts k sock backlog room held \<longleftrightarrow>
     (\<forall>w. -1 \<notin> held w)
     \<and> (\<forall>b w r w1. accept_sock k sock b w = (r, w1) \<longrightarrow>
        (if room w = 0 then ret r < 0 \<and> errno r = EMFILE \<and> backlog w1 = backlog w \<and> room w1 = 0 \<and> held w1 = held w
         else case backlog w of
             [] \<Rightarrow> ret r = -1 \<and> errno r = EAGAIN \<and> backlog w1 = [] \<and> room w1 = room w \<and> held w1 = held w
           | c # cs \<Rightarrow> 0 \<le> ret r \<and> (b \<longrightarrow> out_addr r = c) \<and> backlog w1 = cs \<and> room w = Suc (room w1)
               \<and> held w1 = insert (ret r) (held w)))
     \<and> (\<forall>w fd r w1. k (Sys_close fd) w = (r, w1) \<longrightarrow> backlog w1 = backlog w
        \<and> (if fd \<in> held w then room w1 = Suc (room w) \<and> held w1 = held w - {fd} else room w1 = room w \<and> held w1 = held w))
     \<and> (\<forall>w r w1. k Sys_open_null w = (r, w1) \<longrightarrow> backlog w1 = backlog w
        \<and> (room w \<noteq> 0 \<longrightarrow> room w = Suc (room w1) \<and> held w1 = insert (ret r) (held w)))"

text \<open>
  The callback: it returns, keeps the acceptor, its queue and the open descriptors, the new one
  included, and records the connection.  What the kernel does by itself is not recorded.
\<close>

definition takes ::
  "'w kernel \<Rightarrow> 'w accept_callback \<Rightarrow> ('w \<Rightarrow> sockaddr_in list) \<Rightarrow> ('w \<Rightarrow> nat) \<Rightarrow> ('w \<Rightarrow> int set) \<Rightarrow> ('w \<Rightarrow> sockaddr_in list) \<Rightarrow> bool" where
  "takes k f backlog room held handled \<longleftrightarrow>
     (\<forall>fd addr a w. \<exists>w'. f fd addr (a, w) = Some (a, w') \<and> backlog w' = backlog w \<and> room w' = room w \<and> held w' = held w
        \<and> handled w' = handled w @ [addr])
     \<and> (\<forall>c w r w1. k c w = (r, w1) \<longrightarrow> handled w1 = handled w)"

lemma acceptsD:
  assumes "accepts k sock backlog room held"
  shows "-1 \<notin> held w"
    and "accept_sock k sock b w = (r, w1) \<Longrightarrow> room w = 0
      \<Longrightarrow> ret r < 0 \<and> errno r = EMFILE \<and> backlog w1 = backlog w \<and> room w1 = 0 \<and> held w1 = held w"
    and "accept_sock k sock b w = (r, w1) \<Longrightarrow> room w \<noteq> 0 \<Longrightarrow> backlog w = []
      \<Longrightarrow> ret r = -1 \<and> errno r = EAGAIN \<and> backlog w1 = [] \<and> room w1 = room w \<and> held w1 = held w"
    and "accept_sock k sock b w = (r, w1) \<Longrightarrow> room w \<noteq> 0 \<Longrightarrow> backlog w = c # cs
      \<Longrightarrow> 0 \<le> ret r \<and> (b \<longrightarrow> out_addr r = c) \<and> backlog w1 = cs \<and> room w = Suc (room w1) \<and> held w1 = insert (ret r) (held w)"
    and "k (Sys_close fd) w = (r, w1) \<Longrightarrow> backlog w1 = backlog w
      \<and> (if fd \<in> held w then room w1 = Suc (room w) \<and> held w1 = held w - {fd} else room w1 = room w \<and> held w1 = held w)"
    and "k Sys_open_null w = (r, w1) \<Longrightarrow> backlog w1 = backlog w
      \<and> (room w \<noteq> 0 \<longrightarrow> room w = Suc (room w1) \<and> held w1 = insert (ret r) (held w))"
proof -
  note a = assms [unfolded accepts_def]
  note b = a [THEN conjunct2] and c = a [THEN conjunct2, THEN conjunct2]
  show "-1 \<notin> held w"
    by (rule a [THEN conjunct1, rule_format])
  show "accept_sock k sock b w = (r, w1) \<Longrightarrow> room w = 0
      \<Longrightarrow> ret r < 0 \<and> errno r = EMFILE \<and> backlog w1 = backlog w \<and> room w1 = 0 \<and> held w1 = held w"
    "accept_sock k sock b w = (r, w1) \<Longrightarrow> room w \<noteq> 0 \<Longrightarrow> backlog w = []
      \<Longrightarrow> ret r = -1 \<and> errno r = EAGAIN \<and> backlog w1 = [] \<and> room w1 = room w \<and> held w1 = held w"
    "accept_sock k sock b w = (r, w1) \<Longrightarrow> room w \<noteq> 0 \<Longrightarrow> backlog w = c # cs
      \<Longrightarrow> 0 \<le> ret r \<and> (b \<longrightarrow> out_addr r = c) \<and> backlog w1 = cs \<and> room w = Suc (room w1) \<and> held w1 = insert (ret r) (held w)"
    using b [THEN conjunct1, rule_format, of b w r w1] by auto
  show "k (Sys_close fd) w = (r, w1) \<Longrightarrow> backlog w1 = backlog w
      \<and> (if fd \<in> held w then room w1 = Suc (room w) \<and> held w1 = held w - {fd} else room w1 = room w \<and> held w1 = held w)"
    by (rule c [THEN conjunct1, rule_format])
  show "k Sys_open_null w = (r, w1) \<Longrightarrow> backlog w1 = backlog w
      \<and> (room w \<noteq> 0 \<longrightarrow> room w = Suc (room w1) \<and> held w1 = insert (ret r) (held w))"
    using c [THEN conjunct2, rule_format, of w r w1] by blast
qed

lemma takesD:
  assumes "takes k f backlog room held handled"
  shows "\<exists>w'. f fd addr (a, w) = Some (a, w') \<and> backlog w' = backlog w \<and> room w' = room w \<and> held w' = held w
      \<and> handled w' = handled w @ [addr]"
    and "accept_sock k sock b w = (r, w1) \<Longrightarrow> handled w1 = handled w"
  using assms unfolding takes_def accept_sock_def by (auto split: if_splits)

subsection \<open>The loop of accept\<close>

text \<open>With more free descriptors than connections in the queue, all are accepted.\<close>

lemma accept_loop_drains:
  assumes "accepts k (ac_sock a) backlog room held" "takes k f backlog room held handled"
    and "length (backlog w) < room w" "idleFd a \<in> held w"
  shows "\<exists>w'. accept_loop k (Some f) (a, w) = Some (a\<lparr>ac_chan := disableReadable (ac_chan a)\<rparr>, w')
    \<and> backlog w' = [] \<and> handled w' = handled w @ backlog w \<and> idleFd a \<in> held w'"
  using assms(3,4)
proof (induction "backlog w" arbitrary: w)
  case Nil
  obtain r w1 where acc: "accept_sock k (ac_sock a) True w = (r, w1)" by fastforce
  have "ret r = -1" "errno r = EAGAIN" "backlog w1 = []" "held w1 = held w"
    using acceptsD(3) [OF assms(1) acc] Nil by simp_all
  moreover from this have "accept_loop k (Some f) (a, w) = Some (a\<lparr>ac_chan := disableReadable (ac_chan a)\<rparr>, w1)"
    using acc by (subst accept_loop.simps) simp
  ultimately show ?case
    using Nil.hyps Nil.prems(2) takesD(2) [OF assms(2) acc] by (intro exI [of _ w1]) simp
next
  case (Cons c cs)
  obtain r w1 where acc: "accept_sock k (ac_sock a) True w = (r, w1)" by fastforce
  have r: "0 \<le> ret r" "out_addr r = c" "backlog w1 = cs" "room w = Suc (room w1)" "held w1 = insert (ret r) (held w)"
    using acceptsD(4) [OF assms(1) acc _ Cons.hyps(2) [symmetric]] Cons.prems(1) by simp_all
  obtain w2 where f: "f (ret r) c (a, w1) = Some (a, w2)" "backlog w2 = cs" "room w2 = room w1" "held w2 = held w1"
    "handled w2 = handled w1 @ [c]"
    using takesD(1) [OF assms(2), of "ret r" c a w1] r(3) by auto
  have "length (backlog w2) < room w2"
    using Cons.prems(1) Cons.hyps(2) [symmetric] r(4) f(2,3) by simp
  then obtain w' where ih: "accept_loop k (Some f) (a, w2) = Some (a\<lparr>ac_chan := disableReadable (ac_chan a)\<rparr>, w')"
    "backlog w' = []" "handled w' = handled w2 @ backlog w2" "idleFd a \<in> held w'"
    using Cons.hyps(1) [of w2] f(2,4) r(5) Cons.prems(2) by auto
  have "accept_loop k (Some f) (a, w) = accept_loop k (Some f) (a, w2)"
    using acc r f(1) by (subst accept_loop.simps) simp
  then show ?case
    using ih f(2,5) takesD(2) [OF assms(2) acc] Cons.hyps(2) [symmetric] by (intro exI [of _ w']) simp
qed

text \<open>No return: a set of states that the loop does not leave.\<close>

definition spins :: "'w kernel \<Rightarrow> (acceptor \<times> 'w) set \<Rightarrow> bool" where
  "spins k S \<longleftrightarrow> (\<forall>(a, w) \<in> S. case accept_sock k (ac_sock a) True w of (r, w1) \<Rightarrow>
     ret r < 0 \<and> errno r \<in> {EMFILE, ENFILE} \<and> drop_one k (a, w1) \<in> S)"

lemma accept_loop_leaves:
  assumes "accept_loop k cb s = Some y"
  shows "spins k S \<longrightarrow> s \<notin> S"
proof (rule accept_loop.raw_induct [where P = "\<lambda>k cb s y. spins k S \<longrightarrow> s \<notin> S", OF _ assms], intro impI notI)
  fix rec and k :: "'a kernel" and cb s y
  assume ih: "\<And>k cb s y. rec k cb s = Some y \<Longrightarrow> spins k S \<longrightarrow> s \<notin> S"
    and body: "(case s of (a, w) \<Rightarrow>
      case accept_sock k (ac_sock a) True w of (r, w1) \<Rightarrow>
      if ret r < 0
      then (if errno r = EAGAIN then Some (a\<lparr>ac_chan := disableReadable (ac_chan a)\<rparr>, w1)
            else if errno r = EMFILE \<or> errno r = ENFILE then rec k cb (drop_one k (a, w1))
            else Some (a, w1))
      else (case cb of
              Some f \<Rightarrow> do { s' \<leftarrow> f (ret r) (out_addr r) (a, w1); rec k cb s' }
            | None \<Rightarrow> rec k cb (a, snd (close_sock k (ret r) w1)))) = Some y"
    and sp: "spins k S" and s: "s \<in> S"
  obtain a w where aw: "s = (a, w)" by fastforce
  obtain r w1 where acc: "accept_sock k (ac_sock a) True w = (r, w1)" by fastforce
  have st: "ret r < 0" "errno r \<in> {EMFILE, ENFILE}" "drop_one k (a, w1) \<in> S"
    using sp s acc by (auto simp: spins_def aw)
  then have "rec k cb (drop_one k (a, w1)) = Some y"
    using body acc by (auto simp: aw errno_values)
  then show False
    using ih sp st(3) by blast
qed

text \<open>
  With the table full, the four calls give up the spare descriptor and take one back: at best a
  connection is dropped in between, and the table is full again.
\<close>

lemma drop_one_full:
  assumes k: "accepts k (ac_sock a) backlog room held" and full: "room w = 0" "idleFd a \<in> held w"
  shows "\<exists>i w'. drop_one k (a, w) = (a\<lparr>idleFd := i\<rparr>, w') \<and> room w' = 0 \<and> i \<in> held w'"
proof -
  obtain r1 w1 where 1: "k (Sys_close (idleFd a)) w = (r1, w1)" by fastforce
  obtain r2 w2 where 2: "accept_sock k (ac_sock a) False w1 = (r2, w2)" by fastforce
  obtain r3 w3 where 3: "k (Sys_close (ret r2)) w2 = (r3, w3)" by fastforce
  obtain r4 w4 where 4: "k Sys_open_null w3 = (r4, w4)" by fastforce
  have w1: "room w1 = Suc 0"
    using acceptsD(5) [OF k 1] full by simp
  have "room w3 = Suc 0"
  proof (cases "backlog w1")
    case Nil
    then have "ret r2 = -1" "room w2 = Suc 0"
      using acceptsD(3) [OF k 2] w1 by simp_all
    then show ?thesis
      using acceptsD(5) [OF k 3] acceptsD(1) [OF k] by simp
  next
    case (Cons c cs)
    then have "ret r2 \<in> held w2" "room w2 = 0"
      using acceptsD(4) [OF k 2] w1 by simp_all
    then show ?thesis
      using acceptsD(5) [OF k 3] by simp
  qed
  then have "room w4 = 0" "ret r4 \<in> held w4"
    using acceptsD(6) [OF k 4] by simp_all
  then show ?thesis
    using 1 2 3 4 by (intro exI [of _ "ret r4"] exI [of _ w4]) (simp add: drop_one_def)
qed

lemma full_spins:
  assumes k: "accepts k sock backlog room held"
  shows "spins k {(a, w). ac_sock a = sock \<and> room w = 0 \<and> idleFd a \<in> held w}"
  unfolding spins_def
proof (clarify)
  fix a :: acceptor and w r w1
  assume a: "room w = 0" "idleFd a \<in> held w" "sock = ac_sock a" and acc: "accept_sock k (ac_sock a) True w = (r, w1)"
  have k': "accepts k (ac_sock a) backlog room held"
    using k a(3) by simp
  have r: "ret r < 0" "errno r = EMFILE" "room w1 = 0" "idleFd a \<in> held w1"
    using acceptsD(2) [OF k' acc a(1)] a(2) by simp_all
  then show "ret r < 0 \<and> errno r \<in> {EMFILE, ENFILE}
      \<and> drop_one k (a, w1) \<in> {(a', w). ac_sock a' = ac_sock a \<and> room w = 0 \<and> idleFd a' \<in> held w}"
    using drop_one_full [OF k' r(3,4)] by auto
qed

lemma accept_loop_full:
  assumes "accepts k (ac_sock a) backlog room held" "takes k f backlog room held handled"
    and "room w \<le> length (backlog w)" "idleFd a \<in> held w"
  shows "accept_loop k (Some f) (a, w) = None"
  using assms(3,4)
proof (induction "room w" arbitrary: w)
  case 0
  then show ?case
    using accept_loop_leaves [of k "Some f" "(a, w)"] full_spins [OF assms(1)] by (cases "accept_loop k (Some f) (a, w)") fastforce+
next
  case (Suc n)
  then obtain c cs where b: "backlog w = c # cs"
    by (cases "backlog w") simp_all
  obtain r w1 where acc: "accept_sock k (ac_sock a) True w = (r, w1)" by fastforce
  have r: "0 \<le> ret r" "out_addr r = c" "backlog w1 = cs" "room w = Suc (room w1)" "held w1 = insert (ret r) (held w)"
    using acceptsD(4) [OF assms(1) acc _ b] Suc.hyps(2) by simp_all
  obtain w2 where f: "f (ret r) c (a, w1) = Some (a, w2)" "backlog w2 = cs" "room w2 = room w1" "held w2 = held w1"
    using takesD(1) [OF assms(2), of "ret r" c a w1] r(3) by auto
  have "accept_loop k (Some f) (a, w2) = None"
    using Suc.hyps(1) [of w2] Suc.hyps(2) Suc.prems r f b by simp
  then show ?case
    using acc r f(1) by (subst accept_loop.simps) simp
qed

subsection \<open>Properties\<close>

text \<open>
  C12: on Linux, exactly when there are more free descriptors than waiting connections, the handler
  accepts all of them: it returns, the queue is empty, the callback has received every connection in
  order, the channel will see the next event, and the spare descriptor is still held.  Otherwise the
  table fills up on the way, and the handler never returns: the spare descriptor, meant for this
  case, only drops the connections that are left.
\<close>

theorem onRead_accepts_all:
  assumes "accepts k (ac_sock a) backlog room held" "takes k f backlog room held handled" "idleFd a \<in> held w" "accept_flag a"
  shows "if length (backlog w) < room w
    then \<exists>a' w'. onRead_ac k (Some f) (a, w) = Some (a', w') \<and> backlog w' = [] \<and> handled w' = handled w @ backlog w
      \<and> idleFd a' \<in> held w' \<and> \<not> ch_readable (ac_chan a')
    else onRead_ac k (Some f) (a, w) = None"
proof (cases "length (backlog w) < room w")
  case True
  then obtain w' where "accept_loop k (Some f) (a, w) = Some (a\<lparr>ac_chan := disableReadable (ac_chan a)\<rparr>, w')"
    "backlog w' = []" "handled w' = handled w @ backlog w" "idleFd a \<in> held w'"
    using accept_loop_drains [OF assms(1,2) True assms(3)] by blast
  then show ?thesis
    using True assms(4) by (simp add: onRead_ac_def disableReadable_def)
next
  case False
  then show ?thesis
    using accept_loop_full [OF assms(1,2) _ assms(3)] assms(4) by (simp add: onRead_ac_def)
qed

text \<open>
  A kernel for the example: the queue, the number of free descriptors, the open ones, and the
  addresses handled.
\<close>

type_synonym fd_table = "sockaddr_in list \<times> nat \<times> int set \<times> sockaddr_in list"

definition reply_ok :: "int \<Rightarrow> reply" where
  "reply_ok v = \<lparr>ret = v, errno = 0, out_addr = InetAddress 0 '''', out_int = 0\<rparr>"

definition reply_err :: "nat \<Rightarrow> reply" where
  "reply_err e = \<lparr>ret = -1, errno = e, out_addr = InetAddress 0 '''', out_int = 0\<rparr>"

fun table_net :: "fd_table kernel" where
  "table_net (Sys_accept4 s b flags) (q, n, fds, h) =
     (if n = 0 then (reply_err EMFILE, q, n, fds, h)
      else case q of [] \<Rightarrow> (reply_err EAGAIN, q, n, fds, h)
      | c # cs \<Rightarrow> ((reply_ok (int n + 8))\<lparr>out_addr := c\<rparr>, cs, n - 1, insert (int n + 8) fds, h))"
| "table_net (Sys_close fd) (q, n, fds, h) =
     (if 0 \<le> fd \<and> fd \<in> fds then (reply_ok 0, q, n + 1, fds - {fd}, h) else (reply_err 9, q, n, fds, h))"
| "table_net Sys_open_null (q, n, fds, h) =
     (if n = 0 then (reply_err EMFILE, q, n, fds, h) else (reply_ok 8, q, n - 1, insert 8 fds, h))"
| "table_net _ w = (reply_ok 5, w)"

definition table_accept :: "fd_table accept_callback" where
  "table_accept fd addr s = (case s of (a, q, n, fds, h) \<Rightarrow> Some (a, q, n, fds, h @ [addr]))"

definition demo_acceptor :: acceptor where
  "demo_acceptor = \<lparr>ac_local = InetAddress 80 '''', ac_sock = 5, ac_chan = enableRead (new_channel 5),
     listenning = True, accept_flag = True, idleFd = 8\<rparr>"

definition open_fds :: "fd_table \<Rightarrow> int set" where
  "open_fds w = (case w of (q, n, fds, h) \<Rightarrow> {fd \<in> fds. 0 \<le> fd})"

lemma table_net_accepts: "accepts table_net 5 fst (\<lambda>w. fst (snd w)) open_fds"
  by (auto simp: accepts_def accept_sock_def open_fds_def reply_ok_def reply_err_def split: list.splits if_splits)

lemma table_net_takes: "takes table_net table_accept fst (\<lambda>w. fst (snd w)) open_fds (\<lambda>w. snd (snd (snd w)))"
  unfolding takes_def
proof (intro conjI allI impI)
  fix c r and w w1 :: fd_table
  show "table_net c w = (r, w1) \<Longrightarrow> snd (snd (snd w1)) = snd (snd (snd w))"
    by (cases "(c, w)" rule: table_net.cases) (auto split: list.splits if_splits)
qed (auto simp: table_accept_def open_fds_def)

lemma onRead_accepts_all_witness:
  "(\<exists>a' w'. onRead_ac table_net (Some table_accept) (demo_acceptor, [InetAddress 1 '''', InetAddress 2 ''''], 3, {5, 8}, []) = Some (a', w')
     \<and> fst w' = [] \<and> snd (snd (snd w')) = [InetAddress 1 '''', InetAddress 2 ''''] \<and> \<not> ch_readable (ac_chan a'))
   \<and> onRead_ac table_net (Some table_accept) (demo_acceptor, [InetAddress 1 '''', InetAddress 2 ''''], 2, {5, 8}, []) = None"
proof -
  have k: "accepts table_net (ac_sock demo_acceptor) fst (\<lambda>w. fst (snd w)) open_fds"
    using table_net_accepts by (simp add: demo_acceptor_def)
  have a: "idleFd demo_acceptor \<in> open_fds ([InetAddress 1 '''', InetAddress 2 ''''], n, {5, 8}, [])" "accept_flag demo_acceptor" for n
    by (simp_all add: open_fds_def demo_acceptor_def)
  show ?thesis
    using onRead_accepts_all [OF k table_net_takes a, of 3] onRead_accepts_all [OF k table_net_takes a, of 2] by auto
qed

text \<open>
  C38: on a kernel that looks for a free descriptor before it looks at the queue, as Linux does, the
  handler never returns once the table is full and the queue is empty: each turn gives up the spare
  descriptor for a connection that is not there, and takes it back.
\<close>

theorem onRead_spins:
  assumes "accept_flag a"
    and full: "accept_sock k (ac_sock a) True w = (r, w)" "ret r < 0" "errno r = EMFILE"
    and spare: "k (Sys_close (idleFd a)) w = (r1, w1)"
    and empty: "accept_sock k (ac_sock a) False w1 = (r2, w1)" "k (Sys_close (ret r2)) w1 = (r3, w1)"
    and again: "k Sys_open_null w1 = (r4, w)" "ret r4 = idleFd a"
  shows "onRead_ac k cb (a, w) = None"
proof -
  have "spins k {(a, w)}"
    using assms by (simp add: spins_def drop_one_def)
  then have "accept_loop k cb (a, w) = None"
    using accept_loop_leaves [of k cb "(a, w)" _ "{(a, w)}"] by (cases "accept_loop k cb (a, w)") auto
  then show ?thesis
    using assms(1) by (simp add: onRead_ac_def)
qed

text \<open>A kernel for the example: the queue, the number of free descriptors, the addresses handled.\<close>

type_synonym demo_net = "sockaddr_in list \<times> nat \<times> sockaddr_in list"

definition demo_accept :: "demo_net accept_callback" where
  "demo_accept fd addr s = (case s of (a, q, n, h) \<Rightarrow> Some (a, q, n, h @ [addr]))"


fun linux_net :: "demo_net kernel" where
  "linux_net (Sys_accept4 s b flags) (q, n, h) =
     (if n = 0 then (reply_err EMFILE, q, n, h)
      else case q of [] \<Rightarrow> (reply_err EAGAIN, q, n, h) | c # cs \<Rightarrow> ((reply_ok 9)\<lparr>out_addr := c\<rparr>, cs, n - 1, h))"
| "linux_net (Sys_close fd) (q, n, h) = (if fd < 0 then (reply_err 9, q, n, h) else (reply_ok 0, q, n + 1, h))"
| "linux_net Sys_open_null (q, n, h) = (if n = 0 then (reply_err EMFILE, q, n, h) else (reply_ok 8, q, n - 1, h))"
| "linux_net _ w = (reply_ok 5, w)"

lemma onRead_spins_witness:
  "onRead_ac linux_net (Some demo_accept) (demo_acceptor, [], 0, []) = None"
  by (rule onRead_spins [where r = "reply_err EMFILE" and ?r1.0 = "reply_ok 0" and ?w1.0 = "([], 1, [])"
        and ?r2.0 = "reply_err EAGAIN" and ?r3.0 = "reply_err 9" and ?r4.0 = "reply_ok 8"])
    (simp_all add: accept_sock_def demo_acceptor_def reply_ok_def reply_err_def)

text \<open>
  Any other error of \<open>accept\<close>, such as a connection that was aborted in the queue, leaves the
  channel readable: the handler stops with connections still waiting, and the channel ignores every
  later event.
\<close>

theorem accept_error_stalls:
  assumes "accept_sock k (ac_sock a) True w = (r, w1)" "ret r < 0" "errno r \<notin> {EAGAIN, EMFILE, ENFILE}"
    and "ch_readable (ac_chan a)" "accept_flag a"
  shows "onRead_ac k cb (a, w) = Some (a, w1) \<and> onRead_ch (ac_chan a) = (ac_chan a, [])"
  using assms by (simp add: onRead_ac_def accept_loop.simps onRead_ch_def)

lemma accept_error_stalls_witness:
  "onRead_ac (\<lambda>_ w. (reply_err 103, w)) None (demo_acceptor\<lparr>ac_chan := (new_channel 5)\<lparr>ch_readable := True\<rparr>\<rparr>, ())
    = Some (demo_acceptor\<lparr>ac_chan := (new_channel 5)\<lparr>ch_readable := True\<rparr>\<rparr>, ())"
  using accept_error_stalls [of "\<lambda>_ w. (reply_err 103, w)" "demo_acceptor\<lparr>ac_chan := (new_channel 5)\<lparr>ch_readable := True\<rparr>\<rparr>" "()"
      "reply_err 103" "()" None]
  by (simp add: accept_sock_def reply_err_def errno_values demo_acceptor_def)

text \<open>
  An acceptor that was closed cannot listen again: \<open>listenning_\<close> is never reset, so the second
  \<open>listen\<close> leaves the channel unregistered while the acceptor counts as accepting.
\<close>

theorem listen_again_is_deaf:
  assumes "new_acceptor k addr w = Some (a0, w0)"
    and 1: "listen_ac a0 = (a1, ts1)" "listenInLoop k (a1, w0) = (rs1, a2, w2)"
    and 2: "close_ac a2 = (a3, ts3)" "closeInLoop (a3, w2) = (rs3, a4, w4)"
    and 3: "listen_ac a4 = (a5, ts5)" "listenInLoop k (a5, w4) = (rs5, a6, w6)"
  shows "rs1 @ rs3 @ rs5 = [AddChannel, RemoveChannel] \<and> accept_flag a6 \<and> listenning a6 \<and> \<not> ch_started (ac_chan a6)"
proof -
  have a0: "\<not> accept_flag a0" "\<not> listenning a0" "\<not> ch_started (ac_chan a0)"
    using assms(1) by (auto simp: new_acceptor_def enableRead_def new_channel_def split: prod.splits if_splits)
  then have a2: "accept_flag a2" "listenning a2" "ch_started (ac_chan a2)" "rs1 = [AddChannel]"
    using 1 by (auto simp: listen_ac_def listenInLoop_def open_ch_def split: prod.splits if_splits)
  then have a4: "\<not> accept_flag a4" "listenning a4" "\<not> ch_started (ac_chan a4)" "rs3 = [RemoveChannel]"
    using 2 by (auto simp: close_ac_def closeInLoop_def close_ch_def split: prod.splits if_splits)
  then show ?thesis
    using 3 a2(4) by (auto simp: listen_ac_def listenInLoop_def split: prod.splits if_splits)
qed

lemma listen_again_is_deaf_witness:
  "\<exists>a6 :: acceptor. \<not> ch_started (ac_chan a6) \<and> accept_flag a6 \<and> new_acceptor (\<lambda>_ w. (reply_ok 4, w)) (InetAddress 80 '''') () \<noteq> None"
proof -
  let ?k = "\<lambda>(_ :: syscall) (w :: unit). (reply_ok 4, w)"
  obtain a0 w0 where n: "new_acceptor ?k (InetAddress 80 '''') () = Some (a0, w0)"
    by (simp add: new_acceptor_def open_sock_def bind_sock_def reply_ok_def)
  obtain a1 ts1 rs1 a2 w2 where 1: "listen_ac a0 = (a1, ts1)" "listenInLoop ?k (a1, w0) = (rs1, a2, w2)"
    using prod_cases3 by (metis surj_pair)
  obtain a3 ts3 rs3 a4 w4 where 2: "close_ac a2 = (a3, ts3)" "closeInLoop (a3, w2) = (rs3, a4, w4)"
    by (metis surj_pair)
  obtain a5 ts5 rs5 a6 w6 where 3: "listen_ac a4 = (a5, ts5)" "listenInLoop ?k (a5, w4) = (rs5, a6, w6)"
    by (metis surj_pair)
  show ?thesis
    using listen_again_is_deaf [OF n 1 2 3] n by (intro exI [of _ a6]) auto
qed

end
