(* ===== verification/TcpServer.thy ===== *)
theory TcpServer
  imports TcpLife LoopPool Acceptor "HOL-Library.AList"
begin

section \<open>The server (net/TcpServer.h, net/TcpServer.cpp)\<close>

text \<open>
  A \<open>TcpServer\<close> accepts connections, spreads them over the loops of a pool, and keeps each in a map
  from descriptors until its close callback has removed it.  The connections are objects of their own:
  \<open>sv_made\<close> holds those that were ever made, and a pointer to a connection is its position there.  Functors
  that the server queues come back to the caller: those of a connection as pairs of its number and
  the task, and those that remove a connection from the map.
\<close>

subsection \<open>State and operations\<close>

text \<open>A connection with its descriptor and its loop: \<open>None\<close> is the server's own, else one of the pool.\<close>

record server_conn =
  sc_fd :: int
  sc_loop :: "nat option"
  sc_conn :: conn

record ('f, 'w) tcp_server =
  sv_listen :: bool
  connections :: "(int \<times> nat) list"
  sv_pool :: "('f, 'w) loop_pool option"
  indexLoop :: "32 word"
  sv_made :: "server_conn list"

definition new_server :: "('f, 'w) tcp_server" where
  "new_server = \<lparr>sv_listen = False, connections = [], sv_pool = None, indexLoop = 0, sv_made = []\<rparr>"

definition setEventLoopThreadPool :: "('f, 'w) loop_pool option \<Rightarrow> ('f, 'w) tcp_server \<Rightarrow> ('f, 'w) tcp_server" where
  "setEventLoopThreadPool p s = s\<lparr>sv_pool := p\<rparr>"

definition setReuseAddr_sv :: "'w kernel \<Rightarrow> bool \<Rightarrow> acceptor \<times> 'w \<Rightarrow> acceptor \<times> 'w" where
  "setReuseAddr_sv k b s = setReuseAddr_ac k b s"

definition listen_sv :: "('f, 'w) tcp_server \<times> acceptor \<Rightarrow> ('f, 'w) tcp_server \<times> acceptor \<times> acceptor_task list" where
  "listen_sv sa =
     (case sa of (s, a) \<Rightarrow>
      if sv_listen s then (s, a, [])
      else (s\<lparr>sv_listen := True\<rparr>, listen_ac a))"

text \<open>\<open>std::map\<close> keeps the keys in order; \<open>operator[]\<close> replaces the value of a key that is there.\<close>

definition map_put :: "int \<Rightarrow> nat \<Rightarrow> (int \<times> nat) list \<Rightarrow> (int \<times> nat) list" where
  "map_put fd c m = insort_key fst (fd, c) (AList.delete fd m)"

text \<open>Round robin over the pool; no loop at all in the pool is a division by zero.\<close>

definition next_loop :: "('f, 'w) tcp_server \<Rightarrow> (nat option \<times> ('f, 'w) tcp_server) option" where
  "next_loop s =
     (case sv_pool s of
        None \<Rightarrow> Some (None, s)
      | Some p \<Rightarrow>
          let index = indexLoop s + 1 in
          if getCount p = 0 then None
          else let index' = index mod getCount p in
               case getLoop index' p of
                 Some (Some i) \<Rightarrow> Some (Some i, s\<lparr>indexLoop := index'\<rparr>)
               | _ \<Rightarrow> None)"

definition onAccept ::
  "(nat \<Rightarrow> ('f, 'w) tcp_server \<Rightarrow> ('f, 'w) tcp_server option) option \<Rightarrow> nat \<Rightarrow> nat \<Rightarrow> int \<Rightarrow> ('f, 'w) tcp_server \<Rightarrow> ('f, 'w) tcp_server option" where
  "onAccept cb rsize wsize fd s0 = do {
     (l, s) \<leftarrow> next_loop s0;
     let c = length (sv_made s);
     let conn = \<lparr>sc_fd = fd, sc_loop = l, sc_conn = new_conn (nat fd) rsize wsize\<rparr>;
     let s1 = s\<lparr>sv_made := sv_made s @ [conn], connections := map_put fd c (connections s)\<rparr>;
     case cb of None \<Rightarrow> Some s1 | Some f \<Rightarrow> f c s1 }"

text \<open>The close callback of a connection queues its removal in the server's loop.\<close>

definition onClose_sv :: "int \<Rightarrow> nat \<Rightarrow> (int \<times> nat) list" where
  "onClose_sv fd c = [(fd, c)]"

definition destroy_at :: "nat \<Rightarrow> ('f, 'w) tcp_server \<Rightarrow> (nat \<times> conn_task) list" where
  "destroy_at c s = map (Pair c) (destroy (sc_conn (sv_made s ! c)))"

definition removeConnection :: "int \<Rightarrow> nat \<Rightarrow> ('f, 'w) tcp_server \<Rightarrow> (nat \<times> conn_task) list \<times> ('f, 'w) tcp_server" where
  "removeConnection fd c s = (destroy_at c s, s\<lparr>connections := AList.delete fd (connections s)\<rparr>)"

text \<open>The destructor: the acceptor is closed, every connection that is left destroyed.\<close>

definition delete_server ::
  "('f, 'w) tcp_server \<times> acceptor \<Rightarrow> acceptor \<times> acceptor_task list \<times> (nat \<times> conn_task) list" where
  "delete_server sa =
     (case sa of (s, a) \<Rightarrow>
      if sv_listen s
      then (case close_ac a of (a', ts) \<Rightarrow> (a', ts, concat (map (\<lambda>(fd, c). destroy_at c s) (connections s))))
      else (a, [], []))"

subsection \<open>Lemmas\<close>

lemma map_of_insort: "fd \<notin> fst ` set m \<Longrightarrow> map_of (insort_key fst (fd, c) m) = (map_of m)(fd \<mapsto> c)"
  by (induction m) (auto simp: fun_upd_twist)

lemma map_of_map_put [simp]: "map_of (map_put fd c m) = (map_of m)(fd \<mapsto> c)"
  by (simp add: map_put_def map_of_insort delete_conv' delete_notin_dom)

lemma set_map_put: "set (map_put fd c m) = insert (fd, c) (set (AList.delete fd m))"
  by (simp add: map_put_def set_insort_key)

lemma distinct_map_put [simp]: "distinct (map fst m) \<Longrightarrow> distinct (map fst (map_put fd c m))"
  using distinct_delete [of m fd] delete_notin_dom [of fd m]
  by (simp only: map_put_def distinct_insort_key fst_conv) simp

text \<open>One step of the round robin.\<close>

lemma next_loop_pool:
  assumes p: "new_loop_pool u fds w n = Some p" "sv_pool s = Some p" and i: "indexLoop s < n"
  defines "j \<equiv> (unat (indexLoop s) + 1) mod unat n"
  shows "next_loop s = Some (Some j, s\<lparr>indexLoop := of_nat j\<rparr>)" "unat (of_nat j :: 32 word) = j" "of_nat j < n"
proof -
  have n: "getCount p = n"
    using p(1) by (auto simp: getCount_def elim: new_loop_pool_cases)
  have i': "unat (indexLoop s) < unat n" "unat n < 2 ^ 32"
    using i unsigned_less [of n] by (simp_all add: word_less_nat_alt)
  then have "unat (indexLoop s + 1) = unat (indexLoop s) + 1"
    by (simp add: unat_word_ariths)
  then have m: "unat ((indexLoop s + 1) mod n) = j"
    by (simp add: unat_mod j_def)
  then have w: "(indexLoop s + 1) mod n = of_nat j"
    by (metis of_nat_unat ucast_id)
  have "j < unat n"
    using i'(1) by (simp add: j_def)
  then show "of_nat j < n" "unat (of_nat j :: 32 word) = j"
    using m w by (simp_all add: word_less_nat_alt)
  then show "next_loop s = Some (Some j, s\<lparr>indexLoop := of_nat j\<rparr>)"
    using p n i' w getLoop_total [OF p(1), of "of_nat j"] by (auto simp: next_loop_def Let_def)
qed

fun accept_all :: "int list \<Rightarrow> ('f, 'w) tcp_server \<Rightarrow> ('f, 'w) tcp_server option" where
  "accept_all [] s = Some s"
| "accept_all (fd # fds) s = do { s' \<leftarrow> onAccept None 0 0 fd s; accept_all fds s' }"

lemma accept_all_loops:
  assumes p: "new_loop_pool u fs w n = Some p"
  shows "sv_pool s = Some p \<Longrightarrow> indexLoop s < n \<Longrightarrow> \<exists>s'. accept_all fds s = Some s'
    \<and> map sc_fd (sv_made s') = map sc_fd (sv_made s) @ fds
    \<and> map sc_loop (sv_made s') = map sc_loop (sv_made s) @ map (\<lambda>j. Some ((unat (indexLoop s) + 1 + j) mod unat n)) [0..<length fds]"
proof (induction fds arbitrary: s)
  case (Cons fd fds)
  let ?j = "(unat (indexLoop s) + 1) mod unat n"
  note nl = next_loop_pool [OF p Cons.prems]
  obtain s1 where s1: "onAccept None 0 0 fd s = Some s1" "sv_pool s1 = Some p" "indexLoop s1 = of_nat ?j"
    "map sc_fd (sv_made s1) = map sc_fd (sv_made s) @ [fd]" "map sc_loop (sv_made s1) = map sc_loop (sv_made s) @ [Some ?j]"
    using nl(1) Cons.prems(1) by (simp add: onAccept_def Let_def)
  then obtain s' where s': "accept_all fds s1 = Some s'" "map sc_fd (sv_made s') = map sc_fd (sv_made s1) @ fds"
    "map sc_loop (sv_made s') = map sc_loop (sv_made s1) @ map (\<lambda>j. Some ((unat (indexLoop s1) + 1 + j) mod unat n)) [0..<length fds]"
    using Cons.IH [of s1] nl(3) by auto
  have "[0..<length (fd # fds)] = 0 # map Suc [0..<length fds]"
    by (simp add: upt_conv_Cons map_Suc_upt del: upt_Suc)
  moreover have "(unat (indexLoop s1) + 1 + j) mod unat n = (unat (indexLoop s) + 1 + Suc j) mod unat n" for j
    using s1(3) nl(2) mod_add_left_eq [of "Suc (unat (indexLoop s))" "unat n" "Suc j"] by simp
  ultimately show ?case
    using s1 s' by (simp del: upt_Suc)
qed simp

subsection \<open>Every connection is removed once\<close>

text \<open>
  The system: the server, the functors that wait in its loop to remove a connection, and as ghosts the
  connections whose close callback has run and those that were destroyed.  The kernel never gives a
  descriptor that is still open, and a connection that was not destroyed holds its own.  The close
  callback runs at most once, as the connection's \<open>close_\<close> flag ensures (\<open>closed_is_final\<close>).
\<close>

record ('f, 'w) server_sys =
  sv :: "('f, 'w) tcp_server"
  removals :: "(int \<times> nat) list"
  closed_conns :: "nat set"
  destroyed :: "nat list"

definition live :: "('f, 'w) server_sys \<Rightarrow> nat \<Rightarrow> bool" where
  "live s c \<longleftrightarrow> c < length (sv_made (sv s)) \<and> c \<notin> set (destroyed s)"

definition fd_of :: "('f, 'w) server_sys \<Rightarrow> nat \<Rightarrow> int" where
  "fd_of s c = sc_fd (sv_made (sv s) ! c)"

inductive server_step :: "('f, 'w) server_sys \<Rightarrow> ('f, 'w) server_sys \<Rightarrow> bool" where
  accept: "onAccept None rsize wsize fd (sv s) = Some v \<Longrightarrow> (\<And>c. live s c \<Longrightarrow> fd_of s c \<noteq> fd)
    \<Longrightarrow> server_step s (s\<lparr>sv := v\<rparr>)"
| close: "live s c \<Longrightarrow> c \<notin> closed_conns s
    \<Longrightarrow> server_step s (s\<lparr>removals := removals s @ onClose_sv (fd_of s c) c, closed_conns := insert c (closed_conns s)\<rparr>)"
| remove: "removals s = (fd, c) # rest \<Longrightarrow> removeConnection fd c (sv s) = (ts, v)
    \<Longrightarrow> server_step s (s\<lparr>sv := v, removals := rest, destroyed := destroyed s @ map fst (filter (\<lambda>(_, t). t = DestroyInLoop) ts)\<rparr>)"

inductive server_reaches :: "('f, 'w) server_sys \<Rightarrow> ('f, 'w) server_sys \<Rightarrow> bool" where
  here: "server_reaches s s"
| further: "server_reaches s t \<Longrightarrow> server_step t v \<Longrightarrow> server_reaches s v"

definition start_server :: "('f, 'w) loop_pool option \<Rightarrow> ('f, 'w) server_sys" where
  "start_server p = \<lparr>sv = setEventLoopThreadPool p new_server, removals = [], closed_conns = {}, destroyed = []\<rparr>"

definition server_ok :: "('f, 'w) server_sys \<Rightarrow> bool" where
  "server_ok s \<longleftrightarrow> (\<forall>fd c. map_of (connections (sv s)) fd = Some c \<longleftrightarrow> live s c \<and> fd_of s c = fd)
     \<and> distinct (map fst (connections (sv s)))
     \<and> distinct (destroyed s @ map snd (removals s))
     \<and> closed_conns s = set (destroyed s) \<union> snd ` set (removals s)
     \<and> (\<forall>(fd, c) \<in> set (removals s). live s c \<and> fd_of s c = fd)
     \<and> set (destroyed s) \<subseteq> {..<length (sv_made (sv s))}"

lemma server_okD:
  assumes "server_ok s"
  shows "map_of (connections (sv s)) fd = Some c \<longleftrightarrow> live s c \<and> fd_of s c = fd"
    "distinct (map fst (connections (sv s)))" "distinct (destroyed s @ map snd (removals s))"
    "closed_conns s = set (destroyed s) \<union> snd ` set (removals s)"
    "(fd, c) \<in> set (removals s) \<Longrightarrow> live s c \<and> fd_of s c = fd"
    "set (destroyed s) \<subseteq> {..<length (sv_made (sv s))}"
  using assms by (auto simp: server_ok_def)

lemma onAccept_Some:
  assumes "onAccept None rsize wsize fd s = Some v"
  shows "\<exists>x. sc_fd x = fd \<and> sv_made v = sv_made s @ [x]" "connections v = map_put fd (length (sv_made s)) (connections s)"
proof -
  obtain l s1 where "next_loop s = Some (l, s1)" "sv_made s1 = sv_made s" "connections s1 = connections s"
    using assms by (auto simp: onAccept_def next_loop_def Let_def bind_eq_Some_conv split: option.splits if_splits)
  then show "\<exists>x. sc_fd x = fd \<and> sv_made v = sv_made s @ [x]" "connections v = map_put fd (length (sv_made s)) (connections s)"
    using assms by (auto simp: onAccept_def Let_def)
qed

lemma server_step_ok:
  assumes "server_step s s'" "server_ok s"
  shows "server_ok s'"
  using assms(1)
proof cases
  case (accept rsize wsize fd v)
  note ok = server_okD [OF assms(2)]
  let ?n = "length (sv_made (sv s))"
  obtain x where x: "sc_fd x = fd" "sv_made v = sv_made (sv s) @ [x]" "connections v = map_put fd ?n (connections (sv s))"
    using onAccept_Some [OF accept(2)] by blast
  have n: "?n \<notin> set (destroyed s)"
    using ok(6) by auto
  have live: "live s' c \<longleftrightarrow> live s c \<or> c = ?n" for c
    using x n by (auto simp: live_def accept(1))
  have fd: "fd_of s' c = (if c = ?n then fd else fd_of s c)" if "c \<le> ?n" for c
    using that x by (auto simp: fd_of_def accept(1) nth_append)
  have le: "c \<le> ?n \<and> c \<noteq> ?n" if "live s c" for c
    using that by (simp add: live_def)
  have "map_of (connections (sv s')) g = Some c \<longleftrightarrow> live s' c \<and> fd_of s' c = g" for g c
    using ok(1) [of g c] accept(3) [of c] live [of c] fd [of c] le [of c] x(3) accept(1) by auto
  moreover have "live s' c \<and> fd_of s' c = g" if "(g, c) \<in> set (removals s)" for g c
    using ok(5) [OF that] live [of c] fd [of c] le [of c] by auto
  ultimately show ?thesis
    using ok(2-4,6) x(2,3) by (auto simp: server_ok_def accept(1))
next
  case (close c)
  note ok = server_okD [OF assms(2)]
  have "live s' d = live s d" "fd_of s' d = fd_of s d" for d
    by (simp_all add: close(1) live_def fd_of_def)
  moreover have "c \<notin> set (destroyed s)" "c \<notin> snd ` set (removals s)"
    using close(3) ok(4) by auto
  ultimately show ?thesis
    using assms(2) close(2) by (auto simp: server_ok_def close(1) onClose_sv_def)
next
  case (remove fd c rest ts v)
  note ok = server_okD [OF assms(2)]
  have c: "live s c" "fd_of s c = fd"
    using ok(5) [of fd c] remove(2) by auto
  have v: "sv_made v = sv_made (sv s)" "connections v = AList.delete fd (connections (sv s))" "ts = [(c, DestroyInLoop)]"
    using remove(3) by (auto simp: removeConnection_def destroy_at_def destroy_def)
  have live: "live s' d \<longleftrightarrow> live s d \<and> d \<noteq> c" and fd: "fd_of s' d = fd_of s d" for d
    using v by (auto simp: remove(1) live_def fd_of_def)
  have only: "d = c" if "live s d" "fd_of s d = fd" for d
    using ok(1) [of fd d] ok(1) [of fd c] c that by simp
  have "map_of (connections (sv s')) g = Some d \<longleftrightarrow> live s' d \<and> fd_of s' d = g" for g d
    using ok(1) [of g d] only [of d] live [of d] fd [of d] c(2) v(2) by (auto simp: remove(1) delete_conv')
  moreover have "live s' d \<and> fd_of s' d = g" if "(g, d) \<in> set rest" for g d
    using ok(5) [of g d] ok(3) that remove(2) live [of d] fd [of d] by force
  moreover have "distinct (map fst (connections v))"
    using ok(2) v(2) distinct_delete by simp
  ultimately show ?thesis
    using ok(3,4,6) remove(2) c v(1,3) by (auto simp: server_ok_def remove(1) live_def)
qed

lemma server_reaches_ok: "server_reaches s t \<Longrightarrow> server_ok s \<Longrightarrow> server_ok t"
  by (induction rule: server_reaches.induct) (auto dest: server_step_ok)

subsection \<open>Properties\<close>

text \<open>
  C10: in every order of accepting, closing and removing, and however the kernel reuses descriptors:
  the server's map holds exactly the connections that were not destroyed, under their descriptors;
  each connection is destroyed at most once, after its close callback; and of a connection whose
  callback has run, the removal is queued or done.
\<close>

theorem server_tracks_connections:
  assumes "server_reaches (start_server p) s"
  shows "(map_of (connections (sv s)) fd = Some c \<longleftrightarrow> live s c \<and> fd_of s c = fd)
    \<and> distinct (destroyed s) \<and> set (destroyed s) \<subseteq> closed_conns s
    \<and> closed_conns s = set (destroyed s) \<union> snd ` set (removals s)"
proof -
  have "server_ok (start_server p)"
    by (simp add: server_ok_def start_server_def setEventLoopThreadPool_def new_server_def live_def)
  note ok = server_okD [OF server_reaches_ok [OF assms this]]
  show ?thesis
    using ok(1) [of fd c] ok(3,4) by auto
qed

lemma server_tracks_connections_witness:
  "\<exists>s :: (nat, unit) server_sys. server_reaches (start_server None) s \<and> destroyed s = [0] \<and> connections (sv s) = []
    \<and> distinct (destroyed s) \<and> set (destroyed s) \<subseteq> closed_conns s"
proof -
  define v :: "(nat, unit) tcp_server" where
    "v = new_server\<lparr>sv_made := [\<lparr>sc_fd = 7, sc_loop = None, sc_conn = new_conn 7 0 0\<rparr>], connections := [(7, 0)]\<rparr>"
  define s1 where "s1 = (start_server None)\<lparr>sv := v\<rparr>"
  define s2 where "s2 = s1\<lparr>removals := removals s1 @ onClose_sv (fd_of s1 0) 0, closed_conns := insert 0 (closed_conns s1)\<rparr>"
  define s3 where "s3 = s2\<lparr>sv := snd (removeConnection 7 0 (sv s2)), removals := [],
    destroyed := destroyed s2 @ map fst (filter (\<lambda>(_, t). t = DestroyInLoop) (fst (removeConnection 7 0 (sv s2))))\<rparr>"
  have "server_step (start_server None) s1"
    unfolding s1_def by (rule server_step.accept [of 0 0 7])
      (simp_all add: v_def onAccept_def next_loop_def start_server_def setEventLoopThreadPool_def new_server_def map_put_def live_def)
  moreover have "server_step s1 s2"
    unfolding s2_def by (rule server_step.close) (simp_all add: s1_def v_def live_def start_server_def)
  moreover have "server_step s2 s3"
    unfolding s3_def by (rule server_step.remove [of _ 7 0])
      (simp_all add: s2_def s1_def v_def onClose_sv_def fd_of_def start_server_def)
  ultimately have r: "server_reaches (start_server None) s3"
    by (meson server_reaches.intros)
  moreover have "destroyed s3 = [0]" "connections (sv s3) = []"
    by (simp_all add: s3_def s2_def s1_def v_def removeConnection_def destroy_at_def destroy_def start_server_def)
  ultimately show ?thesis
    using server_tracks_connections [OF r] by blast
qed

text \<open>
  C28: the connections are spread evenly: with a pool of \<open>n > 0\<close> loops the \<open>j\<close>-th connection goes to
  loop \<open>(j + 1) mod n\<close>, for any number of connections.  With an empty pool the first connection
  divides by zero.
\<close>

theorem round_robin:
  assumes "new_loop_pool u fs w n = Some p"
  shows "if n = 0 then onAccept cb r r' fd (setEventLoopThreadPool (Some p) new_server) = None
    else \<exists>s. accept_all fds (setEventLoopThreadPool (Some p) new_server) = Some s \<and> map sc_fd (sv_made s) = fds
      \<and> map sc_loop (sv_made s) = map (\<lambda>j. Some ((j + 1) mod unat n)) [0..<length fds]"
proof (cases "n = 0")
  case True
  then have "getCount p = 0"
    using assms by (auto simp: getCount_def elim: new_loop_pool_cases)
  then show ?thesis
    using True by (simp add: onAccept_def next_loop_def setEventLoopThreadPool_def)
next
  case False
  then have "0 < n"
    by (simp add: word_neq_0_conv)
  then show ?thesis
    using False accept_all_loops [OF assms, of "setEventLoopThreadPool (Some p) new_server" fds]
    by (simp add: setEventLoopThreadPool_def new_server_def)
qed

lemma round_robin_witness:
  "\<exists>(p :: (nat, unit) loop_pool) s. new_loop_pool 0 (\<lambda>i. 3 + i) () 2 = Some p
    \<and> accept_all [11, 12, 13] (setEventLoopThreadPool (Some p) new_server) = Some s
    \<and> map sc_loop (sv_made s) = [Some 1, Some 0, Some 1]"
proof -
  obtain ls :: "(nat, unit) evloop list" where "new_loops 0 (\<lambda>i. 3 + i) () (unat (2 :: 32 word)) = Some ls"
    using new_loops_Some [of 0 "\<lambda>i. 3 + i" "()" "unat (2 :: 32 word)", where 'f = nat] by metis
  then obtain p :: "(nat, unit) loop_pool" where p: "new_loop_pool 0 (\<lambda>i. 3 + i) () 2 = Some p"
    by (auto simp: new_loop_pool_def)
  then show ?thesis
    using round_robin [OF p, of _ _ _ _ "[11, 12, 13]"] by (auto simp: upt_rec)
qed

end
