(* ===== verification/Connector.thy ===== *)
theory Connector
  imports Sockets Channel
begin

section \<open>Connecting (net/Connector.h, net/Connector.cpp)\<close>

text \<open>
  A \<open>Connector\<close> opens a socket, connects it without blocking, and hands it to a callback.  \<open>connect\<close>
  and \<open>close\<close> may be called in any thread and queue a functor, a \<open>connector_task\<close>; the handlers in the
  loop queue further ones.  A handler returns its requests to the loop for the channel, the functors
  it queued, and the new state.  The channel is owned by the connector: \<open>cn_chan\<close> is its
  \<open>unique_ptr\<close>, and using it when it is null is undefined.
\<close>

subsection \<open>State and operations\<close>

record connector =
  cn_peer :: sockaddr_in
  connect_flag :: bool
  connecting :: bool
  cn_chan :: "channel option"

datatype connector_task = ConnectInLoop | CloseConnector | ResetChannel

type_synonym 'w cn_result = "(loop_request list \<times> connector_task list \<times> connector \<times> 'w) option"

text \<open>The callback may use the connector: it returns the functors it queued.\<close>

type_synonym 'w connect_callback = "int \<Rightarrow> sockaddr_in \<Rightarrow> connector \<times> 'w \<Rightarrow> (connector_task list \<times> connector \<times> 'w) option"

definition new_connector :: "sockaddr_in \<Rightarrow> connector" where
  "new_connector peer = \<lparr>cn_peer = peer, connect_flag = False, connecting = False, cn_chan = None\<rparr>"

definition connect_cn :: "connector \<Rightarrow> connector \<times> connector_task list" where
  "connect_cn c = (c\<lparr>connect_flag := True\<rparr>, [ConnectInLoop])"

definition close_cn :: "connector \<Rightarrow> connector \<times> connector_task list" where
  "close_cn c = (c\<lparr>connect_flag := False\<rparr>, [CloseConnector])"

text \<open>The errors after which the connection is on its way, and those after which it is tried again.\<close>

definition in_progress :: "nat \<Rightarrow> bool" where
  "in_progress err \<longleftrightarrow> err = EINPROGRESS \<or> err = EINTR \<or> err = EISCONN"

definition retries :: "nat \<Rightarrow> bool" where
  "retries err \<longleftrightarrow> err = EAGAIN \<or> err = EADDRINUSE \<or> err = EADDRNOTAVAIL \<or> err = ECONNREFUSED \<or> err = ENETUNREACH"

definition connectInLoop :: "'w kernel \<Rightarrow> 'w connect_callback option \<Rightarrow> connector \<times> 'w \<Rightarrow> 'w cn_result" where
  "connectInLoop k cb s =
     (case s of (c, w) \<Rightarrow>
      if \<not> connect_flag c \<or> connecting c then Some ([], [], s)
      else case open_sock k w of (r, w1) \<Rightarrow>
           case connect_sock k (ret r) (cn_peer c) w1 of (r2, w2) \<Rightarrow>
           if ret r2 = 0
           then (case getSockName k (ret r) True w2 of (r3, w3) \<Rightarrow>
                 case cb of None \<Rightarrow> Some ([], [], c, w3)
                 | Some f \<Rightarrow> do { (ts, s') \<leftarrow> f (ret r) (out_addr r3) (c, w3); Some ([], ts, s') })
           else if in_progress (errno r2)
           then (case open_ch (enableWrite (new_channel (nat (ret r)))) of (ch, reqs) \<Rightarrow>
                 Some (reqs, [], c\<lparr>connecting := True, cn_chan := Some ch\<rparr>, w2))
           else (case close_sock k (ret r) w2 of (_, w3) \<Rightarrow>
                 Some ([], if retries (errno r2) then [ConnectInLoop] else [], c, w3)))"

definition closeInLoop_cn :: "'w kernel \<Rightarrow> connector \<times> 'w \<Rightarrow> 'w cn_result" where
  "closeInLoop_cn k s =
     (case s of (c, w) \<Rightarrow>
      if \<not> connecting c then Some ([], [], s)
      else do {
        ch0 \<leftarrow> cn_chan c;
        let (ch, reqs) = close_ch ch0;
        let (_, w1) = close_sock k (int (ch_fd ch0)) w;
        Some (reqs, [], c\<lparr>cn_chan := Some ch\<rparr>, w1) })"

definition resetChannel :: "connector \<Rightarrow> connector" where
  "resetChannel c = c\<lparr>cn_chan := None\<rparr>"

definition onWrite_cn :: "'w kernel \<Rightarrow> 'w connect_callback option \<Rightarrow> connector \<times> 'w \<Rightarrow> 'w cn_result" where
  "onWrite_cn k cb s =
     (case s of (c, w) \<Rightarrow>
      if \<not> connect_flag c \<or> \<not> connecting c then Some ([], [], s)
      else do {
        ch0 \<leftarrow> cn_chan c;
        let fd = int (ch_fd ch0);
        let (ch, reqs) = close_ch ch0;
        let c' = c\<lparr>cn_chan := Some ch, connecting := False\<rparr>;
        let (r, w1) = getError k fd True w;
        if ret r = 0 \<and> out_int r = 0
        then (case getSockName k fd True w1 of (r2, w2) \<Rightarrow>
              case cb of
                Some f \<Rightarrow> do { (ts, s') \<leftarrow> f fd (out_addr r2) (c', w2); Some (reqs, ResetChannel # ts, s') }
              | None \<Rightarrow> Some (reqs, [ResetChannel], c', snd (close_sock k fd w2)))
        else (case close_sock k fd w1 of (_, w2) \<Rightarrow> Some (reqs, [ResetChannel, ConnectInLoop], c', w2)) })"

text \<open>What the loop does with a queued functor, and with the functors of one round in order.\<close>

fun run_connector_task :: "'w kernel \<Rightarrow> 'w connect_callback option \<Rightarrow> connector_task \<Rightarrow> connector \<times> 'w \<Rightarrow> 'w cn_result" where
  "run_connector_task k cb ConnectInLoop s = connectInLoop k cb s"
| "run_connector_task k cb CloseConnector s = closeInLoop_cn k s"
| "run_connector_task k cb ResetChannel s = Some ([], [], resetChannel (fst s), snd s)"

fun run_connector_tasks :: "'w kernel \<Rightarrow> 'w connect_callback option \<Rightarrow> connector_task list \<Rightarrow> connector \<times> 'w \<Rightarrow> 'w cn_result" where
  "run_connector_tasks k cb [] s = Some ([], [], s)"
| "run_connector_tasks k cb (t # ts) s = do {
     (rs, new, s1) \<leftarrow> run_connector_task k cb t s;
     (rs', new', s2) \<leftarrow> run_connector_tasks k cb ts s1;
     Some (rs @ rs', new @ new', s2) }"

text \<open>
  A turn of the loop as the connector sees it: when the poller reports the channel writeable (\<open>ev\<close>),
  its handler runs; then the functors run, those that were queued before and those of the handler,
  in this order.  The functors that these queue wait for the next turn.
\<close>

definition connector_turn ::
  "'w kernel \<Rightarrow> 'w connect_callback option \<Rightarrow> bool \<Rightarrow> connector_task list \<Rightarrow> connector \<times> 'w \<Rightarrow> 'w cn_result" where
  "connector_turn k cb ev ts s = do {
     (rs, new, s1) \<leftarrow> (if ev then onWrite_cn k cb s else Some ([], [], s));
     (rs', new', s2) \<leftarrow> run_connector_tasks k cb (ts @ new) s1;
     Some (rs @ rs', new', s2) }"

fun connector_turns ::
  "'w kernel \<Rightarrow> 'w connect_callback option \<Rightarrow> bool list \<Rightarrow> connector_task list \<Rightarrow> connector \<times> 'w \<Rightarrow> 'w cn_result" where
  "connector_turns k cb [] ts s = Some ([], ts, s)"
| "connector_turns k cb (ev # evs) ts s = do {
     (rs, new, s1) \<leftarrow> connector_turn k cb ev ts s;
     (rs', new', s2) \<leftarrow> connector_turns k cb evs new s1;
     Some (rs @ rs', new', s2) }"

subsection \<open>Retrying\<close>

text \<open>
  A peer that fails \<open>left\<close> attempts, each at once or after a while, and then accepts, at once or after
  a while: \<open>connect\<close> on the non-blocking socket answers with success, with an error, or that the
  attempt is in progress, and then \<open>SO_ERROR\<close> tells how it ended.  The environment records the
  descriptors that were opened and closed.
\<close>

definition attempts :: "'w kernel \<Rightarrow> ('w \<Rightarrow> nat) \<Rightarrow> ('w \<Rightarrow> int list) \<Rightarrow> ('w \<Rightarrow> int list) \<Rightarrow> bool" where
  "attempts k left opened closed \<longleftrightarrow>
     (\<forall>w r w1. open_sock k w = (r, w1) \<longrightarrow> 0 \<le> ret r \<and> left w1 = left w \<and> opened w1 = opened w @ [ret r] \<and> closed w1 = closed w)
   \<and> (\<forall>fd addr w r w1. connect_sock k fd addr w = (r, w1) \<longrightarrow> opened w1 = opened w \<and> closed w1 = closed w
        \<and> (ret r = 0 \<and> left w = 0
           \<or> ret r = -1 \<and> in_progress (errno r) \<and> left w1 = left w
           \<or> ret r = -1 \<and> retries (errno r) \<and> left w = Suc (left w1)))
   \<and> (\<forall>fd w r w1. getError k fd True w = (r, w1) \<longrightarrow> opened w1 = opened w \<and> closed w1 = closed w
        \<and> (if left w = 0 then ret r = 0 \<and> out_int r = 0
           else (ret r \<noteq> 0 \<or> out_int r \<noteq> 0) \<and> left w = Suc (left w1)))
   \<and> (\<forall>fd w r w1. close_sock k fd w = (r, w1) \<longrightarrow> left w1 = left w \<and> opened w1 = opened w \<and> closed w1 = closed w @ [fd])
   \<and> (\<forall>fd b w r w1. getSockName k fd b w = (r, w1) \<longrightarrow> opened w1 = opened w \<and> closed w1 = closed w)"

lemma attemptsD:
  assumes "attempts k left opened closed"
  shows "open_sock k w = (r, w1) \<Longrightarrow> 0 \<le> ret r \<and> left w1 = left w \<and> opened w1 = opened w @ [ret r] \<and> closed w1 = closed w"
    and "connect_sock k fd addr w = (r, w1) \<Longrightarrow> opened w1 = opened w \<and> closed w1 = closed w
      \<and> (ret r = 0 \<and> left w = 0 \<or> ret r = -1 \<and> in_progress (errno r) \<and> left w1 = left w
         \<or> ret r = -1 \<and> retries (errno r) \<and> left w = Suc (left w1))"
    and "getError k fd True w = (r, w1) \<Longrightarrow> opened w1 = opened w \<and> closed w1 = closed w
      \<and> (if left w = 0 then ret r = 0 \<and> out_int r = 0 else (ret r \<noteq> 0 \<or> out_int r \<noteq> 0) \<and> left w = Suc (left w1))"
    and "close_sock k fd w = (r, w1) \<Longrightarrow> left w1 = left w \<and> opened w1 = opened w \<and> closed w1 = closed w @ [fd]"
    and "getSockName k fd b w = (r, w1) \<Longrightarrow> opened w1 = opened w \<and> closed w1 = closed w"
proof -
  note a = assms [unfolded attempts_def]
  note b = a [THEN conjunct2] and c = a [THEN conjunct2, THEN conjunct2] and d = a [THEN conjunct2, THEN conjunct2, THEN conjunct2]
  show "open_sock k w = (r, w1) \<Longrightarrow> 0 \<le> ret r \<and> left w1 = left w \<and> opened w1 = opened w @ [ret r] \<and> closed w1 = closed w"
    by (rule a [THEN conjunct1, rule_format])
  show "connect_sock k fd addr w = (r, w1) \<Longrightarrow> opened w1 = opened w \<and> closed w1 = closed w
      \<and> (ret r = 0 \<and> left w = 0 \<or> ret r = -1 \<and> in_progress (errno r) \<and> left w1 = left w
         \<or> ret r = -1 \<and> retries (errno r) \<and> left w = Suc (left w1))"
    by (rule b [THEN conjunct1, rule_format])
  show "getError k fd True w = (r, w1) \<Longrightarrow> opened w1 = opened w \<and> closed w1 = closed w
      \<and> (if left w = 0 then ret r = 0 \<and> out_int r = 0 else (ret r \<noteq> 0 \<or> out_int r \<noteq> 0) \<and> left w = Suc (left w1))"
    by (rule c [THEN conjunct1, rule_format])
  show "close_sock k fd w = (r, w1) \<Longrightarrow> left w1 = left w \<and> opened w1 = opened w \<and> closed w1 = closed w @ [fd]"
    by (rule d [THEN conjunct1, rule_format])
  show "getSockName k fd b w = (r, w1) \<Longrightarrow> opened w1 = opened w \<and> closed w1 = closed w"
    by (rule d [THEN conjunct2, rule_format])
qed

lemma retries_not_in_progress: "retries e \<Longrightarrow> \<not> in_progress e"
  by (auto simp: retries_def in_progress_def errno_values)

text \<open>
  What the kernel did between two states: it opened \<open>os\<close> and closed \<open>cs\<close>, and left the rest of the
  environment, which is the callback's, alone.
\<close>

definition kernel_ran ::
  "('w \<Rightarrow> int list) \<Rightarrow> ('w \<Rightarrow> int list) \<Rightarrow> ('w \<Rightarrow> 'v) \<Rightarrow> 'w \<Rightarrow> int list \<Rightarrow> int list \<Rightarrow> 'w \<Rightarrow> bool" where
  "kernel_ran opened closed other w os cs w' \<longleftrightarrow>
     opened w' = opened w @ os \<and> closed w' = closed w @ cs \<and> other w' = other w"

lemma kernel_ran_trans:
  "kernel_ran opened closed other w os cs w1 \<Longrightarrow> kernel_ran opened closed other w1 os' cs' w2
    \<Longrightarrow> kernel_ran opened closed other w (os @ os') (cs @ cs') w2"
  by (simp add: kernel_ran_def)

definition untouched :: "'w kernel \<Rightarrow> ('w \<Rightarrow> 'v) \<Rightarrow> bool" where
  "untouched k other \<longleftrightarrow> (\<forall>cmd w r w1. k cmd w = (r, w1) \<longrightarrow> other w1 = other w)"

lemma untouchedD: "untouched k other \<Longrightarrow> k cmd w = (r, w1) \<Longrightarrow> other w1 = other w"
  by (simp add: untouched_def)

text \<open>One attempt: it is delivered at once, refused at once and queued again, or pending.\<close>

definition pending_channel :: "int \<Rightarrow> channel" where
  "pending_channel fd = (enableWrite (new_channel (nat fd)))\<lparr>ch_started := True\<rparr>"

lemma attempt_cases:
  assumes k: "attempts k left opened closed" and c: "connect_flag c" "\<not> connecting c"
    and f: "\<And>fd addr c w. f fd addr (c, w) = Some ([], c, g fd addr w)"
    and other: "untouched k other"
  obtains (now) fd addr w1 where "connectInLoop k (Some f) (c, w) = Some ([], [], c, g fd addr w1)" "left w = 0"
      "kernel_ran opened closed other w [fd] [] w1"
    | (retry) fd w1 where "connectInLoop k (Some f) (c, w) = Some ([], [ConnectInLoop], c, w1)" "left w = Suc (left w1)"
      "kernel_ran opened closed other w [fd] [fd] w1"
    | (later) fd w1 where "connectInLoop k (Some f) (c, w)
        = Some ([AddChannel], [], c\<lparr>connecting := True, cn_chan := Some (pending_channel fd)\<rparr>, w1)" "left w1 = left w"
      "0 \<le> fd" "kernel_ran opened closed other w [fd] [] w1"
proof -
  obtain r w1 where 1: "open_sock k w = (r, w1)" by fastforce
  obtain r2 w2 where 2: "connect_sock k (ret r) (cn_peer c) w1 = (r2, w2)" by fastforce
  obtain r3 w3 where 3: "getSockName k (ret r) True w2 = (r3, w3)" by fastforce
  obtain r4 w4 where 4: "close_sock k (ret r) w2 = (r4, w4)" by fastforce
  note o = attemptsD(1) [OF k 1] and cl = attemptsD(4) [OF k 4]
  have eq: "other w1 = other w" "other w2 = other w1" "other w3 = other w2" "other w4 = other w2"
    using untouchedD [OF other 1 [unfolded open_sock_def]] untouchedD [OF other 2 [unfolded connect_sock_def]]
      untouchedD [OF other 3 [unfolded getSockName_def]] untouchedD [OF other 4 [unfolded close_sock_def]] by simp_all
  consider "ret r2 = 0" "left w1 = 0" | "ret r2 = -1" "in_progress (errno r2)" "left w2 = left w1"
    | "ret r2 = -1" "retries (errno r2)" "left w1 = Suc (left w2)"
    using attemptsD(2) [OF k 2] by auto
  then show thesis
  proof cases
    case 1
    show thesis
    proof (rule now [of "ret r" "out_addr r3" w3])
      show "connectInLoop k (Some f) (c, w) = Some ([], [], c, g (ret r) (out_addr r3) w3)"
        using c \<open>open_sock k w = (r, w1)\<close> 2 3 1 f by (simp add: connectInLoop_def)
      show "left w = 0" "kernel_ran opened closed other w [ret r] [] w3"
        using o 1 attemptsD(2) [OF k 2] attemptsD(5) [OF k 3] eq by (simp_all add: kernel_ran_def)
    qed
  next
    case 2
    show thesis
    proof (rule later [of "ret r" w2])
      show "connectInLoop k (Some f) (c, w)
          = Some ([AddChannel], [], c\<lparr>connecting := True, cn_chan := Some (pending_channel (ret r))\<rparr>, w2)"
        using c 1 \<open>connect_sock k (ret r) (cn_peer c) w1 = (r2, w2)\<close> 2
        by (simp add: connectInLoop_def pending_channel_def open_ch_def enableWrite_def new_channel_def)
      show "left w2 = left w" "0 \<le> ret r" "kernel_ran opened closed other w [ret r] [] w2"
        using o 2 attemptsD(2) [OF k \<open>connect_sock k (ret r) (cn_peer c) w1 = (r2, w2)\<close>] eq by (simp_all add: kernel_ran_def)
    qed
  next
    case 3
    show thesis
    proof (rule retry [of w4 "ret r"])
      show "connectInLoop k (Some f) (c, w) = Some ([], [ConnectInLoop], c, w4)"
        using c 1 2 4 3 retries_not_in_progress by (simp add: connectInLoop_def)
      show "left w = Suc (left w4)" "kernel_ran opened closed other w [ret r] [ret r] w4"
        using o 3 attemptsD(2) [OF k 2] cl eq by (simp_all add: kernel_ran_def)
    qed
  qed
qed

text \<open>
  A pending attempt when its event comes: the socket is delivered and the channel released, or the
  socket is closed and the next attempt queued, behind the functor that releases the channel.
\<close>

definition connecting_on :: "int \<Rightarrow> connector \<Rightarrow> connector" where
  "connecting_on fd c = c\<lparr>connecting := True, cn_chan := Some (pending_channel fd)\<rparr>"

lemma pending_cases:
  assumes k: "attempts k left opened closed" and c: "connect_flag c" and fd: "0 \<le> fd"
    and f: "\<And>fd addr c w. f fd addr (c, w) = Some ([], c, g fd addr w)"
    and other: "untouched k other"
  obtains (finished) addr w1 ch where "onWrite_cn k (Some f) (connecting_on fd c, w)
        = Some ([RemoveChannel], [ResetChannel], c\<lparr>connecting := False, cn_chan := Some ch\<rparr>, g fd addr w1)" "left w = 0"
      "kernel_ran opened closed other w [] [] w1"
    | (failed) w1 ch where "onWrite_cn k (Some f) (connecting_on fd c, w)
        = Some ([RemoveChannel], [ResetChannel, ConnectInLoop], c\<lparr>connecting := False, cn_chan := Some ch\<rparr>, w1)"
      "left w = Suc (left w1)" "kernel_ran opened closed other w [] [fd] w1"
proof -
  obtain r w1 where 1: "getError k fd True w = (r, w1)" by fastforce
  obtain r2 w2 where 2: "getSockName k fd True w1 = (r2, w2)" by fastforce
  obtain r3 w3 where 3: "close_sock k fd w1 = (r3, w3)" by fastforce
  have eq: "other w1 = other w" "other w2 = other w1" "other w3 = other w1"
    using untouchedD [OF other 1 [unfolded getError_def]] untouchedD [OF other 2 [unfolded getSockName_def]] untouchedD [OF other 3 [unfolded close_sock_def]]
    by simp_all
  note e = attemptsD(3) [OF k 1] and n = attemptsD(5) [OF k 2] and cl = attemptsD(4) [OF k 3]
  let ?ch = "(pending_channel fd)\<lparr>ch_started := False\<rparr>"
  have ch: "close_ch (pending_channel fd) = (?ch, [RemoveChannel])" "int (ch_fd (pending_channel fd)) = fd"
    using fd by (simp_all add: pending_channel_def close_ch_def enableWrite_def new_channel_def)
  show thesis
  proof (cases "left w = 0")
    case True
    then show thesis
      using finished [of ?ch "out_addr r2" w2] c ch 1 2 e n eq f
      by (simp add: onWrite_cn_def connecting_on_def kernel_ran_def Let_def)
  next
    case False
    then have bad: "\<not> (ret r = 0 \<and> out_int r = 0)" "left w = Suc (left w3)"
      using e cl by auto
    have "onWrite_cn k (Some f) (connecting_on fd c, w)
        = Some ([RemoveChannel], [ResetChannel, ConnectInLoop], c\<lparr>connecting := False, cn_chan := Some ?ch\<rparr>, w3)"
      using c ch 1 3 bad(1) by (auto simp: onWrite_cn_def connecting_on_def Let_def)
    then show thesis
      using failed bad(2) e cl eq by (simp add: kernel_ran_def)
  qed
qed

text \<open>
  The turns of the loop until the peer accepts.  The requests for the poller come in pairs: no channel
  stays registered.
\<close>

definition paired :: "loop_request list \<Rightarrow> bool" where
  "paired rs \<longleftrightarrow> (\<exists>n. rs = concat (replicate n [AddChannel, RemoveChannel]))"

lemma paired_simps [simp]: "paired []" "paired (AddChannel # RemoveChannel # rs) \<longleftrightarrow> paired rs"
proof -
  show "paired []"
    unfolding paired_def by (rule exI [of _ 0]) simp
  show "paired (AddChannel # RemoveChannel # rs) \<longleftrightarrow> paired rs"
  proof
    assume "paired rs"
    then obtain n where "rs = concat (replicate n [AddChannel, RemoveChannel])"
      by (auto simp: paired_def)
    then show "paired (AddChannel # RemoveChannel # rs)"
      unfolding paired_def by (intro exI [of _ "Suc n"]) simp
  next
    assume "paired (AddChannel # RemoveChannel # rs)"
    then obtain n where n: "AddChannel # RemoveChannel # rs = concat (replicate n [AddChannel, RemoveChannel])"
      by (auto simp: paired_def)
    then show "paired rs"
      unfolding paired_def by (cases n) auto
  qed
qed

lemma idle_turns: "\<not> connecting c \<Longrightarrow> connector_turns k cb evs [] (c, w) = Some ([], [], c, w)"
  by (induction evs) (simp_all add: connector_turn_def onWrite_cn_def)

text \<open>The run ends with the socket \<open>fd\<close> delivered; \<open>os\<close> and \<open>cs\<close> were opened and closed on the way.\<close>

definition delivers ::
  "'w kernel \<Rightarrow> 'w connect_callback \<Rightarrow> (int \<Rightarrow> sockaddr_in \<Rightarrow> 'w \<Rightarrow> 'w) \<Rightarrow> ('w \<Rightarrow> int list \<Rightarrow> int list \<Rightarrow> 'w \<Rightarrow> bool)
   \<Rightarrow> loop_request list \<Rightarrow> bool list \<Rightarrow> connector_task list \<Rightarrow> connector \<times> 'w \<Rightarrow> connector \<times> 'w \<Rightarrow> int list \<Rightarrow> int list \<Rightarrow> int \<Rightarrow> bool" where
  "delivers k f g step pre evs ts s t os cs fd \<longleftrightarrow>
     (\<exists>rs addr v. connector_turns k (Some f) evs ts s = Some (rs, [], fst t, g fd addr v) \<and> paired (pre @ rs)
        \<and> step (snd t) os cs v)"

lemma delivers_later:
  assumes "connector_turn k (Some f) ev ts s = Some (rs, new, s1)" "delivers k f g (kernel_ran op cl other) (pre @ rs) evs new s1 (c, w1) os cs fd"
    "kernel_ran op cl other w os0 cs0 w1"
  shows "delivers k f g (kernel_ran op cl other) pre (ev # evs) ts s (c, w) (os0 @ os) (cs0 @ cs) fd"
proof -
  obtain rs' addr v where r: "connector_turns k (Some f) evs new s1 = Some (rs', [], c, g fd addr v)"
    "paired ((pre @ rs) @ rs')" "kernel_ran op cl other w1 os cs v"
    using assms(2) by (auto simp: delivers_def)
  then show ?thesis
    using assms(1) kernel_ran_trans [OF assms(3) r(3)] unfolding delivers_def
    by (intro exI [of _ "rs @ rs'"] exI [of _ addr] exI [of _ v]) simp
qed

lemma idle_delivers:
  "\<not> connecting c \<Longrightarrow> paired pre \<Longrightarrow> step w os cs v \<Longrightarrow> delivers k f g step pre evs [] (c, g fd addr v) (c, w) os cs fd"
  unfolding delivers_def by (intro exI [of _ "[]"] exI [of _ addr] exI [of _ v]) (simp add: idle_turns)

text \<open>
  Every write event ends one attempt at least: when there are more events than attempts that fail,
  one is delivered.  First what holds of a run that starts with an attempt queued, or pending, and a
  run from an attempt.
\<close>

definition run_queued where
  "run_queued k f g left step c evs \<longleftrightarrow> (\<forall>w. evs \<noteq> [] \<longrightarrow> left w < count_list (tl evs) True \<longrightarrow> (\<exists>fds fd.
     delivers k f g step [] evs [ConnectInLoop] (c, w) (c, w) (fds @ [fd]) fds fd \<and> length fds = left w))"

definition run_pending where
  "run_pending k f g left step c evs \<longleftrightarrow> (\<forall>w fd0. 0 \<le> fd0 \<longrightarrow> left w < count_list evs True \<longrightarrow> (\<exists>os fds fd.
     delivers k f g step [AddChannel] evs [] (connecting_on fd0 c, w) (c, w) os fds fd
       \<and> fd0 # os = fds @ [fd] \<and> length fds = left w))"

lemma attempt_delivers:
  assumes k: "attempts k left opened closed" and c: "connect_flag c" "\<not> connecting c"
    and f: "\<And>fd addr c w. f fd addr (c, w) = Some ([], c, g fd addr w)"
    and other: "untouched k other"
    and runs: "run_queued k f g left (kernel_ran opened closed other) c evs" "run_pending k f g left (kernel_ran opened closed other) c evs"
    and n: "left w < count_list evs True"
  shows "\<exists>rs new s1 os0 cs0 w1 os cs fd fds. connectInLoop k (Some f) (c, w) = Some (rs, new, s1)
    \<and> delivers k f g (kernel_ran opened closed other) rs evs new s1 (c, w1) os cs fd
    \<and> kernel_ran opened closed other w os0 cs0 w1 \<and> os0 @ os = fds @ [fd] \<and> cs0 @ cs = fds \<and> length fds = left w"
  using k c f other
proof (cases rule: attempt_cases [where f = f and g = g and w = w, consumes 5, case_names now retry later])
  case (now fd addr w1)
  then show ?thesis
    using idle_delivers [where step = "kernel_ran opened closed other" and w = w and v = w1 and os = "[fd]" and cs = "[]"
        and k = k and f = f and g = g and evs = evs and fd = fd and addr = addr, OF c(2) paired_simps(1) now(3)]
    by (intro exI [of _ "[]"] exI [of _ "(c, g fd addr w1)"] exI [of _ "w"] exI [of _ "[fd]"] exI [of _ fd] conjI)
      (simp_all add: kernel_ran_def)
next
  case (retry fd w1)
  have "evs \<noteq> []" "left w1 < count_list (tl evs) True"
    using n retry(2) by (cases evs; auto split: if_splits)+
  then obtain fds fd' where d: "delivers k f g (kernel_ran opened closed other) [] evs [ConnectInLoop] (c, w1) (c, w1) (fds @ [fd']) fds fd'"
    "length fds = left w1"
    using runs(1) unfolding run_queued_def by blast
  then show ?thesis
    using retry
    by (intro exI [of _ "[]"] exI [of _ "[ConnectInLoop]"] exI [of _ "(c, w1)"] exI [of _ w1] exI [of _ "[fd]"]
        exI [of _ "fds @ [fd']"] exI [of _ fds] exI [of _ fd'] exI [of _ "fd # fds"]) simp
next
  case (later fd w1)
  then obtain os fds fd' where d: "delivers k f g (kernel_ran opened closed other) [AddChannel] evs [] (connecting_on fd c, w1) (c, w1) os fds fd'"
    "fd # os = fds @ [fd']" "length fds = left w1"
    using runs(2) n unfolding run_pending_def by metis
  then show ?thesis
    using later unfolding connecting_on_def
    by (intro exI [of _ "[AddChannel]"] exI [of _ "[]"] exI [of _ "(c\<lparr>connecting := True, cn_chan := Some (pending_channel fd)\<rparr>, w1)"]
        exI [of _ "[fd]"] exI [of _ w1] exI [of _ os] exI [of _ fds] exI [of _ fd'] conjI) simp_all
qed

lemma turns_deliver:
  assumes k: "attempts k left opened closed" and c: "connect_flag c" "\<not> connecting c" "cn_chan c = None"
    and f: "\<And>fd addr c w. f fd addr (c, w) = Some ([], c, g fd addr w)"
    and other: "untouched k other"
  shows "run_queued k f g left (kernel_ran opened closed other) c evs \<and> run_pending k f g left (kernel_ran opened closed other) c evs"
proof (induction evs)
  case Nil
  then show ?case
    by (simp add: run_queued_def run_pending_def)
next
  case (Cons ev evs)
  note att = attempt_delivers [where f = f and g = g and other = other, OF k c(1,2) f other conjunct1 [OF Cons.IH] conjunct2 [OF Cons.IH]]
  have queued: "\<exists>fds fd. delivers k f g (kernel_ran opened closed other) [] (ev # evs) [ConnectInLoop] (c, w) (c, w) (fds @ [fd]) fds fd
      \<and> length fds = left w" if n: "left w < count_list evs True" for w
  proof -
    obtain rs new s1 os0 cs0 w1 os cs fd fds where a: "connectInLoop k (Some f) (c, w) = Some (rs, new, s1)"
      "delivers k f g (kernel_ran opened closed other) rs evs new s1 (c, w1) os cs fd"
      "kernel_ran opened closed other w os0 cs0 w1" "os0 @ os = fds @ [fd]" "cs0 @ cs = fds" "length fds = left w"
      using att [OF n] by (elim exE conjE) (rule that)
    have "connector_turn k (Some f) ev [ConnectInLoop] (c, w) = Some (rs, new, s1)"
      using a(1) c(2) by (cases s1) (simp add: connector_turn_def onWrite_cn_def)
    from delivers_later [OF this, of g opened closed other "[]" evs c w1 os cs fd w os0 cs0] show ?thesis
      using a(2-6) by (intro exI [of _ fds] exI [of _ fd]) simp
  qed
  have off: "c\<lparr>connecting := False, cn_chan := None\<rparr> = c"
    using c by simp
  have pending: "\<exists>os fds fd. delivers k f g (kernel_ran opened closed other) [AddChannel] (ev # evs) [] (connecting_on fd0 c, w) (c, w) os fds fd
      \<and> fd0 # os = fds @ [fd] \<and> length fds = left w" if fd0: "0 \<le> fd0" and n: "left w < count_list (ev # evs) True" for fd0 w
  proof (cases ev)
    case False
    then have "left w < count_list evs True"
      using n by simp
    then obtain os fds fd where d: "delivers k f g (kernel_ran opened closed other) [AddChannel] evs [] (connecting_on fd0 c, w) (c, w) os fds fd"
      "fd0 # os = fds @ [fd]" "length fds = left w"
      using Cons.IH fd0 unfolding run_pending_def by blast
    have "connector_turn k (Some f) ev [] (connecting_on fd0 c, w) = Some ([], [], connecting_on fd0 c, w)"
      using False by (simp add: connector_turn_def)
    from delivers_later [OF this, of g opened closed other "[AddChannel]" evs c w os fds fd w "[]" "[]"] d show ?thesis
      by (intro exI [of _ os] exI [of _ fds] exI [of _ fd]) (simp add: kernel_ran_def)
  next
    case True
    from k c(1) fd0 f other show ?thesis
    proof (cases rule: pending_cases [where f = f and g = g and w = w, consumes 5, case_names finished failed])
      case (finished addr w1 ch)
      have t: "connector_turn k (Some f) ev [] (connecting_on fd0 c, w) = Some ([RemoveChannel], [], c, g fd0 addr w1)"
        using finished(1) True off by (simp add: connector_turn_def resetChannel_def)
      have "delivers k f g (kernel_ran opened closed other) ([AddChannel] @ [RemoveChannel]) evs [] (c, g fd0 addr w1) (c, w) [] [] fd0"
        using idle_delivers [where step = "kernel_ran opened closed other" and w = w and v = w1 and os = "[]" and cs = "[]"
            and k = k and f = f and g = g and evs = evs and fd = fd0 and addr = addr, OF c(2) _ finished(3)] by simp
      from delivers_later [OF t this, of w "[]" "[]"] show ?thesis
        using finished(2) by (intro exI [of _ "[]"] exI [of _ fd0]) (simp add: kernel_ran_def)
    next
      case (failed w1 ch)
      then have less: "left w1 < count_list evs True"
        using n True by simp
      obtain rs new s1 os0 cs0 w2 os cs fd fds where a: "connectInLoop k (Some f) (c, w1) = Some (rs, new, s1)"
        "delivers k f g (kernel_ran opened closed other) rs evs new s1 (c, w2) os cs fd"
        "kernel_ran opened closed other w1 os0 cs0 w2" "os0 @ os = fds @ [fd]" "cs0 @ cs = fds" "length fds = left w1"
        using att [OF less] by (elim exE conjE) (rule that)
      have t: "connector_turn k (Some f) ev [] (connecting_on fd0 c, w) = Some (RemoveChannel # rs, new, s1)"
        using failed(1) True off a(1) by (cases s1) (simp add: connector_turn_def resetChannel_def)
      have r: "kernel_ran opened closed other w ([] @ os0) ([fd0] @ cs0) w2"
        using kernel_ran_trans [OF failed(3) a(3)] .
      have d: "delivers k f g (kernel_ran opened closed other) ([AddChannel] @ RemoveChannel # rs) evs new s1 (c, w2) os cs fd"
        using a(2) by (simp add: delivers_def)
      from delivers_later [OF t d r] show ?thesis
        using a(4-6) failed(2) by (intro exI [of _ "os0 @ os"] exI [of _ "fd0 # fds"] exI [of _ fd]) simp
    qed
  qed
  show ?case
    unfolding run_queued_def run_pending_def using queued pending by simp
qed

subsection \<open>Properties\<close>

text \<open>
  A connect is retried until the peer accepts, however often it fails, whether \<open>connect\<close> tells so at
  once or an event later: as soon as the poller has reported more write events than there were
  failures, one socket has been delivered to the callback, every other socket is closed, no channel is
  registered, and the connector is at rest.
\<close>

theorem connect_retries:
  assumes "attempts k left opened closed" "\<not> connecting c0" "cn_chan c0 = None"
    and "\<And>fd addr c w. f fd addr (c, w) = Some ([], c, g fd addr w)"
    and "connect_cn c0 = (c, ts)" "evs \<noteq> []" "left w < count_list (tl evs) True"
  shows "\<exists>rs fds fd addr w'. connector_turns k (Some f) evs ts (c, w) = Some (rs, [], c, g fd addr w') \<and> paired rs
    \<and> length fds = left w \<and> opened w' = opened w @ fds @ [fd] \<and> closed w' = closed w @ fds"
proof -
  have c: "connect_flag c" "\<not> connecting c" "cn_chan c = None" "ts = [ConnectInLoop]"
    using assms(2,3,5) by (auto simp: connect_cn_def)
  obtain fds fd where "delivers k f g (kernel_ran opened closed (\<lambda>_. ())) [] evs [ConnectInLoop] (c, w) (c, w) (fds @ [fd]) fds fd"
    "length fds = left w"
    using conjunct1 [OF turns_deliver [where f = f and g = g and other = "\<lambda>_. ()", OF assms(1) c(1-3) assms(4)], of evs] assms(6,7)
    unfolding run_queued_def by (auto simp: untouched_def)
  then show ?thesis
    unfolding c(4) delivers_def kernel_ran_def
    by (elim exE conjE, intro exI [of _ fds] exI [of _ fd] exI conjI) simp_all
qed

definition cn_reply :: "int \<Rightarrow> nat \<Rightarrow> reply" where
  "cn_reply v e = \<lparr>ret = v, errno = e, out_addr = InetAddress 0 '''', out_int = 0\<rparr>"

text \<open>
  A peer for the examples: of the attempts that fail, those at an even count fail at once and the
  others later; the successful one is in progress first.
\<close>

fun refusing_net :: "(nat \<times> int list \<times> int list) kernel" where
  "refusing_net (Sys_socket a b c) (n, os, cl) = (cn_reply (int (length os)) 0, n, os @ [int (length os)], cl)"
| "refusing_net (Sys_connect fd addr) (n, os, cl) =
     (if n \<noteq> 0 \<and> even n then (cn_reply (-1) ECONNREFUSED, n - 1, os, cl) else (cn_reply (-1) EINPROGRESS, n, os, cl))"
| "refusing_net (Sys_getsockopt fd l opt b) (n, os, cl) =
     ((if n = 0 then cn_reply 0 0 else (cn_reply 0 0)\<lparr>out_int := int ECONNREFUSED\<rparr>), n - 1, os, cl)"
| "refusing_net (Sys_close fd) (n, os, cl) = (cn_reply 0 0, n, os, cl @ [fd])"
| "refusing_net _ w = (cn_reply 0 0, w)"

lemma refusing_net_attempts: "attempts refusing_net fst (\<lambda>w. fst (snd w)) (\<lambda>w. snd (snd w))"
  by (auto simp: attempts_def open_sock_def connect_sock_def close_sock_def getSockName_def getError_def cn_reply_def
      retries_def in_progress_def errno_values split: if_splits)

lemma connect_retries_witness:
  "\<exists>rs fds fd w'. connector_turns refusing_net (Some (\<lambda>fd addr s. Some ([], s))) [False, False, True, True, True] [ConnectInLoop]
      ((new_connector (InetAddress 80 ''''))\<lparr>connect_flag := True\<rparr>, 2, [], [])
        = Some (rs, [], (new_connector (InetAddress 80 ''''))\<lparr>connect_flag := True\<rparr>, w')
    \<and> length (fds :: int list) = 2 \<and> fst (snd w') = fds @ [fd] \<and> snd (snd w') = fds"
  using connect_retries [OF refusing_net_attempts, of "new_connector (InetAddress 80 '''')" "\<lambda>fd addr s. Some ([], s)"
      "\<lambda>fd addr w. w" _ _ "[False, False, True, True, True]" "(2, [], [])"]
  by (fastforce simp: new_connector_def connect_cn_def simp del: connector_turns.simps)

text \<open>
  An asynchronous connect is delivered once: the channel asks for output only; when the socket
  has become writeable it is unregistered, the callback receives the socket that was opened, a second
  event does nothing, and the functor that follows releases the channel.
\<close>

theorem connect_delivers_once:
  assumes c: "connect_flag c" "\<not> connecting c"
    and sock: "open_sock k w = (r, w1)" "0 \<le> ret r"
    and pending: "connect_sock k (ret r) (cn_peer c) w1 = (r2, w2)" "ret r2 \<noteq> 0" "in_progress (errno r2)"
    and success: "getError k (ret r) True v = (r3, v1)" "ret r3 = 0" "out_int r3 = 0"
    and name: "getSockName k (ret r) True v1 = (r4, v2)"
    and cb: "\<And>c. f (ret r) (out_addr r4) (c, v2) = Some ([], c, v3)"
  shows "\<exists>c1 ch c2. connectInLoop k (Some f) (c, w) = Some ([AddChannel], [], c1, w2)
    \<and> cn_chan c1 = Some ch \<and> ch_fd ch = nat (ret r) \<and> ch_write ch \<and> \<not> ch_read ch
    \<and> connectInLoop k (Some f) (c1, w2) = Some ([], [], c1, w2)
    \<and> onWrite_cn k (Some f) (c1, v) = Some ([RemoveChannel], [ResetChannel], c2, v3)
    \<and> onWrite_cn k (Some f) (c2, v3) = Some ([], [], c2, v3)
    \<and> run_connector_task k (Some f) ResetChannel (c2, v3) = Some ([], [], c\<lparr>cn_chan := None\<rparr>, v3)"
proof -
  let ?ch = "(enableWrite (new_channel (nat (ret r))))\<lparr>ch_started := True\<rparr>"
  let ?c1 = "c\<lparr>connecting := True, cn_chan := Some ?ch\<rparr>"
  let ?c2 = "c\<lparr>connecting := False, cn_chan := Some (?ch\<lparr>ch_started := False\<rparr>)\<rparr>"
  have 1: "connectInLoop k (Some f) (c, w) = Some ([AddChannel], [], ?c1, w2)"
    using c sock pending by (simp add: connectInLoop_def open_ch_def enableWrite_def new_channel_def)
  have 2: "onWrite_cn k (Some f) (?c1, v) = Some ([RemoveChannel], [ResetChannel], ?c2, v3)"
    using c sock(2) success name cb by (simp add: onWrite_cn_def close_ch_def enableWrite_def new_channel_def)
  have 3: "resetChannel ?c2 = c\<lparr>cn_chan := None\<rparr>"
    using c by (simp add: resetChannel_def)
  have 4: "connectInLoop k (Some f) (?c1, w2) = Some ([], [], ?c1, w2)" "onWrite_cn k (Some f) (?c2, v3) = Some ([], [], ?c2, v3)"
    by (simp_all add: connectInLoop_def onWrite_cn_def)
  show ?thesis
    by (rule exI [of _ ?c1], rule exI [of _ ?ch], rule exI [of _ ?c2])
      (use 1 2 3 4 in \<open>simp add: enableWrite_def new_channel_def\<close>)
qed

fun slow_net :: "nat kernel" where
  "slow_net (Sys_socket a b c) n = (cn_reply 7 0, n + 1)"
| "slow_net (Sys_connect fd addr) n = (cn_reply (-1) EINPROGRESS, n + 1)"
| "slow_net _ n = (cn_reply 0 0, n + 1)"

lemma connect_delivers_once_witness:
  "\<exists>c1 ch c2. connectInLoop slow_net (Some (\<lambda>fd addr s. Some ([], s))) ((new_connector (InetAddress 80 ''''))\<lparr>connect_flag := True\<rparr>, 0)
      = Some ([AddChannel], [], c1, 2) \<and> cn_chan c1 = Some ch \<and> ch_fd ch = 7
    \<and> onWrite_cn slow_net (Some (\<lambda>fd addr s. Some ([], s))) (c1, 5) = Some ([RemoveChannel], [ResetChannel], c2, 7)"
  using connect_delivers_once [of "(new_connector (InetAddress 80 ''''))\<lparr>connect_flag := True\<rparr>" slow_net 0 "cn_reply 7 0" 1
      "cn_reply (-1) EINPROGRESS" 2 5 "cn_reply 0 0" 6 "cn_reply 0 0" 7 "\<lambda>fd addr s. Some ([], s)" 7]
  by (fastforce simp: new_connector_def open_sock_def connect_sock_def getError_def getSockName_def cn_reply_def in_progress_def)

text \<open>
  C39: a connect that is called while an attempt is pending, in the turn in which that attempt
  succeeds, loses its channel.  The event's handler delivers the socket and queues the functor that
  releases its channel behind the connect; the connect starts a new attempt with a channel of its own,
  which the functor then deletes.  The channel stays registered with the poller, and the event of the
  new attempt, like a close, uses a null pointer.
\<close>

theorem reset_deletes_new_channel:
  assumes old: "connecting c0" "cn_chan c0 = Some ch" "ch_started ch" and again: "connect_cn c0 = (c, ts)"
    and success: "getError k (int (ch_fd ch)) True w = (r1, w1)" "ret r1 = 0" "out_int r1 = 0"
    and name: "getSockName k (int (ch_fd ch)) True w1 = (r2, w2)"
    and cb: "\<And>c. f (int (ch_fd ch)) (out_addr r2) (c, w2) = Some ([], c, w3)"
    and sock: "open_sock k w3 = (r4, w4)"
    and pending: "connect_sock k (ret r4) (cn_peer c0) w4 = (r5, w5)" "ret r5 \<noteq> 0" "in_progress (errno r5)"
  shows "\<exists>c'. connector_turn k (Some f) True ts (c, w) = Some ([RemoveChannel, AddChannel], [], c', w5)
    \<and> connect_flag c' \<and> connecting c' \<and> cn_chan c' = None
    \<and> (\<forall>v. onWrite_cn k (Some f) (c', v) = None \<and> run_connector_task k (Some f) CloseConnector (c', v) = None)"
proof -
  have c: "c = c0\<lparr>connect_flag := True\<rparr>" "ts = [ConnectInLoop]"
    using again by (simp_all add: connect_cn_def)
  let ?c1 = "c\<lparr>cn_chan := Some (ch\<lparr>ch_started := False\<rparr>), connecting := False\<rparr>"
  have 1: "onWrite_cn k (Some f) (c, w) = Some ([RemoveChannel], [ResetChannel], ?c1, w3)"
    using old success name cb by (simp add: onWrite_cn_def close_ch_def c(1) Let_def)
  obtain ch' where 2: "connectInLoop k (Some f) (?c1, w3) = Some ([AddChannel], [], ?c1\<lparr>connecting := True, cn_chan := Some ch'\<rparr>, w5)"
    using sock pending by (simp add: connectInLoop_def open_ch_def enableWrite_def new_channel_def c(1))
  show ?thesis
    using 1 2 by (simp add: connector_turn_def c resetChannel_def closeInLoop_cn_def onWrite_cn_def)
qed

lemma reset_deletes_new_channel_witness:
  "\<exists>c'. connector_turn slow_net (Some (\<lambda>fd addr s. Some ([], s))) True [ConnectInLoop]
      (\<lparr>cn_peer = InetAddress 80 '''', connect_flag = True, connecting = True, cn_chan = Some ((new_channel 7)\<lparr>ch_started := True\<rparr>)\<rparr>, 0)
        = Some ([RemoveChannel, AddChannel], [], c', 4) \<and> cn_chan c' = None"
  using reset_deletes_new_channel [of "\<lparr>cn_peer = InetAddress 80 '''', connect_flag = True, connecting = True,
      cn_chan = Some ((new_channel 7)\<lparr>ch_started := True\<rparr>)\<rparr>" "(new_channel 7)\<lparr>ch_started := True\<rparr>" _ _ slow_net 0 "cn_reply 0 0" 1
      "cn_reply 0 0" 2 "\<lambda>fd addr s. Some ([], s)" 2 "cn_reply 7 0" 3 "cn_reply (-1) EINPROGRESS" 4]
  by (fastforce simp: new_channel_def open_sock_def connect_sock_def getError_def getSockName_def cn_reply_def in_progress_def connect_cn_def)

text \<open>
  Closing a pending connect does not reset \<open>connecting_\<close>: a later connect does nothing, and a
  second close closes the descriptor again, which by then may belong to someone else.
\<close>

theorem close_pending_is_final:
  assumes "connecting c" "cn_chan c = Some ch" "ch_started ch"
    and "close_sock k (int (ch_fd ch)) w = (r, w1)"
  shows "\<exists>c' c''. closeInLoop_cn k (fst (close_cn c), w) = Some ([RemoveChannel], [], c', w1)
    \<and> connectInLoop k cb (fst (connect_cn c'), v) = Some ([], [], c'', v) \<and> connect_flag c'' \<and> connecting c''
    \<and> (\<exists>c3. closeInLoop_cn k (fst (close_cn c''), v) = Some ([], [], c3, snd (close_sock k (int (ch_fd ch)) v)))"
  using assms by (simp add: closeInLoop_cn_def close_cn_def connect_cn_def connectInLoop_def close_ch_def split: prod.splits)

lemma close_pending_is_final_witness:
  "\<exists>c' c''. closeInLoop_cn slow_net (\<lparr>cn_peer = InetAddress 80 '''', connect_flag = False, connecting = True,
       cn_chan = Some ((new_channel 7)\<lparr>ch_started := True\<rparr>)\<rparr>, 0) = Some ([RemoveChannel], [], c', 1)
    \<and> connectInLoop slow_net None (fst (connect_cn c'), 4) = Some ([], [], c'', 4)"
  using close_pending_is_final [of "\<lparr>cn_peer = InetAddress 80 '''', connect_flag = False, connecting = True,
       cn_chan = Some ((new_channel 7)\<lparr>ch_started := True\<rparr>)\<rparr>" "(new_channel 7)\<lparr>ch_started := True\<rparr>" slow_net 0 "cn_reply 0 0" 1 None 4]
  by (fastforce simp: close_sock_def close_cn_def new_channel_def)

end
