(* ===== verification/TcpClient.thy ===== *)
theory TcpClient
  imports TcpLife Connector
begin

section \<open>The client (net/TcpClient.h, net/TcpClient.cpp)\<close>

text \<open>
  A \<open>TcpClient\<close> owns a connector and the connection it made; when the connection closes it connects
  again if it was asked to.  The connections are objects of their own: \<open>cl_made\<close> holds those that
  were ever made, and a pointer to one is its position.  Queued functors come back to the caller:
  those of connections as pairs of its number and the task, and those of the connector.
\<close>

subsection \<open>State and operations\<close>

record tcp_client =
  cl_peer :: sockaddr_in
  cl_connect :: bool
  cl_conn :: "nat option"
  cl_retry :: bool
  cl_made :: "conn list"

definition new_client :: "sockaddr_in \<Rightarrow> tcp_client \<times> connector" where
  "new_client peer =
     (\<lparr>cl_peer = peer, cl_connect = False, cl_conn = None, cl_retry = False, cl_made = []\<rparr>, new_connector (getSockAddr peer))"

definition setRetry :: "bool \<Rightarrow> tcp_client \<Rightarrow> tcp_client" where
  "setRetry b cl = cl\<lparr>cl_retry := b\<rparr>"

definition connect_cl :: "tcp_client \<times> connector \<Rightarrow> tcp_client \<times> connector \<times> connector_task list" where
  "connect_cl s =
     (case s of (cl, cn) \<Rightarrow> if cl_connect cl then (cl, cn, []) else (cl\<lparr>cl_connect := True\<rparr>, connect_cn cn))"

definition onConnect_cl :: "(nat \<Rightarrow> tcp_client \<Rightarrow> tcp_client option) option \<Rightarrow> nat \<Rightarrow> nat \<Rightarrow> int \<Rightarrow> tcp_client \<Rightarrow> tcp_client option" where
  "onConnect_cl cb rsize wsize fd cl =
     (let c = length (cl_made cl);
          cl1 = cl\<lparr>cl_made := cl_made cl @ [new_conn (nat fd) rsize wsize], cl_conn := Some c\<rparr>
      in case cb of None \<Rightarrow> Some cl1 | Some f \<Rightarrow> f c cl1)"

definition destroy_made :: "nat \<Rightarrow> tcp_client \<Rightarrow> (nat \<times> conn_task) list" where
  "destroy_made c cl = map (Pair c) (destroy (cl_made cl ! c))"

definition onClose_cl ::
  "nat \<Rightarrow> tcp_client \<times> connector \<Rightarrow> (nat \<times> conn_task) list \<times> connector_task list \<times> tcp_client \<times> connector" where
  "onClose_cl c s =
     (case s of (cl, cn) \<Rightarrow>
      if cl_conn cl \<noteq> Some c then ([], [], cl, cn)
      else let ts = destroy_made c cl; cl1 = cl\<lparr>cl_conn := None\<rparr> in
        if \<not> cl_connect cl1 then (ts, [], cl1, cn)
        else if cl_retry cl1 then (case connect_cn cn of (cn', cts) \<Rightarrow> (ts, cts, cl1, cn'))
        else (ts, [], cl1\<lparr>cl_connect := False\<rparr>, cn))"

definition delete_client :: "tcp_client \<times> connector \<Rightarrow> (nat \<times> conn_task) list \<times> connector_task list \<times> connector" where
  "delete_client s =
     (case s of (cl, cn) \<Rightarrow>
      if cl_connect cl
      then (case cl_conn cl of
              Some c \<Rightarrow> (destroy_made c cl, [], cn)
            | None \<Rightarrow> (case close_cn cn of (cn', ts) \<Rightarrow> ([], ts, cn')))
      else ([], [], cn))"

subsection \<open>The client as the connector's callback\<close>

text \<open>The client lives beside the rest of the environment, which the kernel acts on.\<close>

definition beside :: "'w kernel \<Rightarrow> ('w \<times> tcp_client) kernel" where
  "beside k c s = (case s of (w, cl) \<Rightarrow> case k c w of (r, w1) \<Rightarrow> (r, w1, cl))"

definition client_callback :: "nat \<Rightarrow> nat \<Rightarrow> ('w \<times> tcp_client) connect_callback" where
  "client_callback rsize wsize fd addr s =
     (case s of (cn, w, cl) \<Rightarrow> do { cl' \<leftarrow> onConnect_cl None rsize wsize fd cl; Some ([], cn, w, cl') })"

lemma beside_Pair: "beside k c (w, cl) = (r, s1) \<longleftrightarrow> (\<exists>w1. k c w = (r, w1) \<and> s1 = (w1, cl))"
  by (auto simp: beside_def split: prod.splits)

lemma beside_attempts:
  assumes "attempts k left opened closed"
  shows "attempts (beside k) (\<lambda>s. left (fst s)) (\<lambda>s. opened (fst s)) (\<lambda>s. closed (fst s))"
proof -
  have run: "\<exists>w1. s1 = (w1, snd s) \<and> k cmd (fst s) = (r, w1)" if "beside k cmd s = (r, s1)" for cmd r and s s1 :: "'a \<times> tcp_client"
    using that by (cases s) (auto simp: beside_Pair)
  show ?thesis
    unfolding attempts_def
  proof (rule conjI [OF _ conjI [OF _ conjI [OF _ conjI]]]; intro allI impI)
    fix r and s s1 :: "'a \<times> tcp_client"
    assume a: "open_sock (beside k) s = (r, s1)"
    obtain w1 where w1: "s1 = (w1, snd s)" "open_sock k (fst s) = (r, w1)"
      using run [OF a [unfolded open_sock_def]] by (auto simp: open_sock_def)
    show "0 \<le> ret r \<and> left (fst s1) = left (fst s) \<and> opened (fst s1) = opened (fst s) @ [ret r] \<and> closed (fst s1) = closed (fst s)"
      using attemptsD(1) [OF assms w1(2)] w1(1) by simp
  next
    fix fd addr r and s s1 :: "'a \<times> tcp_client"
    assume a: "connect_sock (beside k) fd addr s = (r, s1)"
    obtain w1 where w1: "s1 = (w1, snd s)" "connect_sock k fd addr (fst s) = (r, w1)"
      using run [OF a [unfolded connect_sock_def]] by (auto simp: connect_sock_def)
    show "opened (fst s1) = opened (fst s) \<and> closed (fst s1) = closed (fst s)
        \<and> (ret r = 0 \<and> left (fst s) = 0 \<or> ret r = -1 \<and> in_progress (errno r) \<and> left (fst s1) = left (fst s)
           \<or> ret r = -1 \<and> retries (errno r) \<and> left (fst s) = Suc (left (fst s1)))"
      using attemptsD(2) [OF assms w1(2)] w1(1) by simp
  next
    fix fd r and s s1 :: "'a \<times> tcp_client"
    assume a: "getError (beside k) fd True s = (r, s1)"
    obtain w1 where w1: "s1 = (w1, snd s)" "getError k fd True (fst s) = (r, w1)"
      using run [OF a [unfolded getError_def]] by (auto simp: getError_def)
    show "opened (fst s1) = opened (fst s) \<and> closed (fst s1) = closed (fst s)
        \<and> (if left (fst s) = 0 then ret r = 0 \<and> out_int r = 0
           else (ret r \<noteq> 0 \<or> out_int r \<noteq> 0) \<and> left (fst s) = Suc (left (fst s1)))"
      using attemptsD(3) [OF assms w1(2)] w1(1) by (cases "left (fst s) = 0") simp_all
  next
    fix fd r and s s1 :: "'a \<times> tcp_client"
    assume a: "close_sock (beside k) fd s = (r, s1)"
    obtain w1 where w1: "s1 = (w1, snd s)" "close_sock k fd (fst s) = (r, w1)"
      using run [OF a [unfolded close_sock_def]] by (auto simp: close_sock_def)
    show "left (fst s1) = left (fst s) \<and> opened (fst s1) = opened (fst s) \<and> closed (fst s1) = closed (fst s) @ [fd]"
      using attemptsD(4) [OF assms w1(2)] w1(1) by simp
  next
    fix fd b r and s s1 :: "'a \<times> tcp_client"
    assume a: "getSockName (beside k) fd b s = (r, s1)"
    obtain w1 where w1: "s1 = (w1, snd s)" "getSockName k fd b (fst s) = (r, w1)"
      using run [OF a [unfolded getSockName_def]] by (auto simp: getSockName_def)
    show "opened (fst s1) = opened (fst s) \<and> closed (fst s1) = closed (fst s)"
      using attemptsD(5) [OF assms w1(2)] w1(1) by simp
  qed
qed

definition with_conn :: "nat \<Rightarrow> nat \<Rightarrow> int \<Rightarrow> sockaddr_in \<Rightarrow> 'w \<times> tcp_client \<Rightarrow> 'w \<times> tcp_client" where
  "with_conn rsize wsize fd addr s =
     (fst s, (snd s)\<lparr>cl_made := cl_made (snd s) @ [new_conn (nat fd) rsize wsize], cl_conn := Some (length (cl_made (snd s)))\<rparr>)"

lemma client_callback_Some: "client_callback r s fd addr (cn, w) = Some ([], cn, with_conn r s fd addr w)"
  by (cases w) (simp add: client_callback_def onConnect_cl_def with_conn_def Let_def)

subsection \<open>Properties\<close>

text \<open>
  C13: a client that connects gets its connection however often the attempts fail, whether \<open>connect\<close>
  fails or succeeds at once or is in progress and \<open>onWrite\<close> finds out later: as soon as the poller has
  reported more write events than there were failures, the client holds one new connection, on the
  socket that was opened last and is the only one not closed; no channel stays registered, and the
  connector is at rest.
\<close>

theorem client_connects:
  assumes k: "attempts k left opened closed" and "\<not> cl_connect cl0" "\<not> connecting cn0" "cn_chan cn0 = None"
    and "connect_cl (cl0, cn0) = (cl, cn, ts)" and evs: "evs \<noteq> []" "left w < count_list (tl evs) True"
  shows "\<exists>rs fds fd w' cl'. connector_turns (beside k) (Some (client_callback rsize wsize)) evs ts (cn, w, cl)
      = Some (rs, [], cn, w', cl') \<and> paired rs
    \<and> cl_conn cl' = Some (length (cl_made cl)) \<and> cl_made cl' = cl_made cl @ [new_conn (nat fd) rsize wsize] \<and> cl_connect cl'
    \<and> length fds = left w \<and> opened w' = opened w @ fds @ [fd] \<and> closed w' = closed w @ fds"
proof -
  have c: "cl = cl0\<lparr>cl_connect := True\<rparr>" "connect_flag cn" "\<not> connecting cn" "cn_chan cn = None" "ts = [ConnectInLoop]"
    using assms(2-5) by (auto simp: connect_cl_def connect_cn_def)
  have "untouched (beside k) (snd :: 'a \<times> tcp_client \<Rightarrow> tcp_client)"
    unfolding untouched_def by (auto simp: beside_def split: prod.splits)
  note d = turns_deliver [where f = "client_callback rsize wsize" and g = "with_conn rsize wsize",
      OF beside_attempts [OF k] c(2-4) client_callback_Some this]
  obtain fds fd where "delivers (beside k) (client_callback rsize wsize) (with_conn rsize wsize)
      (kernel_ran (\<lambda>s. opened (fst s)) (\<lambda>s. closed (fst s)) snd) [] evs [ConnectInLoop] (cn, w, cl) (cn, w, cl) (fds @ [fd]) fds fd"
    "length fds = left w"
    using conjunct1 [OF d, of evs, unfolded run_queued_def, THEN spec, of "(w, cl)"] evs by auto
  then obtain rs addr v where r:
    "connector_turns (beside k) (Some (client_callback rsize wsize)) evs ts (cn, w, cl) = Some (rs, [], cn, with_conn rsize wsize fd addr v)"
    "paired rs" "opened (fst v) = opened w @ fds @ [fd]" "closed (fst v) = closed w @ fds" "snd v = cl" "length fds = left w"
    unfolding c(5) by (auto simp: delivers_def kernel_ran_def)
  then show ?thesis
    using c(1) by (intro exI [of _ rs] exI [of _ fds] exI [of _ fd] exI [of _ "fst v"]
        exI [of _ "snd (with_conn rsize wsize fd addr v)"]) (simp add: with_conn_def)
qed

lemma client_connects_witness:
  "\<exists>cn rs w' cl'. connector_turns (beside refusing_net) (Some (client_callback 0 0)) [False, False, True, True, True] [ConnectInLoop]
      (cn, (2, [], []), (fst (new_client (InetAddress 80 '''')))\<lparr>cl_connect := True\<rparr>) = Some (rs, [], cn, w', cl')
    \<and> cl_conn cl' = Some 0 \<and> length (snd (snd w')) = 2"
proof -
  have "connect_cl (new_client (InetAddress 80 '''')) = ((fst (new_client (InetAddress 80 '''')))\<lparr>cl_connect := True\<rparr>,
      (new_connector (InetAddress 80 ''''))\<lparr>connect_flag := True\<rparr>, [ConnectInLoop])"
    by (simp add: connect_cl_def new_client_def connect_cn_def getSockAddr_def)
  then show ?thesis
    using client_connects [OF refusing_net_attempts, of "fst (new_client (InetAddress 80 ''''))" "snd (new_client (InetAddress 80 ''''))"
        _ _ _ "[False, False, True, True, True]" "(2, [], [])" 0 0]
    by (fastforce simp: new_client_def new_connector_def simp del: connector_turns.simps)
qed

text \<open>
  The close of the client's connection: the connection is destroyed and released, and the client
  either asks its connector to connect again or is disconnected, so that it can be connected anew.
  The close of any other connection changes nothing.
\<close>

theorem client_close_cases:
  assumes "cl_connect cl"
  shows "if cl_conn cl \<noteq> Some c then onClose_cl c (cl, cn) = ([], [], cl, cn)
    else \<exists>cl' cn' ts. onClose_cl c (cl, cn) = ([(c, DestroyInLoop)], ts, cl', cn') \<and> cl_conn cl' = None
      \<and> (cl_connect cl' \<longleftrightarrow> cl_retry cl) \<and> (if cl_retry cl then ts = [ConnectInLoop] \<and> connect_flag cn' else
           ts = [] \<and> (\<exists>cl2 cn2. connect_cl (cl', cn') = (cl2, cn2, [ConnectInLoop]) \<and> connect_flag cn2))
      \<and> onClose_cl c (cl', cn') = ([], [], cl', cn')"
  using assms by (simp add: onClose_cl_def destroy_made_def destroy_def connect_cn_def connect_cl_def Let_def)

lemma client_close_cases_witness:
  "\<exists>cl' cn'. onClose_cl 0 ((fst (new_client (InetAddress 80 '''')))\<lparr>cl_connect := True, cl_conn := Some 0, cl_retry := True\<rparr>,
     new_connector (InetAddress 80 '''')) = ([(0, DestroyInLoop)], [ConnectInLoop], cl', cn')"
  using client_close_cases [of "(fst (new_client (InetAddress 80 '''')))\<lparr>cl_connect := True, cl_conn := Some 0, cl_retry := True\<rparr>"
      0 "new_connector (InetAddress 80 '''')"] by (simp add: new_client_def) blast

end
