(* ===== verification/Streams.thy ===== *)
theory Streams
  imports Prelude "HOL-Library.Sublist"
begin

section \<open>Two queues of bytes\<close>

text \<open>
  The abstract view of a connection: a queue of bytes from the network to the user, and one from the
  user to the network.  What an operation moves in and out of them is its \<open>traffic\<close>.
\<close>

record traffic =
  arrived :: bytes
  fetched :: bytes
  written :: bytes
  shipped :: bytes

definition no_traffic :: traffic where
  "no_traffic = \<lparr>arrived = [], fetched = [], written = [], shipped = []\<rparr>"

definition add_traffic :: "traffic \<Rightarrow> traffic \<Rightarrow> traffic" where
  "add_traffic t u = \<lparr>arrived = arrived t @ arrived u, fetched = fetched t @ fetched u,
     written = written t @ written u, shipped = shipped t @ shipped u\<rparr>"

lemma no_traffic_simps [simp]:
  "arrived no_traffic = []" "fetched no_traffic = []" "written no_traffic = []" "shipped no_traffic = []"
  by (simp_all add: no_traffic_def)

lemma add_traffic_simps [simp]:
  "arrived (add_traffic t u) = arrived t @ arrived u" "fetched (add_traffic t u) = fetched t @ fetched u"
  "written (add_traffic t u) = written t @ written u" "shipped (add_traffic t u) = shipped t @ shipped u"
  by (simp_all add: add_traffic_def)

text \<open>First in, first out: what a queue held and what came in is what went out and what it holds.\<close>

definition balanced :: "bytes \<times> bytes \<Rightarrow> traffic \<Rightarrow> bytes \<times> bytes \<Rightarrow> bool" where
  "balanced q t q' \<longleftrightarrow> fst q @ arrived t = fetched t @ fst q' \<and> snd q @ written t = shipped t @ snd q'"

lemma balanced_none [simp]: "balanced q no_traffic q"
  by (simp add: balanced_def)

lemma balanced_trans:
  assumes "balanced q t q1" "balanced q1 u q2"
  shows "balanced q (add_traffic t u) q2"
proof -
  have "(fst q @ arrived t) @ arrived u = fetched t @ fetched u @ fst q2"
    "(snd q @ written t) @ written u = shipped t @ shipped u @ snd q2"
    using assms by (simp_all add: balanced_def)
  then show ?thesis
    by (simp add: balanced_def)
qed

subsection \<open>Runs\<close>

type_synonym ('p, 's) executor = "'p \<Rightarrow> 's \<Rightarrow> (traffic \<times> 's) option"

fun run_ops :: "('p, 's) executor \<Rightarrow> 'p list \<Rightarrow> 's \<Rightarrow> (traffic \<times> 's) option" where
  "run_ops exec [] s = Some (no_traffic, s)"
| "run_ops exec (p # ps) s = do {
     (t, s1) \<leftarrow> exec p s;
     (u, s2) \<leftarrow> run_ops exec ps s1;
     Some (add_traffic t u, s2) }"

text \<open>Every operation of the run is allowed in the state that it meets.\<close>

fun all_allowed :: "('p \<Rightarrow> 's \<Rightarrow> bool) \<Rightarrow> ('p, 's) executor \<Rightarrow> 'p list \<Rightarrow> 's \<Rightarrow> bool" where
  "all_allowed allowed exec [] s = True"
| "all_allowed allowed exec (p # ps) s =
     (allowed p s \<and> (case exec p s of None \<Rightarrow> True | Some (t, s1) \<Rightarrow> all_allowed allowed exec ps s1))"

text \<open>
  The contract: \<open>repr\<close> relates a state to the contents of the two queues; an allowed operation is
  defined and moves bytes through the queues only.
\<close>

locale duplex =
  fixes repr :: "'s \<Rightarrow> bytes \<times> bytes \<Rightarrow> bool"
    and allowed :: "'p \<Rightarrow> 's \<Rightarrow> bool"
    and exec :: "('p, 's) executor"
  assumes step: "repr s q \<Longrightarrow> allowed p s \<Longrightarrow> \<exists>t s' q'. exec p s = Some (t, s') \<and> repr s' q' \<and> balanced q t q'"
begin

lemma runs:
  "repr s q \<Longrightarrow> all_allowed allowed exec ps s \<Longrightarrow>
   \<exists>t s' q'. run_ops exec ps s = Some (t, s') \<and> repr s' q' \<and> balanced q t q'"
proof (induction ps arbitrary: s q)
  case Nil
  then show ?case
    by (intro exI [of _ no_traffic] exI [of _ s] exI [of _ q]) simp
next
  case (Cons p ps)
  obtain t s1 q1 where 1: "exec p s = Some (t, s1)" "repr s1 q1" "balanced q t q1"
    using step [OF Cons.prems(1), of p] Cons.prems(2) by auto
  have "all_allowed allowed exec ps s1"
    using Cons.prems(2) 1(1) by simp
  then obtain u s2 q2 where "run_ops exec ps s1 = Some (u, s2)" "repr s2 q2" "balanced q1 u q2"
    using Cons.IH [OF 1(2)] by blast
  then show ?case
    using 1(1) balanced_trans [OF 1(3)] by (intro exI [of _ "add_traffic t u"] exI [of _ s2] exI [of _ q2]) simp
qed

text \<open>What comes out is a prefix of what was there and went in.\<close>

lemma delivered_prefix:
  assumes "repr s q" "all_allowed allowed exec ps s" "run_ops exec ps s = Some (t, s')"
  shows "prefix (fetched t) (fst q @ arrived t)" "prefix (shipped t) (snd q @ written t)"
proof -
  obtain q' where "balanced q t q'"
    using runs [OF assms(1,2)] assms(3) by auto
  then show "prefix (fetched t) (fst q @ arrived t)" "prefix (shipped t) (snd q @ written t)"
    by (auto simp: balanced_def prefix_def)
qed

end

subsection \<open>Two ends\<close>

text \<open>
  Two connections whose sockets are each other's peers: what one ships arrives at the other.  The
  link as a whole is again a pair of queues, one in each direction between the users.
\<close>

fun link_exec ::
  "('p, 's) executor \<Rightarrow> ('r, 't) executor \<Rightarrow> (bytes \<Rightarrow> 'p) \<Rightarrow> (bytes \<Rightarrow> 'r) \<Rightarrow> ('p + 'r, 's \<times> 't) executor" where
  "link_exec ea eb arrive_a arrive_b (Inl p) (s, t) = do {
     (x, s') \<leftarrow> ea p s;
     (_, t') \<leftarrow> eb (arrive_b (shipped x)) t;
     Some (\<lparr>arrived = written x, fetched = [], written = [], shipped = fetched x\<rparr>, s', t') }"
| "link_exec ea eb arrive_a arrive_b (Inr r) (s, t) = do {
     (x, t') \<leftarrow> eb r t;
     (_, s') \<leftarrow> ea (arrive_a (shipped x)) s;
     Some (\<lparr>arrived = [], fetched = fetched x, written = written x, shipped = []\<rparr>, s', t') }"

fun link_allowed :: "('p \<Rightarrow> 's \<Rightarrow> bool) \<Rightarrow> ('r \<Rightarrow> 't \<Rightarrow> bool) \<Rightarrow> 'p + 'r \<Rightarrow> 's \<times> 't \<Rightarrow> bool" where
  "link_allowed la lb (Inl p) (s, t) = la p s"
| "link_allowed la lb (Inr r) (s, t) = lb r t"

fun link_repr ::
  "('s \<Rightarrow> bytes \<times> bytes \<Rightarrow> bool) \<Rightarrow> ('t \<Rightarrow> bytes \<times> bytes \<Rightarrow> bool) \<Rightarrow> 's \<times> 't \<Rightarrow> bytes \<times> bytes \<Rightarrow> bool" where
  "link_repr ra rb (s, t) q \<longleftrightarrow> (\<exists>a b. ra s a \<and> rb t b \<and> q = (fst b @ snd a, fst a @ snd b))"

lemma link_reprI: "ra s x \<Longrightarrow> rb t y \<Longrightarrow> link_repr ra rb (s, t) (fst y @ snd x, fst x @ snd y)"
  by (cases x; cases y) (simp, blast)

text \<open>An end of a link: bytes may arrive at any time, and only by \<open>arrive\<close>.\<close>

locale link_end = duplex repr allowed exec
  for repr :: "'s \<Rightarrow> bytes \<times> bytes \<Rightarrow> bool" and allowed :: "'p \<Rightarrow> 's \<Rightarrow> bool" and exec :: "('p, 's) executor" +
  fixes arrive :: "bytes \<Rightarrow> 'p"
    and acts :: "'p \<Rightarrow> 's \<Rightarrow> bool"
  assumes arrival: "repr s q \<Longrightarrow> \<exists>s' q'. exec (arrive bs) s = Some (no_traffic\<lparr>arrived := bs\<rparr>, s') \<and> repr s' q'
      \<and> balanced q (no_traffic\<lparr>arrived := bs\<rparr>) q'"
    and act_allowed: "acts p s \<Longrightarrow> allowed p s"
    and act_silent: "acts p s \<Longrightarrow> exec p s = Some (t, s') \<Longrightarrow> arrived t = []"
begin

lemma act:
  assumes "repr s q" "acts p s"
  shows "\<exists>t s' q'. exec p s = Some (t, s') \<and> repr s' q' \<and> balanced q t q' \<and> arrived t = []"
  using step [OF assms(1) act_allowed [OF assms(2)]] act_silent [OF assms(2)] by blast

end

locale link = a: link_end ra la ea arrive_a acts_a + b: link_end rb lb eb arrive_b acts_b
  for ra :: "'s \<Rightarrow> bytes \<times> bytes \<Rightarrow> bool" and la :: "'p \<Rightarrow> 's \<Rightarrow> bool" and ea :: "('p, 's) executor"
    and arrive_a :: "bytes \<Rightarrow> 'p" and acts_a :: "'p \<Rightarrow> 's \<Rightarrow> bool"
    and rb :: "'t \<Rightarrow> bytes \<times> bytes \<Rightarrow> bool" and lb :: "'r \<Rightarrow> 't \<Rightarrow> bool" and eb :: "('r, 't) executor"
    and arrive_b :: "bytes \<Rightarrow> 'r" and acts_b :: "'r \<Rightarrow> 't \<Rightarrow> bool"

text \<open>An operation of one end that ships bytes, and their arrival at the other.\<close>

lemma balanced_pass:
  assumes x: "balanced x u x'" and y: "balanced y (no_traffic\<lparr>arrived := shipped u\<rparr>) y'" and "arrived u = []"
  shows "balanced (fst y @ snd x, fst x @ snd y) \<lparr>arrived = written u, fetched = [], written = [], shipped = fetched u\<rparr>
    (fst y' @ snd x', fst x' @ snd y')"
proof -
  have "fst x = fetched u @ fst x'" "snd x @ written u = shipped u @ snd x'"
    using x assms(3) by (simp_all add: balanced_def)
  moreover have "fst y' = fst y @ shipped u" "snd y' = snd y"
    using y by (simp_all add: balanced_def)
  ultimately show ?thesis
    by (simp add: balanced_def)
qed

sublocale link \<subseteq> whole: duplex "link_repr ra rb" "link_allowed acts_a acts_b" "link_exec ea eb arrive_a arrive_b"
proof
  fix st q p
  assume r: "link_repr ra rb st q" and al: "link_allowed acts_a acts_b p st"
  obtain s t where st: "st = (s, t)" by (cases st)
  obtain x y where xy: "ra s x" "rb t y" and q: "q = (fst y @ snd x, fst x @ snd y)"
    using r st by auto
  show "\<exists>u st' q'. link_exec ea eb arrive_a arrive_b p st = Some (u, st') \<and> link_repr ra rb st' q' \<and> balanced q u q'"
  proof (cases p)
    case (Inl i)
    then obtain u s' x' where u: "ea i s = Some (u, s')" "ra s' x'" "balanced x u x'" "arrived u = []"
      using a.act [OF xy(1), of i] al st by auto
    obtain t' y' where v: "eb (arrive_b (shipped u)) t = Some (no_traffic\<lparr>arrived := shipped u\<rparr>, t')" "rb t' y'"
      "balanced y (no_traffic\<lparr>arrived := shipped u\<rparr>) y'"
      using b.arrival [OF xy(2)] by blast
    have "balanced q \<lparr>arrived = written u, fetched = [], written = [], shipped = fetched u\<rparr>
        (fst y' @ snd x', fst x' @ snd y')"
      using balanced_pass [OF u(3) v(3) u(4)] q by simp
    then show ?thesis
      using Inl st u(1) v(1) link_reprI [of ra s' x' rb t' y', OF u(2) v(2)]
      by (intro exI [of _ "\<lparr>arrived = written u, fetched = [], written = [], shipped = fetched u\<rparr>"]
          exI [of _ "(s', t')"] exI [of _ "(fst y' @ snd x', fst x' @ snd y')"] conjI) (simp_all del: link_repr.simps)
  next
    case (Inr i)
    then obtain u t' y' where u: "eb i t = Some (u, t')" "rb t' y'" "balanced y u y'" "arrived u = []"
      using b.act [OF xy(2), of i] al st by auto
    obtain s' x' where v: "ea (arrive_a (shipped u)) s = Some (no_traffic\<lparr>arrived := shipped u\<rparr>, s')" "ra s' x'"
      "balanced x (no_traffic\<lparr>arrived := shipped u\<rparr>) x'"
      using a.arrival [OF xy(1)] by blast
    have "balanced q \<lparr>arrived = [], fetched = fetched u, written = written u, shipped = []\<rparr>
        (fst y' @ snd x', fst x' @ snd y')"
      using balanced_pass [OF u(3) v(3) u(4)] q by (simp add: balanced_def)
    then show ?thesis
      using Inr st u(1) v(1) link_reprI [of ra s' x' rb t' y', OF v(2) u(2)]
      by (intro exI [of _ "\<lparr>arrived = [], fetched = fetched u, written = written u, shipped = []\<rparr>"]
          exI [of _ "(s', t')"] exI [of _ "(fst y' @ snd x', fst x' @ snd y')"] conjI) (simp_all del: link_repr.simps)
  qed
qed

end
