(* ===== verification/TcpStream.thy ===== *)
theory TcpStream
  imports TcpLife EPoll Streams
begin

section \<open>A connection as two queues\<close>

text \<open>
  Both sides of a connection together: the poller's events, the event handlers and the operations
  of the user in any order.  The connection keeps the contract \<open>duplex\<close> of a pair of queues as long
  as the calls avoid the three faults that the theories of the two sides exhibit, and only so long;
  under the same condition two connections that are each other's peers are a stream in both directions.
\<close>

subsection \<open>The sending side on any socket\<close>











subsection \<open>The socket in both directions\<close>

lemma onRead_step_env:
  assumes "onRead_step pl rv quiet (m, c, w) = Some (b, m', c', w')"
  shows "\<exists>lens r. rv lens w = (r, w')"
proof -
  obtain t p m1 x where "deref m (readTail c) = Some t" "read_ahead pl m c t = Some (p, m1)" "deref m1 p = Some x"
    using assms by (auto simp: onRead_step_def bind_eq_Some_conv Let_def)
  note pre = this
  define lens where "lens = map (snd \<circ> snd) (tail_iov (readTail c) t @ [(p, 0, b_capacity x)])"
  obtain r w1 where rv: "rv lens w = (r, w1)"
    by (cases "rv lens w")
  have "w1 = w'"
  proof (cases r)
    case None
    then show ?thesis
      using assms pre rv by (simp add: onRead_step_def Let_def lens_def)
  next
    case (Some bs)
    have call: "call (map_option f (recvCallback quiet)) s = Some s" for f and s :: "'a tcp"
      by (simp add: call_def quiet_def)
    show ?thesis
      using assms pre rv [unfolded lens_def] Some
      by (auto simp: onRead_step_def Let_def call onClose_quiet bind_eq_Some_conv split: if_splits)
  qed
  then show ?thesis
    using rv by blast
qed

lemma onRead_keeps:
  assumes keep: "\<And>lens w. P w \<Longrightarrow> P (snd (rv lens w))" and P: "P w"
    and run: "onRead pl rv quiet (m, c, w) = Some (m', c', w')"
  shows "P w'"
proof -
  have loop: "rv = rv \<and> quiet = (quiet :: 'a tcp_callbacks) \<longrightarrow> P (snd (snd s)) \<longrightarrow> P (snd (snd s'))"
    if "onRead_loop pl rv quiet s = Some s'" for s s' :: "'a tcp"
  proof (rule onRead_loop.raw_induct [where P = "\<lambda>pl rv' cbs s s'. rv' = rv \<and> cbs = quiet \<longrightarrow> P (snd (snd s)) \<longrightarrow> P (snd (snd s'))",
        OF _ that], goal_cases)
    case (1 rec pl rv' cbs s s')
    obtain m c w where s: "s = (m, c, w)" by (cases s)
    show ?case
    proof (intro impI)
      assume q: "rv' = rv \<and> cbs = quiet" and Pw: "P (snd (snd s))"
      from 1(2) q obtain go_on m1 c1 w1 where st: "onRead_step pl rv quiet (m, c, w) = Some (go_on, m1, c1, w1)"
        and r: "if go_on then rec pl rv quiet (m1, c1, w1) = Some s' else s' = (m1, c1, w1)"
        by (auto simp: s bind_eq_Some_conv split: if_splits)
      obtain lens r where "rv lens w = (r, w1)"
        using onRead_step_env [OF st] by blast
      then have "P w1"
        using keep [of w lens] Pw s by simp
      then show "P (snd (snd s'))"
        using r 1(1) [of pl rv quiet "(m1, c1, w1)" s'] by (auto split: if_splits)
    qed
  qed
  show ?thesis
    using run P loop [of "(m, c, w)" "(m', c', w')"] by (auto simp: onRead_def split: if_splits)
qed

text \<open>
  The network as a connection sees it: \<open>deliver\<close> is the arrival of bytes from the peer; \<open>avail\<close> is what
  has arrived and was not read, \<open>sent\<close> all that was accepted for sending.
\<close>

record 'w net =
  net_readv :: "'w readv"
  net_writev :: "'w writev"
  deliver :: "bytes \<Rightarrow> 'w \<Rightarrow> 'w"
  avail :: "'w \<Rightarrow> bytes"
  sent :: "'w \<Rightarrow> bytes"



subsection \<open>Operations\<close>

text \<open>
  What can happen to a connection: bytes arrive; the poller reports events; the loop handles the
  active channel, one event after the other; the user peeks, reads, buffers data, or sends directly.
\<close>

datatype conn_op = Arrive bytes | Poll "32 word" | HandleClose | HandleRead | HandleWrite
  | Peek nat | Fetch nat | Put bytes | Direct bytes

definition shipped_since :: "'w net \<Rightarrow> 'w \<Rightarrow> 'w \<Rightarrow> bytes" where
  "shipped_since k w w' = drop (length (sent k w)) (sent k w')"

fun conn_exec :: "'w net \<Rightarrow> pool \<Rightarrow> (conn_op, 'w tcp) executor" where
  "conn_exec k pl (Arrive bs) (m, c, w) = Some (no_traffic\<lparr>arrived := bs\<rparr>, m, c, deliver k bs w)"
| "conn_exec k pl (Poll events) s = Some (no_traffic, upd_tcp_chan (\<lambda>ch. fst (dispatch events ch)) s)"
| "conn_exec k pl HandleClose s = do {
     s1 \<leftarrow> fire tcp_chan upd_tcp_chan ch_rclose (\<lambda>ch. ch\<lparr>ch_rclose := False\<rparr>) (Some (onClose_conn quiet))
       (upd_tcp_chan (\<lambda>ch. ch\<lparr>ch_actived := False\<rparr>) s);
     s2 \<leftarrow> fire tcp_chan upd_tcp_chan ch_rerror (\<lambda>ch. ch\<lparr>ch_rerror := False\<rparr>) None s1;
     Some (no_traffic, s2) }"
| "conn_exec k pl HandleRead s = do {
     s1 \<leftarrow> fire tcp_chan upd_tcp_chan ch_rread (\<lambda>ch. ch\<lparr>ch_rread := False\<rparr>) (Some (onRead pl (net_readv k) quiet)) s;
     Some (no_traffic, s1) }"
| "conn_exec k pl HandleWrite (m, c, w) = do {
     (m', c', w') \<leftarrow> fire tcp_chan upd_tcp_chan ch_rwrite (\<lambda>ch. ch\<lparr>ch_rwrite := False\<rparr>)
       (Some (onWrite (net_writev k) quiet)) (m, c, w);
     Some (no_traffic\<lparr>shipped := shipped_since k w w'\<rparr>, m', c', w') }"
| "conn_exec k pl (Peek n) (m, c, w) = do { _ \<leftarrow> PeekData True n m c; Some (no_traffic, m, c, w) }"
| "conn_exec k pl (Fetch n) (m, c, w) = do {
     (_, out, m', c') \<leftarrow> ReadData True n m c;
     Some (no_traffic\<lparr>fetched := out\<rparr>, m', c', w) }"
| "conn_exec k pl (Put data) (m, c, w) = do {
     (_, m', c') \<leftarrow> writeData pl (Some data) (length data) m c;
     Some (no_traffic\<lparr>written := data\<rparr>, m', c', w) }"
| "conn_exec k pl (Direct data) (m, c, w) = do {
     (m', c', w') \<leftarrow> send pl (net_writev k) data (m, c, w);
     Some (no_traffic\<lparr>written := data, shipped := shipped_since k w w'\<rparr>, m', c', w') }"

text \<open>The loop's handling of a channel is the three handling operations in a row.\<close>

lemma handle_conn_ops:
  "map_option snd (run_ops (conn_exec k pl) [HandleClose, HandleRead, HandleWrite] s)
   = handle_conn pl (net_readv k) (net_writev k) quiet s"
  by (auto simp: handle_conn_def handleEvents_def channel_callbacks_def Let_def split: Option.bind_splits prod.splits)






subsection \<open>The invariant\<close>

definition conn_ok :: "mem \<Rightarrow> conn \<Rightarrow> nat list \<Rightarrow> nat list \<Rightarrow> bool" where
  "conn_ok m c ras was \<longleftrightarrow> (\<exists>i. read_ok m c ras i) \<and> write_ok m c was \<and> packed m was \<and> mem_ok m
     \<and> set ras \<inter> set was = {}"


lemma conn_ok_chan [simp]: "conn_ok m (upd_chan f c) ras was = conn_ok m c ras was"
  by (simp add: conn_ok_def)

lemma conn_ok_close [simp]: "conn_ok m (c\<lparr>close_flag := b\<rparr>) ras was = conn_ok m c ras was"
  by (simp add: conn_ok_def write_ok_def)



subsection \<open>The operations keep the contract\<close>







subsection \<open>Interpretations\<close>








subsection \<open>A network to run on\<close>







subsection \<open>Properties\<close>





end
