(* ===== verification/LogStream.thy ===== *)
theory LogStream
  imports Prelude
begin

section \<open>Formatting log lines (log/LogStream.h, log/LogStream.cpp)\<close>

text \<open>
  A \<open>LogStream\<close> is an array of 4096 bytes and the position of the next byte.  Every insertion
  first checks the room that is left; a write beyond the array would be undefined (\<open>None\<close>).  The
  integer types of the overloaded operators are all \<open>int\<close> here: the conversion only divides, by
  10 and truncating, so it cannot overflow at any width.  \<open>snprintf\<close> is not part of the program:
  its output is an argument.
\<close>

subsection \<open>Conversions\<close>

definition digits :: string where
  "digits = ''9876543210123456789''"

definition digitsHex :: string where
  "digitsHex = ''0123456789ABCDEF''"

lemma sdiv10: "(i::int) sdiv 10 = (if 0 \<le> i then i div 10 else - ((- i) div 10))"
  "i smod 10 = (if 0 \<le> i then i mod 10 else - ((- i) mod 10))"
  by (simp_all add: sdiv_nonneg smod_nonneg)
    (simp_all add: signed_divide_int_def signed_modulo_int_def sgn_if)

text \<open>The \<open>do\<close> loop: the digits in the order they are written, the last one first.\<close>

function convert_digits :: "int \<Rightarrow> string" where
  "convert_digits i =
     (let lsd = i smod 10; i' = i sdiv 10
      in digits ! nat (9 + lsd) # (if i' \<noteq> 0 then convert_digits i' else []))"
  by pat_completeness auto
termination
  by (relation "measure (\<lambda>i. nat \<bar>i\<bar>)") (auto simp: sdiv10 split: if_splits)

declare convert_digits.simps [simp del]

definition convert :: "int \<Rightarrow> string" where
  "convert v = rev (convert_digits v @ (if v < 0 then ''-'' else []))"

fun hex_digits :: "nat \<Rightarrow> string" where
  "hex_digits i =
     (let lsd = i mod 16; i' = i div 16
      in digitsHex ! lsd # (if i' \<noteq> 0 then hex_digits i' else []))"

declare hex_digits.simps [simp del]

definition convertHex :: "nat \<Rightarrow> string" where
  "convertHex v = rev (hex_digits v)"

subsection \<open>The stream\<close>

definition kBufferSize :: nat where
  "kBufferSize = 4096"

definition kMaxNumericSize :: nat where
  "kMaxNumericSize = 32"

record logstream =
  ls_data :: bytes
  ls_cur :: nat

definition LogStream0 :: "char \<Rightarrow> logstream" where
  "LogStream0 junk = \<lparr>ls_data = replicate kBufferSize junk, ls_cur = 0\<rparr>"

definition ls_avail :: "logstream \<Rightarrow> nat" where
  "ls_avail s = length (ls_data s) - ls_cur s"

definition ls_length :: "logstream \<Rightarrow> nat" where
  "ls_length s = ls_cur s"

definition ls_reset :: "logstream \<Rightarrow> logstream" where
  "ls_reset s = s\<lparr>ls_cur := 0\<rparr>"

definition ls_append :: "bytes \<Rightarrow> logstream \<Rightarrow> logstream option" where
  "ls_append buf s =
     (if ls_avail s > length buf then do {
        d \<leftarrow> wr (ls_data s) (ls_cur s) buf;
        Some (s\<lparr>ls_data := d, ls_cur := ls_cur s + length buf\<rparr>) }
      else Some s)"

text \<open>Writes text and a terminating zero at the position, and advances over the text.\<close>

definition put_text :: "bytes \<Rightarrow> logstream \<Rightarrow> logstream option" where
  "put_text x s = do {
     d \<leftarrow> wr (ls_data s) (ls_cur s) (x @ [CHR 0x00]);
     Some (s\<lparr>ls_data := d, ls_cur := ls_cur s + length x\<rparr>) }"

definition formatInteger :: "int \<Rightarrow> logstream \<Rightarrow> logstream option" where
  "formatInteger v s = (if ls_avail s \<ge> kMaxNumericSize then put_text (convert v) s else Some s)"

text \<open>\<open>out\<close> is the whole output of \<open>snprintf\<close> for the value; it writes at most 31 bytes of it.\<close>

definition put_double :: "bytes \<Rightarrow> logstream \<Rightarrow> logstream option" where
  "put_double out s =
     (if ls_avail s \<ge> kMaxNumericSize then do {
        d \<leftarrow> wr (ls_data s) (ls_cur s) (take (kMaxNumericSize - 1) out @ [CHR 0x00]);
        Some (s\<lparr>ls_data := d, ls_cur := ls_cur s + length out\<rparr>) }
      else Some s)"

definition put_pointer :: "nat \<Rightarrow> logstream \<Rightarrow> logstream option" where
  "put_pointer v s =
     (if ls_avail s \<ge> kMaxNumericSize then do {
        d \<leftarrow> wr (ls_data s) (ls_cur s) ''0x'';
        put_text (convertHex v) (s\<lparr>ls_data := d, ls_cur := ls_cur s + 2\<rparr>) }
      else Some s)"

definition put_bool :: "bool \<Rightarrow> logstream \<Rightarrow> logstream option" where
  "put_bool v = ls_append (if v then ''1'' else ''0'')"

text \<open>
  A formatted value: \<open>LogFormat\<close> holds the output of \<open>snprintf\<close> into 32 bytes and asserts that
  it fits.
\<close>

definition LogFormat :: "bytes \<Rightarrow> bytes option" where
  "LogFormat out = (if length out < 32 then Some out else None)"

text \<open>One insertion.  A C string is read up to its first zero.\<close>

datatype item = Integer int | Double bytes | Char char | CString bytes | String bytes | Bool bool
  | Pointer nat | Format bytes

fun put :: "item \<Rightarrow> logstream \<Rightarrow> logstream option" where
  "put (Integer v) s = formatInteger v s"
| "put (Double out) s = put_double out s"
| "put (Char c) s = ls_append [c] s"
| "put (CString v) s = ls_append (takeWhile (\<lambda>c. c \<noteq> CHR 0x00) v) s"
| "put (String v) s = ls_append v s"
| "put (Bool b) s = put_bool b s"
| "put (Pointer v) s = put_pointer v s"
| "put (Format out) s = do { x \<leftarrow> LogFormat out; ls_append x s }"

fun put_all :: "item list \<Rightarrow> logstream \<Rightarrow> logstream option" where
  "put_all [] s = Some s"
| "put_all (i # is) s = do { s' \<leftarrow> put i s; put_all is s' }"

definition ls_content :: "logstream \<Rightarrow> bytes" where
  "ls_content s = take (ls_cur s) (ls_data s)"

subsection \<open>The digits of a number\<close>

text \<open>The reference: the value of a decimal numeral.\<close>

definition digit_value :: "char \<Rightarrow> int" where
  "digit_value c = of_char c - 48"

definition decimal :: "string \<Rightarrow> int" where
  "decimal s = foldl (\<lambda>acc c. acc * 10 + digit_value c) 0 s"

definition parse_int :: "string \<Rightarrow> int" where
  "parse_int s = (if s \<noteq> [] \<and> hd s = CHR ''-'' then - decimal (tl s) else decimal s)"

definition is_digit :: "char \<Rightarrow> bool" where
  "is_digit c \<longleftrightarrow> 0 \<le> digit_value c \<and> digit_value c \<le> 9"

lemma digits_nth:
  assumes "- 9 \<le> d" "d \<le> 9"
  shows "digit_value (digits ! nat (9 + d)) = \<bar>d\<bar>"
proof -
  have "list_all (\<lambda>k. digit_value (digits ! k) = \<bar>int k - 9\<bar>) [0..<19]"
    by code_simp
  moreover have "nat (9 + d) \<in> set [0..<19]"
    using assms by auto
  ultimately show ?thesis
    using assms by (auto simp: list_all_iff)
qed

lemma smod10_bounds: "- 9 \<le> (i::int) smod 10 \<and> i smod 10 \<le> 9"
  by (auto simp: sdiv10)

lemma abs_sdiv10: "\<bar>(i::int) sdiv 10\<bar> * 10 + \<bar>i smod 10\<bar> = \<bar>i\<bar>"
  by (auto simp: sdiv10 pos_imp_zdiv_nonneg_iff)

lemma decimal_snoc: "decimal (s @ [c]) = decimal s * 10 + digit_value c"
  by (simp add: decimal_def)

lemma decimal_convert: "decimal (rev (convert_digits i)) = \<bar>i\<bar>"
proof (induction i rule: convert_digits.induct)
  case (1 i)
  have d: "digit_value (digits ! nat (9 + i smod 10)) = \<bar>i smod 10\<bar>"
    using digits_nth smod10_bounds by blast
  show ?case
  proof (cases "i sdiv 10 = 0")
    case True
    then show ?thesis
      using abs_sdiv10 [of i] d
      by (subst convert_digits.simps) (simp add: decimal_def Let_def)
  next
    case False
    then show ?thesis
      using abs_sdiv10 [of i] d 1 by (subst convert_digits.simps) (simp add: decimal_snoc Let_def)
  qed
qed

lemma convert_digits_are: "list_all is_digit (convert_digits i)"
proof (induction i rule: convert_digits.induct)
  case (1 i)
  have "is_digit (digits ! nat (9 + i smod 10))"
    using digits_nth [of "i smod 10"] smod10_bounds [of i] by (auto simp: is_digit_def)
  with 1 show ?case
    by (subst convert_digits.simps) (simp add: Let_def)
qed

lemma convert_digits_length:
  "\<bar>i\<bar> < 10 ^ Suc n \<Longrightarrow> length (convert_digits i) \<le> Suc n"
proof (induction n arbitrary: i)
  case 0
  then have "i sdiv 10 = 0"
    by (auto simp: sdiv10)
  then show ?case
    by (subst convert_digits.simps) (simp add: Let_def)
next
  case (Suc n)
  have "\<bar>i sdiv 10\<bar> < 10 ^ Suc n"
    using Suc.prems abs_sdiv10 [of i] abs_ge_zero [of "i smod 10"] unfolding power_Suc [of 10 "Suc n"] by linarith
  then show ?case
    using Suc.IH [of "i sdiv 10"] by (subst convert_digits.simps) (simp add: Let_def)
qed

lemma convert_digits_ne: "convert_digits i \<noteq> []"
  by (subst convert_digits.simps) (simp add: Let_def)

lemma hex_digits_length: "i < 16 ^ Suc n \<Longrightarrow> length (hex_digits i) \<le> Suc n"
proof (induction n arbitrary: i)
  case 0
  then show ?case
    by (subst hex_digits.simps) (simp add: Let_def)
next
  case (Suc n)
  have "i div 16 < 16 ^ Suc n"
    using Suc.prems by (simp add: less_mult_imp_div_less mult.commute)
  then show ?case
    using Suc.IH [of "i div 16"] by (subst hex_digits.simps) (simp add: Let_def)
qed

lemma convert_length: "\<bar>v\<bar> < 2 ^ 64 \<Longrightarrow> length (convert v) \<le> 21"
  using convert_digits_length [of v 19] by (simp add: convert_def)

lemma convertHex_length: "v < 2 ^ 64 \<Longrightarrow> length (convertHex v) \<le> 16"
  using hex_digits_length [of v 15] by (simp add: convertHex_def)

lemma parse_convert: "parse_int (convert v) = v"
proof (cases "v < 0")
  case True
  then show ?thesis
    using decimal_convert [of v] by (simp add: convert_def parse_int_def)
next
  case False
  obtain c s where r: "rev (convert_digits v) = c # s"
    using convert_digits_ne by (metis list.exhaust rev_is_Nil_conv)
  moreover have "is_digit c"
    using convert_digits_are [of v] r by (metis list.set_intros(1) list_all_iff set_rev)
  then have "c \<noteq> CHR ''-''"
    by (auto simp: is_digit_def digit_value_def)
  ultimately show ?thesis
    using False decimal_convert [of v] by (simp add: convert_def parse_int_def)
qed

subsection \<open>What an insertion does\<close>

text \<open>
  The reference: the stream as the text it holds.  An insertion adds the whole text of the item
  when the item's rule finds room, and nothing otherwise.
\<close>

fun render :: "item \<Rightarrow> bytes" where
  "render (Integer v) = convert v"
| "render (Double out) = out"
| "render (Char c) = [c]"
| "render (CString v) = takeWhile (\<lambda>c. c \<noteq> CHR 0x00) v"
| "render (String v) = v"
| "render (Bool b) = (if b then ''1'' else ''0'')"
| "render (Pointer v) = ''0x'' @ convertHex v"
| "render (Format out) = out"

fun numeric :: "item \<Rightarrow> bool" where
  "numeric (Integer v) = True"
| "numeric (Double out) = True"
| "numeric (Pointer v) = True"
| "numeric _ = False"

definition spec_put :: "item \<Rightarrow> bytes \<Rightarrow> bytes" where
  "spec_put i text =
     (if (if numeric i then length text + 32 \<le> 4096 else length text + length (render i) < 4096)
      then text @ render i else text)"

text \<open>Values of at most 64 bits, and \<open>snprintf\<close> output of at most 31 characters.\<close>

fun item_ok :: "item \<Rightarrow> bool" where
  "item_ok (Integer v) = (\<bar>v\<bar> < 2 ^ 64)"
| "item_ok (Double out) = (length out < 32)"
| "item_ok (Pointer v) = (v < 2 ^ 64)"
| "item_ok (Format out) = (length out < 32)"
| "item_ok _ = True"

definition stream_ok :: "logstream \<Rightarrow> bool" where
  "stream_ok s \<longleftrightarrow> length (ls_data s) = 4096 \<and> ls_cur s \<le> 4096"

lemma LogStream0_ok [simp]: "stream_ok (LogStream0 j)" "ls_content (LogStream0 j) = []"
  by (simp_all add: stream_ok_def LogStream0_def kBufferSize_def ls_content_def)

lemma length_content [simp]: "stream_ok s \<Longrightarrow> length (ls_content s) = ls_cur s"
  by (simp add: stream_ok_def ls_content_def)

lemma write_at_cur:
  assumes "stream_ok s" "ls_cur s + length x \<le> 4096" "n \<le> length x"
  obtains d where "wr (ls_data s) (ls_cur s) x = Some d"
    "stream_ok (s\<lparr>ls_data := d, ls_cur := ls_cur s + n\<rparr>)"
    "ls_content (s\<lparr>ls_data := d, ls_cur := ls_cur s + n\<rparr>) = ls_content s @ take n x"
  using assms by (intro that [of "take (ls_cur s) (ls_data s) @ x @ drop (ls_cur s + length x) (ls_data s)"])
    (auto simp: wr_def stream_ok_def ls_content_def)

lemma ls_append_correct:
  assumes "stream_ok s"
  shows "\<exists>s'. ls_append x s = Some s' \<and> stream_ok s'
    \<and> ls_content s' = (if length (ls_content s) + length x < 4096 then ls_content s @ x else ls_content s)"
proof (cases "ls_cur s + length x < 4096")
  case True
  then have le: "ls_cur s + length x \<le> 4096" by simp
  show ?thesis
    by (rule write_at_cur [OF assms le order_refl])
      (use assms True in \<open>auto simp: ls_append_def ls_avail_def stream_ok_def\<close>)
next
  case False
  then show ?thesis
    using assms by (auto simp: ls_append_def ls_avail_def stream_ok_def ls_content_def)
qed

lemma put_text_correct:
  assumes "stream_ok s" "ls_cur s + length x < 4096"
  shows "\<exists>s'. put_text x s = Some s' \<and> stream_ok s' \<and> ls_content s' = ls_content s @ x"
  by (rule write_at_cur [OF assms(1), of "x @ [CHR 0x00]" "length x"]) (use assms in \<open>auto simp: put_text_def\<close>)

lemma put_correct:
  assumes "stream_ok s" "item_ok i"
  shows "\<exists>s'. put i s = Some s' \<and> stream_ok s' \<and> ls_content s' = spec_put i (ls_content s)"
proof -
  have room: "ls_avail s \<ge> kMaxNumericSize \<longleftrightarrow> ls_cur s + 32 \<le> 4096"
    using assms(1) by (auto simp: stream_ok_def ls_avail_def kMaxNumericSize_def)
  show ?thesis
  proof (cases "numeric i \<and> ls_cur s + 32 \<le> 4096")
    case True
    then consider v where "i = Integer v" | out where "i = Double out" | v where "i = Pointer v"
      by (cases i) auto
    then show ?thesis
    proof cases
      case 1
      then show ?thesis
        using put_text_correct [OF assms(1), of "convert v"] convert_length [of v] True assms room
        by (simp add: formatInteger_def spec_put_def)
    next
      case 2
      have "take 31 out = out" using 2 assms(2) by simp
      then show ?thesis
        using put_text_correct [OF assms(1), of out] 2 True assms room
        by (simp add: put_double_def put_text_def spec_put_def kMaxNumericSize_def)
    next
      case 3
      obtain d where d: "wr (ls_data s) (ls_cur s) ''0x'' = Some d"
        "stream_ok (s\<lparr>ls_data := d, ls_cur := ls_cur s + 2\<rparr>)"
        "ls_content (s\<lparr>ls_data := d, ls_cur := ls_cur s + 2\<rparr>) = ls_content s @ take 2 ''0x''"
        by (rule write_at_cur [OF assms(1), of "''0x''" 2]) (use True in auto)
      then show ?thesis
        using put_text_correct [OF d(2), of "convertHex v"] convertHex_length [of v] 3 True assms room
        by (simp add: put_pointer_def spec_put_def)
    qed
  next
    case no: False
    show ?thesis
    proof (cases "numeric i")
      case True
      then have "put i s = Some s"
        using no room by (cases i) (auto simp: formatInteger_def put_double_def put_pointer_def)
      then show ?thesis
        using True no assms(1) by (simp add: spec_put_def)
    next
      case False
      then have "put i s = ls_append (render i) s"
        using assms(2) by (cases i) (auto simp: put_bool_def LogFormat_def)
      then show ?thesis
        using ls_append_correct [OF assms(1), of "render i"] False by (simp add: spec_put_def)
    qed
  qed
qed

lemma put_all_correct:
  assumes "stream_ok s" "list_all item_ok xs"
  shows "\<exists>s'. put_all xs s = Some s' \<and> stream_ok s' \<and> ls_content s' = fold spec_put xs (ls_content s)"
  using assms
proof (induction xs arbitrary: s)
  case (Cons i xs)
  then show ?case
    using put_correct [of s i] by fastforce
qed simp

lemma spec_put_cases: "\<exists>y. spec_put x t = t @ y \<and> (y = [] \<or> y = render x)"
  unfolding spec_put_def by (cases "if numeric x then length t + 32 \<le> 4096 else length t + length (render x) < 4096") simp_all

lemma fold_spec_put_cases:
  "\<exists>ys. length ys = length xs \<and> fold spec_put xs t = t @ concat ys \<and> list_all2 (\<lambda>y x. y = [] \<or> y = render x) ys xs"
proof (induction xs arbitrary: t)
  case (Cons x xs)
  obtain ys where "length ys = length xs" "fold spec_put xs (spec_put x t) = spec_put x t @ concat ys"
    "list_all2 (\<lambda>y x. y = [] \<or> y = render x) ys xs"
    using Cons.IH by blast
  moreover obtain y where "spec_put x t = t @ y" "y = [] \<or> y = render x"
    by (metis spec_put_cases)
  ultimately show ?case
    by (intro exI [of _ "y # ys"]) simp
qed simp

subsection \<open>Properties\<close>

text \<open>
  C30: the integer conversion is exact for every value, the most negative ones of each type
  included: its result reads back as the value, holds only digits after an optional minus sign, and
  for a 64-bit value takes at most 21 characters, within the 32 that the stream reserves.
\<close>

theorem convert_round_trip:
  "parse_int (convert v) = v \<and> list_all is_digit (if v < 0 then tl (convert v) else convert v)
   \<and> convert v \<noteq> [] \<and> (\<bar>v\<bar> < 2 ^ 64 \<longrightarrow> length (convert v) \<le> 21)"
  using parse_convert [of v] convert_digits_are [of v] convert_digits_ne [of v] convert_length [of v]
  by (simp add: convert_def)

lemma convert_round_trip_witness:
  "convert (- (2 ^ 63)) = ''-9223372036854775808'' \<and> length (convert (- (2 ^ 63))) \<le> 21"
  using convert_round_trip [of "- (2 ^ 63)"] by (simp add: convert_def convert_digits.simps sdiv10 digits_def)

text \<open>
  C15: no sequence of insertions writes outside the array, and the stream holds what its
  specification says: each item's text in order, an item that finds no room left out whole.
\<close>

theorem stream_holds_items:
  assumes "stream_ok s" "list_all item_ok xs"
  shows "\<exists>s'. put_all xs s = Some s' \<and> length (ls_data s') = 4096 \<and> ls_cur s' \<le> 4096
    \<and> ls_content s' = fold spec_put xs (ls_content s)
    \<and> (\<exists>ys. length ys = length xs \<and> ls_content s' = ls_content s @ concat ys
          \<and> list_all2 (\<lambda>y x. y = [] \<or> y = render x) ys xs)"
proof -
  obtain s' where s': "put_all xs s = Some s'" "stream_ok s'" "ls_content s' = fold spec_put xs (ls_content s)"
    using put_all_correct [OF assms] by blast
  then show ?thesis
    using fold_spec_put_cases [of xs "ls_content s"]
    by (intro exI [of _ s']) (simp add: stream_ok_def)
qed

lemma stream_holds_items_witness:
  "\<exists>s. put_all [CString ''n='', Integer (- 42), Char CHR '';'', Pointer 255] (LogStream0 CHR ''?'') = Some s
    \<and> ls_content s = ''n=-42;0xFF''"
proof -
  let ?xs = "[CString ''n='', Integer (- 42), Char CHR '';'', Pointer 255]"
  have f: "fold spec_put ?xs [] = ''n=-42;0xFF''"
    by (simp add: spec_put_def convert_def convert_digits.simps sdiv10 digits_def convertHex_def hex_digits.simps digitsHex_def)
  have "list_all item_ok ?xs" by simp
  from stream_holds_items [OF LogStream0_ok(1) this, of "CHR ''?''"]
  obtain s where "put_all ?xs (LogStream0 CHR ''?'') = Some s" "ls_content s = fold spec_put ?xs []"
    unfolding LogStream0_ok(2) by blast
  with f show ?thesis by metis
qed

end
