(* ===== verification/Date.thy ===== *)
theory Date
  imports Prelude
begin

section \<open>Calendar dates (base/Date.h, base/Date.cpp)\<close>

text \<open>
  A \<open>Date\<close> is a Julian day number.  The code's \<open>int\<close> is the unbounded \<open>int\<close>, its \<open>/\<close> and
  \<open>%\<close> the truncating \<open>sdiv\<close> and \<open>smod\<close>; a property below shows that no intermediate value
  of the conversion to a calendar date leaves the range of a 32-bit \<open>int\<close>, far beyond the years
  the class is documented for.  The reference
  is the proleptic Gregorian calendar: month lengths, leap years and the next day.
\<close>

subsection \<open>The code\<close>

record ymd =
  year :: int
  month :: int
  day :: int

definition getJulianDayNumber :: "int \<Rightarrow> int \<Rightarrow> int \<Rightarrow> int" where
  "getJulianDayNumber yr mon dy =
     (let a = (14 - mon) sdiv 12;
          y = yr + 4800 - a;
          m = mon + 12 * a - 3
      in dy + (153 * m + 2) sdiv 5 + y * 365 + y sdiv 4 - y sdiv 100 + y sdiv 400 - 32045)"

definition getYearMonthDay :: "int \<Rightarrow> ymd" where
  "getYearMonthDay julian =
     (let a = julian + 32044;
          b = (4 * a + 3) sdiv 146097;
          c = a - ((b * 146097) sdiv 4);
          d = (4 * c + 3) sdiv 1461;
          e = c - ((1461 * d) sdiv 4);
          m = (5 * e + 2) sdiv 153
      in \<lparr>year = b * 100 + d - 4800 + (m sdiv 10),
          month = m + 3 - 12 * (m sdiv 10),
          day = e - ((153 * m + 2) sdiv 5) + 1\<rparr>)"

definition kJulianDayOf1970_01_01 :: int where
  "kJulianDayOf1970_01_01 = getJulianDayNumber 1970 1 1"

record date =
  julianDayNumber :: int

definition Date0 :: date where
  "Date0 = \<lparr>julianDayNumber = 0\<rparr>"

definition Date_of_ymd :: "int \<Rightarrow> int \<Rightarrow> int \<Rightarrow> date" where
  "Date_of_ymd y m d = \<lparr>julianDayNumber = getJulianDayNumber y m d\<rparr>"

definition Date_of_julian :: "int \<Rightarrow> date" where
  "Date_of_julian j = \<lparr>julianDayNumber = j\<rparr>"

definition valid_date :: "date \<Rightarrow> bool" where
  "valid_date d \<longleftrightarrow> julianDayNumber d > 0"

definition yearMonthDay :: "date \<Rightarrow> ymd" where
  "yearMonthDay d = getYearMonthDay (julianDayNumber d)"

definition date_year :: "date \<Rightarrow> int" where
  "date_year d = year (yearMonthDay d)"

definition date_month :: "date \<Rightarrow> int" where
  "date_month d = month (yearMonthDay d)"

definition date_day :: "date \<Rightarrow> int" where
  "date_day d = day (yearMonthDay d)"

definition weekDay :: "date \<Rightarrow> int" where
  "weekDay d = (julianDayNumber d + 1) smod 7"

definition date_less :: "date \<Rightarrow> date \<Rightarrow> bool" where
  "date_less d e \<longleftrightarrow> julianDayNumber d < julianDayNumber e"

definition date_eq :: "date \<Rightarrow> date \<Rightarrow> bool" where
  "date_eq d e \<longleftrightarrow> julianDayNumber d = julianDayNumber e"

definition swap_date :: "date \<Rightarrow> date \<Rightarrow> date \<times> date" where
  "swap_date d e = (e, d)"

text \<open>\<open>snprintf\<close> with \<open>%Nd\<close> and \<open>%0Nd\<close>, and the truncation to the buffer.\<close>

fun dec :: "nat \<Rightarrow> string" where
  "dec n = (if n < 10 then [char_of (48 + n)] else dec (n div 10) @ [char_of (48 + n mod 10)])"

declare dec.simps [simp del]

definition pad :: "char \<Rightarrow> nat \<Rightarrow> string \<Rightarrow> string" where
  "pad c w s = replicate (w - length s) c @ s"

definition fmt_d :: "nat \<Rightarrow> int \<Rightarrow> string" where
  "fmt_d w i = pad CHR '' '' w (if i < 0 then CHR ''-'' # dec (nat (- i)) else dec (nat i))"

definition fmt_0d :: "nat \<Rightarrow> int \<Rightarrow> string" where
  "fmt_0d w i =
     (if i < 0 then CHR ''-'' # pad CHR ''0'' (w - 1) (dec (nat (- i))) else pad CHR ''0'' w (dec (nat i)))"

definition toIsoString :: "date \<Rightarrow> string" where
  "toIsoString d =
     (let ymd = yearMonthDay d
      in take 31 (fmt_d 4 (year ymd) @ ''-'' @ fmt_0d 2 (month ymd) @ ''-'' @ fmt_0d 2 (day ymd)))"

subsection \<open>The calendar\<close>

definition leap_year :: "int \<Rightarrow> bool" where
  "leap_year y \<longleftrightarrow> 4 dvd y \<and> (\<not> 100 dvd y \<or> 400 dvd y)"

definition month_length :: "int \<Rightarrow> int \<Rightarrow> int" where
  "month_length y m = (if m = 2 then if leap_year y then 29 else 28
     else if m = 4 \<or> m = 6 \<or> m = 9 \<or> m = 11 then 30 else 31)"

definition calendar_date :: "ymd \<Rightarrow> bool" where
  "calendar_date t \<longleftrightarrow> 1 \<le> month t \<and> month t \<le> 12 \<and> 1 \<le> day t \<and> day t \<le> month_length (year t) (month t)"

definition next_day :: "ymd \<Rightarrow> ymd" where
  "next_day t =
     (if day t < month_length (year t) (month t) then t\<lparr>day := day t + 1\<rparr>
      else if month t < 12 then t\<lparr>month := month t + 1, day := 1\<rparr>
      else \<lparr>year = year t + 1, month = 1, day = 1\<rparr>)"

text \<open>The first day the formulas handle is 1 March of the year -4800.\<close>

definition in_range :: "ymd \<Rightarrow> bool" where
  "in_range t \<longleftrightarrow> - 4800 < year t \<or> year t = - 4800 \<and> 3 \<le> month t"

definition julian :: "ymd \<Rightarrow> int" where
  "julian t = getJulianDayNumber (year t) (month t) (day t)"

subsection \<open>Days counted from March\<close>

text \<open>
  Both formulas count in years that start in March: \<open>y\<close> such years, \<open>m\<close> months from March and
  \<open>d\<close> days make a day number.
\<close>

definition march_days :: "int \<Rightarrow> int \<Rightarrow> int" where
  "march_days y doy = doy + 365 * y + y div 4 - y div 100 + y div 400"

definition march_year :: "ymd \<Rightarrow> int" where
  "march_year t = year t + 4800 - (if month t \<le> 2 then 1 else 0)"

definition march_month :: "ymd \<Rightarrow> int" where
  "march_month t = (if month t \<le> 2 then month t + 9 else month t - 3)"

definition march_offset :: "int \<Rightarrow> int" where
  "march_offset m = (153 * m + 2) div 5"

lemma julian_march:
  assumes "1 \<le> month t" "month t \<le> 12" "in_range t"
  shows "julian t + 32044 = march_days (march_year t) (march_offset (march_month t) + day t - 1)"
    "0 \<le> march_year t" "0 \<le> march_month t" "march_month t \<le> 11"
proof -
  let ?a = "if month t \<le> 2 then 1 else 0 :: int"
  have a: "(14 - month t) sdiv 12 = ?a"
    using assms by (auto simp: sdiv_nonneg)
  have y: "year t + 4800 - ?a = march_year t" and m: "month t + 12 * ?a - 3 = march_month t"
    by (simp_all add: march_year_def march_month_def)
  show n: "0 \<le> march_year t" "0 \<le> march_month t" "march_month t \<le> 11"
    using assms by (auto simp: in_range_def march_year_def march_month_def)
  have "julian t + 32044 = day t + (153 * march_month t + 2) sdiv 5 + march_year t * 365 + march_year t sdiv 4
      - march_year t sdiv 100 + march_year t sdiv 400 - 1"
    unfolding julian_def getJulianDayNumber_def Let_def a y m by linarith
  also have "\<dots> = march_days (march_year t) (march_offset (march_month t) + day t - 1)"
    using n by (simp add: sdiv_nonneg march_days_def march_offset_def)
  finally show "julian t + 32044 = march_days (march_year t) (march_offset (march_month t) + day t - 1)" .
qed

lemma div_eq:
  assumes "b * q \<le> a" "a < b * q + b" "0 < (b::int)"
  shows "a div b = q"
  using assms by (intro int_div_pos_eq [of _ _ _ "a - b * q"]) auto

lemma sdiv_eq:
  assumes "b * q \<le> a" "a < b * q + b" "0 < (b::int)" "0 \<le> a"
  shows "a sdiv b = q"
  using div_eq [OF assms(1-3)] sdiv_nonneg [OF assms(4,3)] by simp

text \<open>A year as centuries and years of a century, of the 400-year cycle.\<close>

lemma march_days_split:
  assumes y: "y = 400 * q + 100 * s + t" "0 \<le> s" "s \<le> 3" "0 \<le> t" "t \<le> 99"
  shows "march_days y doy = 146097 * q + 36524 * s + 365 * t + t div 4 + doy"
proof -
  have "y = t + 4 * (100 * q + 25 * s)"
    using y(1) by simp
  then have "y div 4 = 100 * q + 25 * s + t div 4"
    by (simp only: div_mult_self2)
  moreover have "y div 100 = 4 * q + s" "y div 400 = q"
    using y by (intro div_eq; simp)+
  ultimately show ?thesis
    using y(1) by (simp add: march_days_def)
qed

lemma year_split:
  obtains q s t where "(y::int) = 400 * q + 100 * s + t" "0 \<le> s" "s \<le> 3" "0 \<le> t" "t \<le> 99" "q = y div 400"
proof -
  have "0 \<le> y mod 400" "y mod 400 < 400"
    by simp_all
  then have "0 \<le> y mod 400 div 100" "y mod 400 div 100 < 4" "0 \<le> y mod 400 mod 100" "y mod 400 mod 100 < 100"
    by (simp_all add: pos_imp_zdiv_nonneg_iff div_less_iff_less_mult)
  moreover have "y = 400 * (y div 400) + 100 * (y mod 400 div 100) + y mod 400 mod 100"
    by simp
  ultimately show ?thesis
    using that [of "y div 400" "y mod 400 div 100" "y mod 400 mod 100"] by auto
qed

text \<open>
  The inverse: a day of a March year, at most 365, and 365 only when the year ends in a leap
  day.
\<close>

lemma leap_march:
  assumes "y = 400 * q + 100 * s + t" "0 \<le> s" "s \<le> 3" "0 \<le> t" "t \<le> 99" "leap_year (y + 1)"
  shows "t mod 4 = 3 \<and> (t = 99 \<longrightarrow> s = 3)"
proof -
  have "4 dvd 4 * (100 * q + 25 * s) + (t + 1)"
    using assms(1,6) by (simp add: leap_year_def algebra_simps)
  then have "4 dvd t + 1"
    by (simp only: dvd_add_right_iff dvd_triv_left)
  then obtain k where "t + 1 = 4 * k" ..
  then have "t = 3 + 4 * (k - 1)" by simp
  then have "t mod 4 = 3"
    by (simp only: mod_mult_self2) simp
  moreover have "s = 3" if "t = 99"
  proof -
    have eq: "y + 1 = 400 * q + 100 * (s + 1)"
      using assms(1) that by simp
    then have "100 dvd y + 1" by simp
    then have "400 dvd y + 1"
      using assms(6) by (simp add: leap_year_def)
    then have "400 dvd 400 * q + 100 * (s + 1)"
      unfolding eq .
    then have "400 dvd 100 * (s + 1)" by (simp only: dvd_add_right_iff dvd_triv_left)
    then show ?thesis using assms(2,3) by presburger
  qed
  ultimately show ?thesis by blast
qed

lemma march_inverse:
  assumes "0 \<le> y" "0 \<le> doy" "doy \<le> 364 \<or> doy = 365 \<and> leap_year (y + 1)" and A: "A = march_days y doy"
  shows "\<exists>b c d. b = (4 * A + 3) sdiv 146097 \<and> c = A - ((b * 146097) sdiv 4) \<and> d = (4 * c + 3) sdiv 1461
    \<and> c - ((1461 * d) sdiv 4) = doy \<and> b * 100 + d = y \<and> 0 \<le> b \<and> 0 \<le> c \<and> c \<le> 36524 \<and> 0 \<le> d"
proof -
  obtain q s t where y: "y = 400 * q + 100 * s + t" "0 \<le> s" "s \<le> 3" "0 \<le> t" "t \<le> 99" "q = y div 400"
    by (rule year_split [of y])
  have q: "0 \<le> q"
    using y(6) assms(1) by (simp add: pos_imp_zdiv_nonneg_iff)
  note A' = march_days_split [OF y(1-5), of doy, folded A]
  define u where "u = t div 4"
  define v where "v = t mod 4"
  have t: "t = 4 * u + v" "0 \<le> u" "u \<le> 24" "0 \<le> v" "v \<le> 3"
    using y(4,5) by (simp_all add: u_def v_def)
  have doy: "doy \<le> 364 \<or> doy = 365 \<and> v = 3 \<and> (t = 99 \<longrightarrow> s = 3)"
    using assms(3) leap_march [OF y(1-5)] by (auto simp: v_def)
  let ?b = "4 * q + s" and ?c = "365 * t + u + doy"
  have r1: "0 \<le> 4 * ?c + 3 - s" "4 * ?c + 3 - s < 146097" and r2: "0 \<le> 4 * doy + 3 - v" "4 * doy + 3 - v < 1461"
    using doy
  proof (atomize (full), elim disjE)
    assume "doy \<le> 364"
    then show "(0 \<le> 4 * ?c + 3 - s \<and> 4 * ?c + 3 - s < 146097) \<and> 0 \<le> 4 * doy + 3 - v \<and> 4 * doy + 3 - v < 1461"
      using y(2-5) t assms(2) unfolding distrib_left by (intro conjI) linarith+
  next
    assume d: "doy = 365 \<and> v = 3 \<and> (t = 99 \<longrightarrow> s = 3)"
    then have "t \<le> 98 \<or> t = 99 \<and> s = 3"
      using y(5) by linarith
    then show "(0 \<le> 4 * ?c + 3 - s \<and> 4 * ?c + 3 - s < 146097) \<and> 0 \<le> 4 * doy + 3 - v \<and> 4 * doy + 3 - v < 1461"
      using y(2-5) t d unfolding distrib_left by (intro conjI) linarith+
  qed
  have "4 * A + 3 = 146097 * ?b + (4 * ?c + 3 - s)" "0 \<le> 146097 * ?b"
    using A' q y(2) by (simp_all add: u_def)
  then have "(4 * A + 3) sdiv 146097 = ?b"
    using r1 by (intro sdiv_eq) linarith+
  moreover have "(?b * 146097) sdiv 4 = 146097 * q + 36524 * s"
    using q y(2,3) by (intro sdiv_eq) (auto simp: algebra_simps)
  moreover from this have "A - ((?b * 146097) sdiv 4) = ?c"
    using A' by (simp add: u_def)
  moreover have "4 * ?c + 3 = 1461 * t + (4 * doy + 3 - v)"
    using t(1) by simp
  then have "(4 * ?c + 3) sdiv 1461 = t"
    using r2 y(4) t(2) assms(2) by (intro sdiv_eq; unfold distrib_left; linarith)
  moreover have "(1461 * t) sdiv 4 = 365 * t + u"
    using t by (intro sdiv_eq) simp_all
  ultimately show ?thesis
    using q y(1-5) t doy assms(2) by (intro exI [of _ ?b] exI [of _ ?c] exI [of _ t]) auto
qed

text \<open>The months: the offsets determine month and day.\<close>

lemma month_cases:
  assumes "0 \<le> (m::int)" "m \<le> 11"
  obtains "m = 0" | "m = 1" | "m = 2" | "m = 3" | "m = 4" | "m = 5" | "m = 6" | "m = 7" | "m = 8"
    | "m = 9" | "m = 10" | "m = 11"
proof -
  have "m \<in> set [0..11]" using assms by simp
  then show ?thesis using that by (simp add: upto.simps) blast
qed

lemma leap_year_4800: "leap_year (y + 4800) = leap_year y"
proof -
  have "(k dvd y + 4800) = (k dvd y)" if "k dvd 4800" for k :: int
    using that by (rule dvd_add_left_iff)
  then show ?thesis
    by (simp add: leap_year_def)
qed

lemma march_months:
  assumes "calendar_date t"
  shows "(5 * (march_offset (march_month t) + day t - 1) + 2) sdiv 153 = march_month t"
    "0 \<le> march_offset (march_month t) + day t - 1"
    "march_offset (march_month t) + day t - 1 \<le> 364
      \<or> march_offset (march_month t) + day t - 1 = 365 \<and> leap_year (march_year t + 1)"
proof -
  have d: "1 \<le> day t" "day t \<le> month_length (year t) (month t)" and m: "1 \<le> month t" "month t \<le> 12"
    using assms by (auto simp: calendar_date_def)
  have mm: "0 \<le> march_month t" "march_month t \<le> 11"
    using m by (auto simp: march_month_def)
  have leap: "leap_year (march_year t + 1) = leap_year (year t)" if "month t = 2"
    using that leap_year_4800 [of "year t"] by (simp add: march_year_def add.commute)
  have month: "month t = (if 10 \<le> march_month t then march_month t - 9 else march_month t + 3)"
    using m by (auto simp: march_month_def)
  show "(5 * (march_offset (march_month t) + day t - 1) + 2) sdiv 153 = march_month t"
    using mm
    by (cases rule: month_cases; (intro sdiv_eq)?)
      (use d month in \<open>auto simp: march_offset_def month_length_def split: if_splits\<close>)
  show "0 \<le> march_offset (march_month t) + day t - 1"
    using mm by (cases rule: month_cases) (use d in \<open>auto simp: march_offset_def\<close>)
  show "march_offset (march_month t) + day t - 1 \<le> 364
      \<or> march_offset (march_month t) + day t - 1 = 365 \<and> leap_year (march_year t + 1)"
    using mm by (cases rule: month_cases)
      (use d month leap in \<open>auto simp: march_offset_def month_length_def split: if_splits\<close>)
qed

lemma ymd_of_julian:
  assumes "calendar_date t" "in_range t"
  shows "getYearMonthDay (julian t) = t"
proof -
  have m: "1 \<le> month t" "month t \<le> 12"
    using assms(1) by (auto simp: calendar_date_def)
  let ?A = "julian t + 32044" and ?doy = "march_offset (march_month t) + day t - 1"
  note j = julian_march [OF m assms(2)]
  obtain b c d where i: "b = (4 * ?A + 3) sdiv 146097" "c = ?A - ((b * 146097) sdiv 4)" "d = (4 * c + 3) sdiv 1461"
    "c - ((1461 * d) sdiv 4) = ?doy" "b * 100 + d = march_year t"
    using march_inverse [OF j(2) march_months(2,3) [OF assms(1)] j(1)] by blast
  have o: "(153 * march_month t + 2) sdiv 5 = march_offset (march_month t)"
    using j(3) by (simp add: march_offset_def sdiv_nonneg)
  have s10: "march_month t sdiv 10 = (if 10 \<le> march_month t then 1 else 0)"
    using j(3,4) by (auto simp: sdiv_nonneg)
  have y: "b * 100 + d - 4800 + march_month t sdiv 10 = year t"
    unfolding s10 using i(5) m by (simp add: march_year_def march_month_def)
  have "getYearMonthDay (julian t) = \<lparr>year = b * 100 + d - 4800 + march_month t sdiv 10,
      month = march_month t + 3 - 12 * (march_month t sdiv 10), day = ?doy - march_offset (march_month t) + 1\<rparr>"
    unfolding getYearMonthDay_def Let_def i(1) [symmetric] i(2) [symmetric] i(3) [symmetric] i(4)
      march_months(1) [OF assms(1)] o ..
  also have "\<dots> = t"
    unfolding y unfolding s10 using m by (cases t) (auto simp: march_month_def)
  finally show ?thesis .
qed

subsection \<open>Consecutive days\<close>

lemma div_Suc:
  assumes "0 < (k::int)"
  shows "(y + 1) div k = y div k + (if k dvd y + 1 then 1 else 0)"
proof (cases "k dvd y + 1")
  case True
  then obtain j where j: "y + 1 = k * j" ..
  then have "y = k * (j - 1) + (k - 1)" by (simp add: algebra_simps)
  then have "y div k = j - 1"
    using assms by (intro int_div_pos_eq [of _ _ _ "k - 1"]) auto
  then show ?thesis using j assms by simp
next
  case False
  have "0 \<le> y mod k" "y mod k < k" "y = k * (y div k) + y mod k"
    using assms by simp_all
  moreover have "y mod k \<noteq> k - 1"
  proof
    assume "y mod k = k - 1"
    then have "y + 1 = k * (y div k) + k"
      using calculation(3) by linarith
    then have "y + 1 = k * (y div k + 1)"
      by (simp only: distrib_left mult_1_right)
    then show False using False by (metis dvd_triv_left)
  qed
  ultimately have "(y + 1) div k = y div k"
    by (intro int_div_pos_eq [of _ _ _ "y mod k + 1"]) auto
  then show ?thesis using False by simp
qed

lemma leap_count:
  fixes p q r :: int
  assumes "B \<Longrightarrow> A" "C \<Longrightarrow> B"
  shows "0 + 365 * (y + 1) + (p + (if A then 1 else 0)) - (q + (if B then 1 else 0)) + (r + (if C then 1 else 0))
    = 365 + (if A \<and> (\<not> B \<or> C) then 1 else 0) + 365 * y + p - q + r"
  using assms by auto

lemma march_days_Suc: "march_days (y + 1) 0 = march_days y (365 + (if leap_year (y + 1) then 1 else 0))"
proof -
  have d: "100 dvd y + 1 \<Longrightarrow> 4 dvd y + 1" "400 dvd y + 1 \<Longrightarrow> 100 dvd y + 1"
    by (rule dvd_trans [of 4 100] dvd_trans [of 100 400]; simp)+
  have e: "(y + 1) div 4 = y div 4 + (if 4 dvd y + 1 then 1 else 0)"
    "(y + 1) div 100 = y div 100 + (if 100 dvd y + 1 then 1 else 0)"
    "(y + 1) div 400 = y div 400 + (if 400 dvd y + 1 then 1 else 0)"
    by (rule div_Suc; simp)+
  show ?thesis
    unfolding march_days_def leap_year_def e by (rule leap_count [OF d])
qed

lemma julian_next:
  assumes c: "calendar_date t" and r: "in_range t"
  shows "julian (next_day t) = julian t + 1 \<and> calendar_date (next_day t) \<and> in_range (next_day t)"
proof -
  have m: "1 \<le> month t" "month t \<le> 12" and d: "1 \<le> day t" "day t \<le> month_length (year t) (month t)"
    using c by (auto simp: calendar_date_def)
  let ?n = "next_day t"
  have n: "calendar_date ?n" "in_range ?n"
    using m d r by (auto simp: next_day_def calendar_date_def in_range_def month_length_def)
  then have nm: "1 \<le> month ?n" "month ?n \<le> 12"
    by (auto simp: calendar_date_def)
  note j = julian_march [OF m r] and jn = julian_march [OF nm n(2)]
  show ?thesis
  proof (cases "day t < month_length (year t) (month t)")
    case True
    then have "march_year ?n = march_year t" "march_month ?n = march_month t" "day ?n = day t + 1"
      by (simp_all add: next_day_def march_year_def march_month_def)
    then show ?thesis
      using j(1) jn(1) n by (simp add: march_days_def)
  next
    case False
    then have last: "day t = month_length (year t) (month t)" "day ?n = 1"
      using d by (auto simp: next_day_def)
    show ?thesis
    proof (cases "month t = 2")
      case True
      then have y: "march_year ?n = march_year t + 1" "march_month ?n = 0" "march_month t = 11"
        using False by (simp_all add: next_day_def march_year_def march_month_def)
      have "leap_year (march_year t + 1) = leap_year (year t)"
        using True leap_year_4800 [of "year t"] by (simp add: march_year_def add.commute)
      then have "march_days (march_year t + 1) 0 = march_days (march_year t) (march_offset 11 + day t - 1) + 1"
        unfolding march_days_Suc using True last by (simp add: march_days_def march_offset_def month_length_def)
      then show ?thesis
        using j(1) jn(1) y last n by (simp add: march_offset_def)
    next
      case nf: False
      then have y: "march_year ?n = march_year t" "march_month ?n = march_month t + 1"
        using False m by (auto simp: next_day_def march_year_def march_month_def)
      have le: "march_month t \<le> 10"
        using nf m by (auto simp: march_month_def)
      have month: "month t = (if 10 \<le> march_month t then march_month t - 9 else march_month t + 3)"
        using m by (auto simp: march_month_def)
      have "march_offset (march_month t + 1) = march_offset (march_month t) + day t"
        using j(3,4)
        by (cases rule: month_cases) (use le month last(1) in \<open>auto simp: march_offset_def month_length_def\<close>)
      then show ?thesis
        using j(1) jn(1) y last n by (simp add: march_days_def)
    qed
  qed
qed

text \<open>Every day number from the first one on is the number of a calendar date.\<close>

lemma julian_surj:
  assumes "- 32044 \<le> j"
  shows "\<exists>t. calendar_date t \<and> in_range t \<and> julian t = j"
  using assms
proof (induction j rule: int_ge_induct)
  case base
  have "calendar_date \<lparr>year = - 4800, month = 3, day = 1\<rparr>" "in_range \<lparr>year = - 4800, month = 3, day = 1\<rparr>"
    "julian \<lparr>year = - 4800, month = 3, day = 1\<rparr> = - 32044"
    by (simp_all add: calendar_date_def month_length_def in_range_def julian_def getJulianDayNumber_def)
  then show ?case by blast
next
  case (step i)
  then show ?case using julian_next by metis
qed

lemma julian_of_ymd:
  assumes "- 32044 \<le> j"
  shows "julian (getYearMonthDay j) = j \<and> calendar_date (getYearMonthDay j) \<and> in_range (getYearMonthDay j)"
  using julian_surj [OF assms] ymd_of_julian by metis

subsection \<open>Properties\<close>

text \<open>
  C24: the two conversions are inverse to each other: every calendar date from 1 March -4800 on
  is recovered from its Julian day number, and every Julian day number from -32044 on from the
  calendar date it is converted to.
\<close>

theorem date_round_trip:
  "(calendar_date t \<and> in_range t \<longrightarrow> yearMonthDay (Date_of_ymd (year t) (month t) (day t)) = t)
   \<and> (- 32044 \<le> j \<longrightarrow> (case yearMonthDay (Date_of_julian j) of t' \<Rightarrow>
        calendar_date t' \<and> Date_of_ymd (year t') (month t') (day t') = Date_of_julian j))"
  using ymd_of_julian [of t] julian_of_ymd [of j]
  by (simp add: yearMonthDay_def Date_of_ymd_def Date_of_julian_def julian_def)

lemma date_round_trip_witness:
  "yearMonthDay (Date_of_ymd 2024 2 29) = \<lparr>year = 2024, month = 2, day = 29\<rparr>
   \<and> calendar_date (yearMonthDay (Date_of_julian 2415021))"
  using date_round_trip [of "\<lparr>year = 2024, month = 2, day = 29\<rparr>" 2415021]
  by (simp add: calendar_date_def month_length_def leap_year_def in_range_def)

text \<open>
  C25: consecutive calendar days have consecutive Julian day numbers, and the day of the week
  goes around by one; 1 January 1900 is the day 2415021, a Monday.
\<close>

theorem date_consecutive:
  assumes "calendar_date t" "in_range t" "- 1 \<le> julian t"
  defines "d \<equiv> Date_of_ymd (year t) (month t) (day t)"
    and "d' \<equiv> Date_of_ymd (year (next_day t)) (month (next_day t)) (day (next_day t))"
  shows "julianDayNumber d' = julianDayNumber d + 1 \<and> weekDay d' = (weekDay d + 1) mod 7
    \<and> 0 \<le> weekDay d \<and> weekDay d < 7
    \<and> Date_of_ymd 1900 1 1 = Date_of_julian 2415021 \<and> weekDay (Date_of_julian 2415021) = 1"
proof -
  have "julianDayNumber d' = julianDayNumber d + 1" "julianDayNumber d = julian t"
    using julian_next [OF assms(1,2)] by (simp_all add: d_def d'_def Date_of_ymd_def julian_def)
  moreover have "Date_of_ymd 1900 1 1 = Date_of_julian 2415021 \<and> weekDay (Date_of_julian 2415021) = 1"
    by (simp add: Date_of_ymd_def Date_of_julian_def getJulianDayNumber_def weekDay_def)
  ultimately show ?thesis
    using assms(3) by (simp add: weekDay_def smod_nonneg mod_add_left_eq)
qed

lemma date_consecutive_witness:
  "julianDayNumber (Date_of_ymd 1900 3 1) = julianDayNumber (Date_of_ymd 1900 2 28) + 1"
  using date_consecutive [of "\<lparr>year = 1900, month = 2, day = 28\<rparr>"]
  by (simp add: calendar_date_def month_length_def leap_year_def in_range_def next_day_def julian_def
      getJulianDayNumber_def)

text \<open>The intermediate values of \<open>getYearMonthDay\<close>, in the order the code computes them.\<close>

definition in_int32 :: "int \<Rightarrow> bool" where
  "in_int32 x \<longleftrightarrow> - (2 ^ 31) \<le> x \<and> x < 2 ^ 31"

definition ymd_values :: "int \<Rightarrow> int list" where
  "ymd_values j =
     (let a = j + 32044;
          b = (4 * a + 3) sdiv 146097;
          c = a - ((b * 146097) sdiv 4);
          d = (4 * c + 3) sdiv 1461;
          e = c - ((1461 * d) sdiv 4);
          m = (5 * e + 2) sdiv 153
      in [a, 4 * a, 4 * a + 3, b, b * 146097, (b * 146097) sdiv 4, c, 4 * c, 4 * c + 3, d, 1461 * d, (1461 * d) sdiv 4, e,
          5 * e, 5 * e + 2, m, 153 * m, 153 * m + 2, (153 * m + 2) sdiv 5, e - ((153 * m + 2) sdiv 5), e - ((153 * m + 2) sdiv 5) + 1,
          m + 3, m sdiv 10, 12 * (m sdiv 10), m + 3 - 12 * (m sdiv 10),
          b * 100, b * 100 + d, b * 100 + d - 4800, b * 100 + d - 4800 + (m sdiv 10)])"

text \<open>
  C32: for every Julian day number from -32044 to 536838867 (the year 1465102), \<open>getYearMonthDay\<close>
  computes without leaving the range of a 32-bit \<open>int\<close>.
\<close>

theorem ymd_no_overflow:
  assumes "- 32044 \<le> j" "j \<le> 536838867"
  shows "list_all in_int32 (ymd_values j) \<and> julian (getYearMonthDay j) = j"
proof -
  let ?t = "getYearMonthDay j"
  have t: "julian ?t = j" "calendar_date ?t" "in_range ?t"
    using julian_of_ymd [OF assms(1)] by auto
  then have m: "1 \<le> month ?t" "month ?t \<le> 12"
    by (auto simp: calendar_date_def)
  note l = julian_march [OF m t(3)] and mm = march_months [OF t(2)]
  let ?A = "j + 32044" and ?doy = "march_offset (march_month ?t) + day ?t - 1"
  obtain b c d where i: "b = (4 * ?A + 3) sdiv 146097" "c = ?A - ((b * 146097) sdiv 4)" "d = (4 * c + 3) sdiv 1461"
    "c - ((1461 * d) sdiv 4) = ?doy" "0 \<le> b" "0 \<le> c" "c \<le> 36524" "0 \<le> d"
    using march_inverse [OF l(2) mm(2,3) l(1) [unfolded t(1)]] by blast
  let ?m = "march_month ?t"
  have v: "ymd_values j = [?A, 4 * ?A, 4 * ?A + 3, b, b * 146097, (b * 146097) sdiv 4, c, 4 * c, 4 * c + 3, d, 1461 * d, (1461 * d) sdiv 4,
      ?doy, 5 * ?doy, 5 * ?doy + 2, ?m, 153 * ?m, 153 * ?m + 2, (153 * ?m + 2) sdiv 5,
      ?doy - ((153 * ?m + 2) sdiv 5), ?doy - ((153 * ?m + 2) sdiv 5) + 1,
      ?m + 3, ?m sdiv 10, 12 * (?m sdiv 10), ?m + 3 - 12 * (?m sdiv 10),
      b * 100, b * 100 + d, b * 100 + d - 4800, b * 100 + d - 4800 + (?m sdiv 10)]"
    unfolding ymd_values_def Let_def i(1) [symmetric] i(2) [symmetric] i(3) [symmetric] i(4) mm(1) ..
  have "b = (4 * ?A + 3) div 146097"
    unfolding i(1) using assms(1) by (intro sdiv_nonneg) auto
  then have b: "b * 146097 \<le> 4 * ?A + 3"
    using div_mult_mod_eq [of "4 * ?A + 3" 146097] pos_mod_sign [of 146097 "4 * ?A + 3"] by linarith
  have "d = (4 * c + 3) div 1461"
    unfolding i(3) using i(6) by (intro sdiv_nonneg) auto
  then have d: "d * 1461 \<le> 4 * c + 3"
    using div_mult_mod_eq [of "4 * c + 3" 1461] pos_mod_sign [of 1461 "4 * c + 3"] by linarith
  have q: "(b * 146097) sdiv 4 = ?A - c" "(1461 * d) sdiv 4 = c - ?doy"
    using i(2,4) by linarith+
  have "(153 * ?m + 2) sdiv 5 = (153 * ?m + 2) div 5" "?m sdiv 10 = ?m div 10"
    using l(3) by (simp_all add: sdiv_nonneg)
  then have s: "0 \<le> (153 * ?m + 2) sdiv 5" "(153 * ?m + 2) sdiv 5 \<le> 337" "0 \<le> ?m sdiv 10" "?m sdiv 10 \<le> 1"
    using l(3,4) by linarith+
  have "?doy \<le> 365" "0 \<le> ?doy"
    using mm(2,3) by auto
  then show ?thesis
    unfolding v q using assms i(5-8) b d l(3,4) t(1) s by (simp add: in_int32_def)
qed

lemma ymd_no_overflow_witness: "list_all in_int32 (ymd_values 2460000)"
  using ymd_no_overflow [of 2460000] by simp

end
