(* ===== verification/LogFile.thy ===== *)
theory LogFile
  imports LogStream Date
begin

section \<open>Log files and their rotation (log/LogFile.h, log/Logging.h, log/Logger.cpp)\<close>

text \<open>
  Clock, files and process data are the operating system's: a record of functions on a world
  \<open>'w\<close> that every operation here takes as its first argument.  A file is named by its path.
  \<open>os_fwrite\<close> answers how many bytes it took; \<open>os_stamp\<close> is the output of \<open>strftime\<close> for the
  local time.  A failed \<open>assert\<close> and a null \<open>logFile_\<close> are undefined (\<open>None\<close>).
\<close>

record 'w os =
  os_now :: "'w \<Rightarrow> int \<times> 'w"
  os_fopen :: "string \<Rightarrow> 'w \<Rightarrow> bool \<times> 'w"
  os_fclose :: "string \<Rightarrow> 'w \<Rightarrow> 'w"
  os_fwrite :: "string \<Rightarrow> bytes \<Rightarrow> 'w \<Rightarrow> nat \<times> 'w"
  os_fflush :: "string \<Rightarrow> 'w \<Rightarrow> 'w"
  os_stamp :: "int \<Rightarrow> string"
  os_hostName :: string
  os_pid :: int

subsection \<open>The log destination\<close>

definition find_last_of :: "char \<Rightarrow> string \<Rightarrow> nat option" where
  "find_last_of c s =
     (case dropWhile (\<lambda>i. s ! i \<noteq> c) (rev [0..<length s]) of [] \<Rightarrow> None | i # _ \<Rightarrow> Some i)"

text \<open>The static member starts as the current directory.\<close>

definition s_destination :: string where
  "s_destination = ''./''"

definition getLogDestination :: "string \<Rightarrow> string" where
  "getLogDestination dest = dest"

definition setLogDestination :: "string \<Rightarrow> string" where
  "setLogDestination destination =
     (if find_last_of CHR ''/'' destination \<noteq> Some (length destination)
      then destination @ ''/'' else destination)"

subsection \<open>LogFile\<close>

record logfile =
  lf_path :: string
  writtenBytes :: nat

definition open_LogFile :: "'w os \<Rightarrow> string \<Rightarrow> 'w \<Rightarrow> (logfile \<times> 'w) option" where
  "open_LogFile os filename w =
     (case os_fopen os filename w of (ok, w') \<Rightarrow>
        if ok then Some (\<lparr>lf_path = filename, writtenBytes = 0\<rparr>, w') else None)"

definition close_LogFile :: "'w os \<Rightarrow> logfile \<Rightarrow> 'w \<Rightarrow> 'w" where
  "close_LogFile os f w = os_fclose os (lf_path f) w"

text \<open>The loop that retries a short write; \<open>rest\<close> is what is still to be written.\<close>

function write_loop :: "'w os \<Rightarrow> string \<Rightarrow> bytes \<Rightarrow> 'w \<Rightarrow> 'w" where
  "write_loop os p rest w =
     (if rest = [] then w
      else case os_fwrite os p rest w of (x, w') \<Rightarrow>
             if x = 0 then w' else write_loop os p (drop x rest) w')"
  by pat_completeness auto
termination
  by (relation "measure (\<lambda>(os, p, rest, w). length rest)") auto

declare write_loop.simps [simp del]

definition append_LogFile :: "'w os \<Rightarrow> bytes \<Rightarrow> logfile \<Rightarrow> 'w \<Rightarrow> logfile \<times> 'w" where
  "append_LogFile os logline f w =
     (case os_fwrite os (lf_path f) logline w of (n, w') \<Rightarrow>
        (f\<lparr>writtenBytes := writtenBytes f + length logline\<rparr>, write_loop os (lf_path f) (drop n logline) w'))"

definition flush_LogFile :: "'w os \<Rightarrow> logfile \<Rightarrow> 'w \<Rightarrow> 'w" where
  "flush_LogFile os f w = os_fflush os (lf_path f) w"

subsection \<open>Rotation\<close>

text \<open>
  The fields that \<open>Logger\<close> and \<open>AsyncLogger\<close> share, and their \<open>rollFile\<close>, which is the same
  code in both classes.  \<open>dest\<close> is the value of \<open>Logging::getLogDestination\<close>.
\<close>

record rolling =
  basename :: string
  rollSize :: nat
  hostNameInLogFileName :: bool
  pidInLogFileName :: bool
  log_count :: nat
  startOfPeriod :: int
  lastRoll :: int
  lastFlush :: int
  logFile :: "logfile option"

definition kCheckTimeRoll :: nat where
  "kCheckTimeRoll = 1024"

definition kRollPerSeconds :: int where
  "kRollPerSeconds = 60 * 60 * 24"

definition period_of :: "int \<Rightarrow> int" where
  "period_of now = now sdiv kRollPerSeconds * kRollPerSeconds"

definition log_filename :: "'w os \<Rightarrow> string \<Rightarrow> int \<Rightarrow> 'a rolling_scheme \<Rightarrow> string" where
  "log_filename os dest now l =
     dest @ basename l @ os_stamp os now
       @ (if hostNameInLogFileName l then ''.'' @ os_hostName os else [])
       @ (if pidInLogFileName l then ''.'' @ fmt_d 0 (os_pid os) else []) @ ''.log''"

definition rollFile :: "'w os \<Rightarrow> string \<Rightarrow> 'a rolling_scheme \<Rightarrow> 'w \<Rightarrow> ('a rolling_scheme \<times> 'w) option" where
  "rollFile os dest l w =
     (case os_now os w of (now, w1) \<Rightarrow>
        if now > lastRoll l then do {
          let l1 = l\<lparr>lastRoll := now, lastFlush := now, startOfPeriod := period_of now\<rparr>;
          (f, w2) \<leftarrow> open_LogFile os (log_filename os dest now l1) w1;
          let w3 = (case logFile l of None \<Rightarrow> w2 | Some old \<Rightarrow> close_LogFile os old w2);
          Some (l1\<lparr>logFile := Some f\<rparr>, w3) }
        else Some (l, w1))"

subsection \<open>What the system must do\<close>

text \<open>
  The documented behaviour of the file functions that the properties use: \<open>out\<close> is the sequence
  of bytes that were handed to log files so far.  Only \<open>fwrite\<close> adds to it, a prefix of its
  argument as long as it answers; \<open>fopen\<close> succeeds, and a write of some bytes takes at least
  one of them.
\<close>

definition os_ok :: "'w os \<Rightarrow> ('w \<Rightarrow> bytes) \<Rightarrow> bool" where
  "os_ok os out \<longleftrightarrow>
     (\<forall>w. out (snd (os_now os w)) = out w)
     \<and> (\<forall>p w. fst (os_fopen os p w) \<and> out (snd (os_fopen os p w)) = out w)
     \<and> (\<forall>p w. out (os_fclose os p w) = out w) \<and> (\<forall>p w. out (os_fflush os p w) = out w)
     \<and> (\<forall>p xs w. fst (os_fwrite os p xs w) \<le> length xs \<and> (xs \<noteq> [] \<longrightarrow> 0 < fst (os_fwrite os p xs w))
          \<and> out (snd (os_fwrite os p xs w)) = out w @ take (fst (os_fwrite os p xs w)) xs)"

lemma os_okD:
  assumes "os_ok os out"
  shows "os_now os w = (n, w') \<Longrightarrow> out w' = out w" "os_fopen os p w = (b, w') \<Longrightarrow> b \<and> out w' = out w"
    "out (os_fclose os p w) = out w" "out (os_fflush os p w) = out w"
    "os_fwrite os p xs w = (k, w') \<Longrightarrow> k \<le> length xs \<and> (xs \<noteq> [] \<longrightarrow> 0 < k) \<and> out w' = out w @ take k xs"
  using assms unfolding os_ok_def by (metis fst_conv snd_conv)+


lemma write_loop_out:
  assumes ok: "os_ok os out"
  shows "out (write_loop os p rest w) = out w @ rest"
proof (induction rest arbitrary: w rule: length_induct)
  case (1 rest)
  show ?case
  proof (cases "rest = []")
    case False
    obtain k w' where k: "os_fwrite os p rest w = (k, w')"
      by (cases "os_fwrite os p rest w")
    note d = os_okD(5) [OF ok k]
    then have "out (write_loop os p (drop k rest) w') = out w' @ drop k rest"
      using 1 False by simp
    then show ?thesis
      using False d k by (subst write_loop.simps) simp
  qed (subst write_loop.simps, simp)
qed

lemma append_LogFile_out:
  assumes ok: "os_ok os out" and a: "append_LogFile os line f w = (f', w')"
  shows "out w' = out w @ line" "writtenBytes f' = writtenBytes f + length line" "lf_path f' = lf_path f"
proof -
  obtain k w1 where k: "os_fwrite os (lf_path f) line w = (k, w1)"
    by (cases "os_fwrite os (lf_path f) line w")
  then show "out w' = out w @ line"
    using a os_okD(5) [OF ok k] write_loop_out [OF ok, of "lf_path f" "drop k line" w1]
    by (simp add: append_LogFile_def)
qed (use a in \<open>auto simp: append_LogFile_def split: prod.splits\<close>)

definition rolling_ok :: "'a rolling_scheme \<Rightarrow> bool" where
  "rolling_ok l \<longleftrightarrow> logFile l \<noteq> None \<and> startOfPeriod l = period_of (lastRoll l) \<and> log_count l \<le> Suc kCheckTimeRoll"

text \<open>
  What \<open>rollFile\<close> does: when the clock is past the last roll, a new, empty file takes the place of
  the old one; otherwise nothing.  Nothing is written.
\<close>

lemma rollFile_correct:
  assumes ok: "os_ok os out"
  obtains l' w' now where "rollFile os dest l w = Some (l', w')" "out w' = out w" "fst (os_now os w) = now"
    "lastRoll l' = max (lastRoll l) now"
    "lastRoll l < now \<Longrightarrow> logFile l' = Some \<lparr>lf_path = log_filename os dest now l, writtenBytes = 0\<rparr>
       \<and> startOfPeriod l' = period_of now \<and> lastFlush l' = now"
    "now \<le> lastRoll l \<Longrightarrow> l' = l" "log_count l' = log_count l"
    "rolling.more l' = rolling.more l" "rollSize l' = rollSize l"
proof -
  obtain now w1 where n: "os_now os w = (now, w1)"
    by (cases "os_now os w")
  note o1 = os_okD(1) [OF ok n]
  let ?l1 = "l\<lparr>lastRoll := now, lastFlush := now, startOfPeriod := period_of now\<rparr>"
  obtain b w2 where op: "os_fopen os (log_filename os dest now ?l1) w1 = (b, w2)"
    by (cases "os_fopen os (log_filename os dest now ?l1) w1")
  note o2 = os_okD(2) [OF ok op]
  have name: "log_filename os dest now ?l1 = log_filename os dest now l"
    by (simp add: log_filename_def)
  show ?thesis
  proof (cases "lastRoll l < now")
    case True
    let ?l' = "?l1\<lparr>logFile := Some \<lparr>lf_path = log_filename os dest now l, writtenBytes = 0\<rparr>\<rparr>"
    let ?w' = "case logFile l of None \<Rightarrow> w2 | Some old \<Rightarrow> close_LogFile os old w2"
    have "rollFile os dest l w = Some (?l', ?w')"
      using True n op o2 by (simp add: rollFile_def open_LogFile_def Let_def name)
    moreover have "out ?w' = out w"
      using o1 o2 os_okD(3) [OF ok] by (simp add: close_LogFile_def split: option.split)
    ultimately show ?thesis
      using True n by (intro that [of ?l' ?w' now]) (simp_all add: max_def)
  next
    case False
    then have "rollFile os dest l w = Some (l, w1)"
      using n by (simp add: rollFile_def)
    then show ?thesis
      using False n o1 by (intro that [of l w1 now]) (simp_all add: max_def)
  qed
qed

text \<open>A rolled logger stays well formed; one that has no file yet gets one when the clock is past 0.\<close>

lemma rolling_ok_roll:
  assumes "os_ok os out" "rolling_ok l"
  shows "\<exists>l' w'. rollFile os dest l w = Some (l', w') \<and> rolling_ok l' \<and> out w' = out w
    \<and> rolling.more l' = rolling.more l"
proof -
  obtain l' w' now where r: "rollFile os dest l w = Some (l', w')" "out w' = out w"
    "lastRoll l' = max (lastRoll l) now"
    "lastRoll l < now \<Longrightarrow> logFile l' = Some \<lparr>lf_path = log_filename os dest now l, writtenBytes = 0\<rparr>
       \<and> startOfPeriod l' = period_of now \<and> lastFlush l' = now"
    "now \<le> lastRoll l \<Longrightarrow> l' = l" "log_count l' = log_count l" "rolling.more l' = rolling.more l"
    using rollFile_correct [OF assms(1), of dest l w] by metis
  have "rolling_ok l'"
    using r(3-6) assms(2) by (cases "lastRoll l < now") (auto simp: rolling_ok_def max_def)
  with r(1,2,7) show ?thesis by blast
qed

text \<open>
  A small system: a clock that goes one second further at every reading, and one stream of all
  bytes written, which takes at most three bytes of each write.
\<close>

definition tick_os :: "(int \<times> bytes) os" where
  "tick_os = \<lparr>os_now = (\<lambda>(t, out). (t, (t + 1, out))), os_fopen = (\<lambda>_ w. (True, w)), os_fclose = (\<lambda>_ w. w),
     os_fwrite = (\<lambda>_ xs (t, out). (min 3 (length xs), (t, out @ take 3 xs))), os_fflush = (\<lambda>_ w. w),
     os_stamp = (\<lambda>_. ''.now''), os_hostName = ''host'', os_pid = 7\<rparr>"

lemma tick_os_ok: "os_ok tick_os snd"
  by (auto simp: os_ok_def tick_os_def min_def)

subsection \<open>A finding on the destination\<close>

lemma find_last_of_less: "find_last_of c s = Some i \<Longrightarrow> i < length s"
proof -
  assume f: "find_last_of c s = Some i"
  then obtain js where "dropWhile (\<lambda>i. s ! i \<noteq> c) (rev [0..<length s]) = i # js"
    by (auto simp: find_last_of_def split: list.splits)
  then have "i \<in> set (rev [0..<length s])"
    by (metis list.set_intros(1) set_dropWhileD)
  then show ?thesis by simp
qed

text \<open>
  The test in \<open>setLogDestination\<close> compares a position with the length, which no position
  reaches: a slash is always added, also behind a destination that ends in one.
\<close>

theorem destination_always_gets_slash: "setLogDestination d = d @ ''/''"
  using find_last_of_less by (auto simp: setLogDestination_def)

end
