(* ===== verification/Logger.thy ===== *)
theory Logger
  imports LogFile
begin

section \<open>The synchronous logger (log/Logger.h, log/Logger.cpp)\<close>

text \<open>
  \<open>Logger\<close> writes every line to its current file and rolls to a new file when the file is too
  large or a new day has begun; both tests read the clock only now and then.  The mutex, present
  when \<open>threadSafe\<close> is set, makes each append atomic, which a function already is.
\<close>

record logger = rolling +
  flushInterval :: int
  threadSafe :: bool

definition new_logger ::
  "'w os \<Rightarrow> string \<Rightarrow> string \<Rightarrow> nat \<Rightarrow> bool \<Rightarrow> int \<Rightarrow> bool \<Rightarrow> bool \<Rightarrow> 'w \<Rightarrow> (logger \<times> 'w) option" where
  "new_logger os dest base sz safe interval host pid w =
     (if CHR ''/'' \<in> set base then None
      else rollFile os dest
        \<lparr>basename = base, rollSize = sz, hostNameInLogFileName = host, pidInLogFileName = pid,
         log_count = 0, startOfPeriod = 0, lastRoll = 0, lastFlush = 0, logFile = None,
         flushInterval = interval, threadSafe = safe\<rparr> w)"

definition append_unlocked ::
  "'w os \<Rightarrow> string \<Rightarrow> bytes \<Rightarrow> logger \<Rightarrow> 'w \<Rightarrow> (logger \<times> 'w) option" where
  "append_unlocked os dest logLine l w =
     (case logFile l of None \<Rightarrow> None
      | Some f \<Rightarrow>
        (case append_LogFile os logLine f w of (f', w1) \<Rightarrow>
          let l1 = l\<lparr>logFile := Some f'\<rparr> in
          if rollSize l > 0 \<and> writtenBytes f' > rollSize l then rollFile os dest l1 w1
          else if log_count l > kCheckTimeRoll then
            (case os_now os w1 of (now, w2) \<Rightarrow>
              let l2 = l1\<lparr>log_count := 0\<rparr> in
              if period_of now \<noteq> startOfPeriod l then rollFile os dest l2 w2
              else if now - lastFlush l > flushInterval l
              then Some (l2\<lparr>lastFlush := now\<rparr>, flush_LogFile os f' w2)
              else Some (l2, w2))
          else Some (l1\<lparr>log_count := log_count l + 1\<rparr>, w1)))"

definition append_Logger :: "'w os \<Rightarrow> string \<Rightarrow> bytes \<Rightarrow> logger \<Rightarrow> 'w \<Rightarrow> (logger \<times> 'w) option" where
  "append_Logger os dest logLine l w =
     (if threadSafe l then append_unlocked os dest logLine l w else append_unlocked os dest logLine l w)"

definition flush_Logger :: "'w os \<Rightarrow> logger \<Rightarrow> 'w \<Rightarrow> (logger \<times> 'w) option" where
  "flush_Logger os l w = (case logFile l of None \<Rightarrow> None | Some f \<Rightarrow> Some (l, flush_LogFile os f w))"

subsection \<open>Every line reaches a file\<close>

lemma rolling_ok_updates [simp]:
  "rolling_ok (l\<lparr>logFile := Some f\<rparr>) \<longleftrightarrow> startOfPeriod l = period_of (lastRoll l) \<and> log_count l \<le> Suc kCheckTimeRoll"
  "rolling_ok (l\<lparr>lastFlush := t\<rparr>) = rolling_ok l"
  by (simp_all add: rolling_ok_def)

lemma append_Logger_eq: "append_Logger os dest line l w = append_unlocked os dest line l w"
  by (simp add: append_Logger_def)

lemma append_unlocked_correct:
  assumes ok: "os_ok os out" and l: "rolling_ok l"
  shows "\<exists>l' w'. append_unlocked os dest line l w = Some (l', w') \<and> rolling_ok l' \<and> out w' = out w @ line"
proof -
  obtain f where f: "logFile l = Some f"
    using l by (auto simp: rolling_ok_def)
  obtain f' w1 where a: "append_LogFile os line f w = (f', w1)"
    by (cases "append_LogFile os line f w")
  note o1 = append_LogFile_out [OF ok a]
  let ?l1 = "l\<lparr>logFile := Some f'\<rparr>"
  have l1: "rolling_ok ?l1" "rolling_ok (?l1\<lparr>log_count := 0\<rparr>)"
    using l by (simp_all add: rolling_ok_def)
  obtain now w2 where n: "os_now os w1 = (now, w2)"
    by (cases "os_now os w1")
  note o2 = os_okD(1) [OF ok n]
  consider (big) "rollSize l > 0 \<and> writtenBytes f' > rollSize l"
    | (day) "\<not> (rollSize l > 0 \<and> writtenBytes f' > rollSize l)" "log_count l > kCheckTimeRoll" "period_of now \<noteq> startOfPeriod l"
    | (same) "\<not> (rollSize l > 0 \<and> writtenBytes f' > rollSize l)" "log_count l > kCheckTimeRoll" "period_of now = startOfPeriod l"
    | (count) "\<not> (rollSize l > 0 \<and> writtenBytes f' > rollSize l)" "\<not> log_count l > kCheckTimeRoll"
    by blast
  then show ?thesis
  proof cases
    case big
    then show ?thesis
      using rolling_ok_roll [OF ok l1(1), of dest w1] f a o1 by (auto simp: append_unlocked_def Let_def)
  next
    case day
    then show ?thesis
      using rolling_ok_roll [OF ok l1(2), of dest w2] f a n o1 o2 by (auto simp: append_unlocked_def Let_def)
  next
    case same
    then show ?thesis
      using l f a n o1 o2 os_okD(4) [OF ok]
      by (auto simp: append_unlocked_def Let_def flush_LogFile_def rolling_ok_def)
  next
    case count
    then show ?thesis
      using l f a o1 by (auto simp: append_unlocked_def Let_def rolling_ok_def)
  qed
qed

fun append_lines :: "'w os \<Rightarrow> string \<Rightarrow> bytes list \<Rightarrow> logger \<Rightarrow> 'w \<Rightarrow> (logger \<times> 'w) option" where
  "append_lines os dest [] l w = Some (l, w)"
| "append_lines os dest (x # xs) l w = do { (l', w') \<leftarrow> append_Logger os dest x l w; append_lines os dest xs l' w' }"

definition demo_logger :: logger where
  "demo_logger = \<lparr>basename = ''app'', rollSize = 8, hostNameInLogFileName = True, pidInLogFileName = True,
     log_count = 0, startOfPeriod = 0, lastRoll = 100, lastFlush = 100,
     logFile = Some \<lparr>lf_path = ''app.log'', writtenBytes = 0\<rparr>, flushInterval = 3, threadSafe = True\<rparr>"

lemma demo_logger_ok: "rolling_ok demo_logger"
  by (simp add: rolling_ok_def demo_logger_def period_of_def kRollPerSeconds_def sdiv_nonneg)

subsection \<open>Properties\<close>

text \<open>
  C14: on a system whose files accept writes (in any portions), a well-formed logger writes every
  line completely and in order, whatever rolls happen in between, and stays well formed: it has an
  open file and the period it counts is the day of its last roll.
\<close>

theorem logger_writes_all:
  assumes "os_ok os out" "rolling_ok l"
  shows "\<exists>l' w'. append_lines os dest xs l w = Some (l', w') \<and> rolling_ok l' \<and> out w' = out w @ concat xs"
  using assms(2)
proof (induction xs arbitrary: l w)
  case (Cons x xs)
  obtain l1 w1 where 1: "append_Logger os dest x l w = Some (l1, w1)" "rolling_ok l1" "out w1 = out w @ x"
    using append_unlocked_correct [OF assms(1) Cons.prems, of dest x w] unfolding append_Logger_eq by blast
  then show ?case
    using Cons.IH [OF 1(2), of w1] by auto
qed simp

lemma logger_writes_all_witness:
  "\<exists>l' w'. append_lines tick_os ''./'' [''hello '', ''world''] demo_logger (200, []) = Some (l', w') \<and> snd w' = ''hello world''"
  using logger_writes_all [OF tick_os_ok demo_logger_ok, of "''./''" "[''hello '', ''world'']" "(200, [])"] by auto

text \<open>
  Rotation by size: once a line takes the file over a positive roll size, the logger goes on
  with a new, empty file, unless the clock still shows the second of the last roll.  In that case
  nothing is rolled and the file goes on growing.
\<close>

theorem logger_rolls_by_size:
  assumes ok: "os_ok os out" and f: "logFile l = Some f" and size: "0 < rollSize l" "rollSize l < writtenBytes f + length line"
    and a: "append_LogFile os line f w = (f', w1)" and n: "os_now os w1 = (now, w2)"
  shows "\<exists>l' w'. append_Logger os dest line l w = Some (l', w')
    \<and> (if lastRoll l < now
       then logFile l' = Some \<lparr>lf_path = log_filename os dest now l, writtenBytes = 0\<rparr> \<and> lastRoll l' = now
       else l' = l\<lparr>logFile := Some f'\<rparr> \<and> writtenBytes f' = writtenBytes f + length line)"
proof -
  let ?l1 = "l\<lparr>logFile := Some f'\<rparr>"
  have w: "writtenBytes f' = writtenBytes f + length line"
    using append_LogFile_out(2) [OF ok a] .
  have name: "log_filename os dest now ?l1 = log_filename os dest now l"
    by (simp add: log_filename_def)
  obtain l' w' t where r: "rollFile os dest ?l1 w1 = Some (l', w')" "fst (os_now os w1) = t" "lastRoll l' = max (lastRoll ?l1) t"
    "lastRoll ?l1 < t \<Longrightarrow> logFile l' = Some \<lparr>lf_path = log_filename os dest t ?l1, writtenBytes = 0\<rparr>
       \<and> startOfPeriod l' = period_of t \<and> lastFlush l' = t"
    "t \<le> lastRoll ?l1 \<Longrightarrow> l' = ?l1"
    using rollFile_correct [OF ok, of dest ?l1 w1] by metis
  have "append_Logger os dest line l w = Some (l', w')"
    using f a w size r(1) by (simp add: append_Logger_def append_unlocked_def Let_def)
  moreover have "t = now" using r(2) n by simp
  ultimately show ?thesis
    using r(3-5) w name by (intro exI [of _ l'] exI [of _ w']) simp
qed

lemma logger_rolls_by_size_witness:
  "\<exists>l' w'. append_Logger tick_os ''./'' ''0123456789'' demo_logger (200, []) = Some (l', w') \<and> lastRoll l' = 200"
proof -
  have a: "append_LogFile tick_os ''0123456789'' \<lparr>lf_path = ''app.log'', writtenBytes = 0\<rparr> (200, [])
      = (\<lparr>lf_path = ''app.log'', writtenBytes = 10\<rparr>, (200, ''0123456789''))"
    by (simp add: append_LogFile_def write_loop.simps tick_os_def)
  have n: "os_now tick_os (200, ''0123456789'') = (200, (201, ''0123456789''))"
    by (simp add: tick_os_def)
  have f: "logFile demo_logger = Some \<lparr>lf_path = ''app.log'', writtenBytes = 0\<rparr>" "lastRoll demo_logger < 200"
    by (simp_all add: demo_logger_def)
  have "0 < rollSize demo_logger" "rollSize demo_logger < writtenBytes \<lparr>lf_path = ''app.log'', writtenBytes = 0\<rparr> + length ''0123456789''"
    by (simp_all add: demo_logger_def)
  from logger_rolls_by_size [OF tick_os_ok f(1) this a n] f(2) show ?thesis
    by (metis (no_types))
qed

end
