(* ===== verification/AsyncLogger.thy ===== *)
theory AsyncLogger
  imports LogFile
begin

section \<open>The buffered logger (log/AsyncLogger.h, log/AsyncLogger.cpp)\<close>

text \<open>
  \<open>AsyncLogger\<close> collects lines in large buffers that a background thread writes.  A \<open>shared_ptr\<close>
  to a buffer is an option, and the buffer it points to its content: every assignment of the code
  moves a buffer to one place and clears, or pops, the place it came from, so no two pointers
  share a buffer when an operation has ended.  The operations with \<open>_locked\<close> run under the mutex
  of \<open>AsyncLogging\<close>; the others only in its thread.
\<close>

subsection \<open>Buffers\<close>

definition async_kBufferSize :: nat where
  "async_kBufferSize = 4096 * 1024"

type_synonym abuffer = bytes

definition buf_avail :: "abuffer \<Rightarrow> nat" where
  "buf_avail b = async_kBufferSize - length b"

definition buf_append :: "bytes \<Rightarrow> abuffer \<Rightarrow> abuffer" where
  "buf_append x b = (if buf_avail b > length x then b @ x else b)"

subsection \<open>The logger\<close>

record alogger = rolling +
  notEmpty :: bool
  currentBuffer :: "abuffer option"
  nextBuffer :: "abuffer option"
  buffers :: "abuffer list"
  buffersToWrite :: "abuffer list"
  buffer1 :: "abuffer option"
  buffer2 :: "abuffer option"

text \<open>The class repeats the code of \<open>Logger::rollFile\<close>.\<close>

definition async_rollFile :: "'w os \<Rightarrow> string \<Rightarrow> alogger \<Rightarrow> 'w \<Rightarrow> (alogger \<times> 'w) option" where
  [simp]: "async_rollFile os dest l w = rollFile os dest l w"

definition new_alogger ::
  "'w os \<Rightarrow> string \<Rightarrow> string \<Rightarrow> nat \<Rightarrow> bool \<Rightarrow> bool \<Rightarrow> 'w \<Rightarrow> (alogger \<times> 'w) option" where
  "new_alogger os dest base sz host pid w =
     (if CHR ''/'' \<in> set base then None
      else async_rollFile os dest
        \<lparr>basename = base, rollSize = sz, hostNameInLogFileName = host, pidInLogFileName = pid,
         log_count = 0, startOfPeriod = 0, lastRoll = 0, lastFlush = 0, logFile = None,
         notEmpty = False, currentBuffer = Some [], nextBuffer = Some [], buffers = [],
         buffersToWrite = [], buffer1 = Some [], buffer2 = Some []\<rparr> w)"

definition appendToBuffer_locked :: "bytes \<Rightarrow> alogger \<Rightarrow> alogger option" where
  "appendToBuffer_locked logline l = do {
     cur \<leftarrow> currentBuffer l;
     let l1 =
       (if buf_avail cur > length logline
        then l\<lparr>currentBuffer := Some (buf_append logline cur)\<rparr>
        else (let l' = l\<lparr>buffers := buffers l @ [cur]\<rparr>;
                  (cur', l'') = (case nextBuffer l of
                                   Some nb \<Rightarrow> (nb, l'\<lparr>nextBuffer := None\<rparr>)
                                 | None \<Rightarrow> ([], l'))
              in l''\<lparr>currentBuffer := Some (buf_append logline cur')\<rparr>));
     Some (if \<not> notEmpty l1 then l1\<lparr>notEmpty := True\<rparr> else l1) }"

definition swapBuffersToWrite_locked :: "alogger \<Rightarrow> alogger option" where
  "swapBuffersToWrite_locked l = do {
     cur \<leftarrow> currentBuffer l;
     let l1 = (if length cur > 0
               then l\<lparr>buffers := buffers l @ [cur], currentBuffer := buffer1 l, buffer1 := None\<rparr> else l);
     let l2 = (if nextBuffer l1 = None then l1\<lparr>nextBuffer := buffer2 l1, buffer2 := None\<rparr> else l1);
     let l3 = l2\<lparr>buffersToWrite := buffers l2, buffers := buffersToWrite l2\<rparr>;
     Some (if notEmpty l3 then l3\<lparr>notEmpty := False\<rparr> else l3) }"

definition async_append_unlocked ::
  "'w os \<Rightarrow> string \<Rightarrow> bytes \<Rightarrow> alogger \<Rightarrow> 'w \<Rightarrow> (alogger \<times> 'w) option" where
  "async_append_unlocked os dest logline l w =
     (case logFile l of None \<Rightarrow> None
      | Some f \<Rightarrow>
        (case append_LogFile os logline f w of (f', w1) \<Rightarrow>
          let l1 = l\<lparr>logFile := Some f'\<rparr> in
          if writtenBytes f' > rollSize l then async_rollFile os dest (l1\<lparr>log_count := 0\<rparr>) w1
          else if log_count l > kCheckTimeRoll then
            (case os_now os w1 of (now, w2) \<Rightarrow>
              let l2 = l1\<lparr>log_count := 0\<rparr> in
              if period_of now \<noteq> startOfPeriod l then async_rollFile os dest l2 w2 else Some (l2, w2))
          else Some (l1\<lparr>log_count := log_count l + 1\<rparr>, w1)))"

fun append_all :: "'w os \<Rightarrow> string \<Rightarrow> abuffer list \<Rightarrow> alogger \<Rightarrow> 'w \<Rightarrow> (alogger \<times> 'w) option" where
  "append_all os dest [] l w = Some (l, w)"
| "append_all os dest (b # bs) l w = do {
     (l', w') \<leftarrow> async_append_unlocked os dest b l w;
     append_all os dest bs l' w' }"

text \<open>\<open>back\<close> and \<open>pop_back\<close>: undefined on an empty vector.\<close>

definition take_back :: "alogger \<Rightarrow> alogger option" where
  "take_back l = (if buffersToWrite l = [] then None else Some (l\<lparr>buffersToWrite := butlast (buffersToWrite l)\<rparr>))"

definition appendBuffers_unlocked :: "'w os \<Rightarrow> string \<Rightarrow> alogger \<Rightarrow> 'w \<Rightarrow> (alogger \<times> 'w) option" where
  "appendBuffers_unlocked os dest l w = do {
     (l1, w1) \<leftarrow> append_all os dest (buffersToWrite l) l w;
     l2 \<leftarrow> (if buffer1 l1 = None then map_option (buffer1_update (\<lambda>_. Some [])) (take_back l1) else Some l1);
     l3 \<leftarrow> (if buffer2 l2 = None then map_option (buffer2_update (\<lambda>_. Some [])) (take_back l2) else Some l2);
     let l4 = l3\<lparr>buffersToWrite := []\<rparr>;
     f \<leftarrow> logFile l4;
     Some (l4, flush_LogFile os f w1) }"

subsection \<open>What is kept\<close>

text \<open>
  The bytes a logger holds, oldest first, and the two phases of its background writing: before
  the buffers are swapped, and between the swap and the end of the writing.
\<close>

definition pending :: "alogger \<Rightarrow> bytes" where
  "pending l = concat (buffersToWrite l) @ concat (buffers l) @ (case currentBuffer l of None \<Rightarrow> [] | Some b \<Rightarrow> b)"

definition front_ok :: "alogger \<Rightarrow> bool" where
  "front_ok l \<longleftrightarrow> rolling_ok l \<and> currentBuffer l \<noteq> None \<and> (nextBuffer l \<noteq> None \<longrightarrow> nextBuffer l = Some [])
     \<and> (nextBuffer l = None \<longrightarrow> buffers l \<noteq> [])
     \<and> (buffer1 l \<noteq> None \<longrightarrow> buffer1 l = Some []) \<and> (buffer2 l \<noteq> None \<longrightarrow> buffer2 l = Some [])
     \<and> (\<not> notEmpty l \<longrightarrow> buffers l = [] \<and> currentBuffer l = Some [])"

definition idle_ok :: "alogger \<Rightarrow> bool" where
  "idle_ok l \<longleftrightarrow> front_ok l \<and> buffersToWrite l = [] \<and> buffer1 l \<noteq> None \<and> buffer2 l \<noteq> None"

definition swapped_ok :: "alogger \<Rightarrow> bool" where
  "swapped_ok l \<longleftrightarrow> front_ok l
     \<and> (buffer1 l = None \<or> buffer2 l = None \<longrightarrow> buffersToWrite l \<noteq> [])
     \<and> (buffer1 l = None \<and> buffer2 l = None \<longrightarrow> 2 \<le> length (buffersToWrite l))"

lemma buf_append_empty: "length x < async_kBufferSize \<Longrightarrow> buf_append x [] = x"
  by (simp add: buf_append_def buf_avail_def)

lemma rolling_ok_more [simp]:
  "rolling_ok (l\<lparr>notEmpty := a\<rparr>) = rolling_ok l" "rolling_ok (l\<lparr>currentBuffer := b\<rparr>) = rolling_ok l"
  "rolling_ok (l\<lparr>nextBuffer := b\<rparr>) = rolling_ok l" "rolling_ok (l\<lparr>buffers := bs\<rparr>) = rolling_ok l"
  "rolling_ok (l\<lparr>buffersToWrite := bs\<rparr>) = rolling_ok l" "rolling_ok (l\<lparr>buffer1 := b\<rparr>) = rolling_ok l"
  "rolling_ok (l\<lparr>buffer2 := b\<rparr>) = rolling_ok l"
  by (simp_all add: rolling_ok_def)

lemma appendToBuffer_correct:
  assumes l: "front_ok l" and len: "length x < async_kBufferSize"
  shows "\<exists>l'. appendToBuffer_locked x l = Some l' \<and> front_ok l' \<and> pending l' = pending l @ x \<and> notEmpty l'
    \<and> buffersToWrite l' = buffersToWrite l \<and> buffer1 l' = buffer1 l \<and> buffer2 l' = buffer2 l"
proof -
  obtain cur where cur: "currentBuffer l = Some cur"
    using l by (auto simp: front_ok_def)
  show ?thesis
  proof (cases "buf_avail cur > length x")
    case True
    then show ?thesis
      using l cur by (auto simp: appendToBuffer_locked_def Let_def front_ok_def pending_def buf_append_def)
  next
    case False
    then show ?thesis
      using l cur buf_append_empty [OF len]
      by (cases "nextBuffer l") (auto simp: appendToBuffer_locked_def Let_def front_ok_def pending_def)
  qed
qed

lemma swap_correct:
  assumes l: "idle_ok l"
  shows "\<exists>l'. swapBuffersToWrite_locked l = Some l' \<and> swapped_ok l' \<and> pending l' = pending l \<and> \<not> notEmpty l'"
proof -
  obtain cur where cur: "currentBuffer l = Some cur"
    using l by (auto simp: idle_ok_def front_ok_def)
  have b: "buffer1 l = Some []" "buffer2 l = Some []" "buffersToWrite l = []" "rolling_ok l"
    "nextBuffer l = None \<or> nextBuffer l = Some []" "nextBuffer l = None \<Longrightarrow> buffers l \<noteq> []"
    using l by (auto simp: idle_ok_def front_ok_def)
  show ?thesis
    using cur b(1-4) b(5,6)
    by (cases "cur = []"; cases "nextBuffer l")
      (auto simp: swapBuffersToWrite_locked_def Let_def swapped_ok_def front_ok_def pending_def Suc_le_eq)
qed

lemma async_append_unlocked_correct:
  assumes ok: "os_ok os out" and l: "rolling_ok l"
  shows "\<exists>l' w'. async_append_unlocked os dest x l w = Some (l', w') \<and> rolling_ok l'
    \<and> out w' = out w @ x \<and> rolling.more l' = rolling.more l"
proof -
  obtain f where f: "logFile l = Some f"
    using l by (auto simp: rolling_ok_def)
  obtain f' w1 where a: "append_LogFile os x f w = (f', w1)"
    by (cases "append_LogFile os x f w")
  note o1 = append_LogFile_out [OF ok a]
  let ?l2 = "l\<lparr>logFile := Some f', log_count := 0\<rparr>"
  have l2: "rolling_ok ?l2" "rolling.more ?l2 = rolling.more l"
    using l by (simp_all add: rolling_ok_def)
  obtain now w2 where n: "os_now os w1 = (now, w2)"
    by (cases "os_now os w1")
  note o2 = os_okD(1) [OF ok n]
  consider (big) "writtenBytes f' > rollSize l"
    | (day) "\<not> writtenBytes f' > rollSize l" "log_count l > kCheckTimeRoll" "period_of now \<noteq> startOfPeriod l"
    | (same) "\<not> writtenBytes f' > rollSize l" "log_count l > kCheckTimeRoll" "period_of now = startOfPeriod l"
    | (count) "\<not> writtenBytes f' > rollSize l" "\<not> log_count l > kCheckTimeRoll"
    by blast
  then show ?thesis
  proof cases
    case big
    obtain l' w' where "rollFile os dest ?l2 w1 = Some (l', w')" "rolling_ok l'" "out w' = out w1"
      "rolling.more l' = rolling.more ?l2"
      using rolling_ok_roll [OF ok l2(1), of dest w1] by blast
    with big f a o1 l2(2) show ?thesis
      by (auto simp: async_append_unlocked_def Let_def)
  next
    case day
    obtain l' w' where "rollFile os dest ?l2 w2 = Some (l', w')" "rolling_ok l'" "out w' = out w2"
      "rolling.more l' = rolling.more ?l2"
      using rolling_ok_roll [OF ok l2(1), of dest w2] by blast
    with day f a n o1 o2 l2(2) show ?thesis
      by (auto simp: async_append_unlocked_def Let_def)
  next
    case same
    with l2 f a n o1 o2 show ?thesis
      by (auto simp: async_append_unlocked_def Let_def)
  next
    case count
    with l f a o1 show ?thesis
      by (auto simp: async_append_unlocked_def Let_def rolling_ok_def)
  qed
qed

lemma append_all_correct:
  assumes "os_ok os out" "rolling_ok l"
  shows "\<exists>l' w'. append_all os dest bs l w = Some (l', w') \<and> rolling_ok l'
    \<and> out w' = out w @ concat bs \<and> rolling.more l' = rolling.more l"
  using assms(2)
proof (induction bs arbitrary: l w)
  case (Cons b bs)
  obtain l1 w1 where 1: "async_append_unlocked os dest b l w = Some (l1, w1)" "rolling_ok l1" "out w1 = out w @ b"
    "rolling.more l1 = rolling.more l"
    using async_append_unlocked_correct [OF assms(1) Cons.prems, of dest b w] by blast
  then show ?case
    using Cons.IH [OF 1(2), of w1] by auto
qed simp

text \<open>The fields behind the shared ones, read through \<open>more\<close>.\<close>

lemma alogger_more:
  fixes l l' :: alogger
  assumes "rolling.more l' = rolling.more l"
  shows "notEmpty l' = notEmpty l" "currentBuffer l' = currentBuffer l" "nextBuffer l' = nextBuffer l"
    "buffers l' = buffers l" "buffersToWrite l' = buffersToWrite l" "buffer1 l' = buffer1 l" "buffer2 l' = buffer2 l"
  using assms by (cases l; cases l'; simp)+

lemma appendBuffers_correct:
  assumes ok: "os_ok os out" and l: "swapped_ok l"
  shows "\<exists>l' w'. appendBuffers_unlocked os dest l w = Some (l', w') \<and> idle_ok l'
    \<and> out w' @ pending l' = out w @ pending l \<and> notEmpty l' = notEmpty l"
proof -
  have "rolling_ok l"
    using l by (simp add: swapped_ok_def front_ok_def)
  then obtain l1 w1 where 1: "append_all os dest (buffersToWrite l) l w = Some (l1, w1)" "rolling_ok l1"
    "out w1 = out w @ concat (buffersToWrite l)" "rolling.more l1 = rolling.more l"
    using append_all_correct [OF ok] by blast
  note m = alogger_more [OF 1(4)]
  define l2 where "l2 = (if buffer1 l = None then l1\<lparr>buffersToWrite := butlast (buffersToWrite l), buffer1 := Some []\<rparr> else l1)"
  have s2: "(if buffer1 l1 = None then map_option (buffer1_update (\<lambda>_. Some [])) (take_back l1) else Some l1) = Some l2"
    using l m by (auto simp: l2_def take_back_def swapped_ok_def)
  have m2: "buffer2 l2 = buffer2 l" "buffer1 l2 \<noteq> None" "rolling_ok l2" "currentBuffer l2 = currentBuffer l"
    "buffers l2 = buffers l" "nextBuffer l2 = nextBuffer l" "notEmpty l2 = notEmpty l"
    "buffer1 l2 = Some [] \<or> buffer1 l2 = buffer1 l"
    "buffer2 l = None \<Longrightarrow> buffersToWrite l2 \<noteq> []"
    using m 1(2) l by (auto simp: l2_def swapped_ok_def neq_Nil_conv Suc_le_length_iff split: if_splits)
  define l3 where "l3 = (if buffer2 l2 = None then l2\<lparr>buffersToWrite := butlast (buffersToWrite l2), buffer2 := Some []\<rparr> else l2)"
  have s3: "(if buffer2 l2 = None then map_option (buffer2_update (\<lambda>_. Some [])) (take_back l2) else Some l2) = Some l3"
    using m2(1,9) by (auto simp: l3_def take_back_def)
  have m3: "buffer2 l3 \<noteq> None" "buffer1 l3 = buffer1 l2" "rolling_ok l3" "currentBuffer l3 = currentBuffer l"
    "buffers l3 = buffers l" "nextBuffer l3 = nextBuffer l" "notEmpty l3 = notEmpty l"
    "buffer2 l3 = Some [] \<or> buffer2 l3 = buffer2 l"
    using m2 by (auto simp: l3_def)
  let ?l4 = "l3\<lparr>buffersToWrite := []\<rparr>"
  obtain f where f: "logFile ?l4 = Some f"
    using m3(3) by (auto simp: rolling_ok_def)
  have "appendBuffers_unlocked os dest l w = Some (?l4, flush_LogFile os f w1)"
    using 1(1) s2 s3 f by (simp add: appendBuffers_unlocked_def Let_def)
  moreover have "idle_ok ?l4"
    using l m2 m3 by (auto simp: idle_ok_def swapped_ok_def front_ok_def)
  moreover have "out (flush_LogFile os f w1) @ pending ?l4 = out w @ pending l"
    using 1(3) m3(4,5) os_okD(4) [OF ok] by (simp add: pending_def flush_LogFile_def)
  ultimately show ?thesis
    using m3(7) by (intro exI [of _ ?l4]) auto
qed

subsection \<open>Interleavings\<close>

text \<open>
  The steps on one logger: any thread appends a line, at any time; the background thread swaps
  and then writes, in turn.
\<close>

datatype aop = Line bytes | Swap | Write

fun aop_step :: "'w os \<Rightarrow> string \<Rightarrow> aop \<Rightarrow> alogger \<times> 'w \<Rightarrow> (alogger \<times> 'w) option" where
  "aop_step os dest (Line x) (l, w) = map_option (\<lambda>l'. (l', w)) (appendToBuffer_locked x l)"
| "aop_step os dest Swap (l, w) = map_option (\<lambda>l'. (l', w)) (swapBuffersToWrite_locked l)"
| "aop_step os dest Write (l, w) = appendBuffers_unlocked os dest l w"

fun aop_run :: "'w os \<Rightarrow> string \<Rightarrow> aop list \<Rightarrow> alogger \<times> 'w \<Rightarrow> (alogger \<times> 'w) option" where
  "aop_run os dest [] s = Some s"
| "aop_run os dest (a # as) s = do { s' \<leftarrow> aop_step os dest a s; aop_run os dest as s' }"

fun in_turn :: "bool \<Rightarrow> aop list \<Rightarrow> bool" where
  "in_turn swapped [] = True"
| "in_turn swapped (Line x # as) = in_turn swapped as"
| "in_turn swapped (Swap # as) = (\<not> swapped \<and> in_turn True as)"
| "in_turn swapped (Write # as) = (swapped \<and> in_turn False as)"

fun aop_lines :: "aop list \<Rightarrow> bytes list" where
  "aop_lines [] = []"
| "aop_lines (Line x # as) = x # aop_lines as"
| "aop_lines (_ # as) = aop_lines as"

lemma front_swapped: "front_ok l' \<Longrightarrow> swapped_ok l \<Longrightarrow> buffersToWrite l' = buffersToWrite l
    \<Longrightarrow> buffer1 l' = buffer1 l \<Longrightarrow> buffer2 l' = buffer2 l \<Longrightarrow> swapped_ok l'"
  "front_ok l' \<Longrightarrow> idle_ok l \<Longrightarrow> buffersToWrite l' = buffersToWrite l
    \<Longrightarrow> buffer1 l' = buffer1 l \<Longrightarrow> buffer2 l' = buffer2 l \<Longrightarrow> idle_ok l'"
  by (simp_all add: swapped_ok_def idle_ok_def)

lemma aop_run_correct:
  assumes ok: "os_ok os out"
  shows "(if sw then swapped_ok l else idle_ok l) \<Longrightarrow> in_turn sw as
    \<Longrightarrow> list_all (\<lambda>x. length x < async_kBufferSize) (aop_lines as)
    \<Longrightarrow> \<exists>l' w'. aop_run os dest as (l, w) = Some (l', w') \<and> front_ok l'
        \<and> out w' @ pending l' = out w @ pending l @ concat (aop_lines as)"
proof (induction as arbitrary: sw l w)
  case Nil
  then show ?case by (auto simp: swapped_ok_def idle_ok_def split: if_splits)
next
  case (Cons a as)
  show ?case
  proof (cases a)
    case (Line x)
    have "front_ok l"
      using Cons.prems(1) by (auto simp: swapped_ok_def idle_ok_def split: if_splits)
    moreover have "length x < async_kBufferSize"
      using Cons.prems(3) Line by simp
    ultimately obtain l' where l': "appendToBuffer_locked x l = Some l'" "front_ok l'" "pending l' = pending l @ x"
      "buffersToWrite l' = buffersToWrite l" "buffer1 l' = buffer1 l" "buffer2 l' = buffer2 l"
      using appendToBuffer_correct by blast
    then have "if sw then swapped_ok l' else idle_ok l'"
      using Cons.prems(1) front_swapped [of l' l] by (cases sw) simp_all
    then show ?thesis
      using Cons.IH [of sw l' w] Cons.prems Line l' by auto
  next
    case Swap
    then have l: "idle_ok l" and sw: "\<not> sw"
      using Cons.prems(1,2) by auto
    obtain l' where "swapBuffersToWrite_locked l = Some l'" "swapped_ok l'" "pending l' = pending l"
      using swap_correct [OF l] by blast
    then show ?thesis
      using Cons.IH [of True l' w] Cons.prems Swap by auto
  next
    case Write
    then have l: "swapped_ok l" and sw: "sw"
      using Cons.prems(1,2) by auto
    obtain l' w' where w: "appendBuffers_unlocked os dest l w = Some (l', w')" "idle_ok l'"
      "out w' @ pending l' = out w @ pending l"
      using appendBuffers_correct [OF ok l, of dest w] by blast
    have "\<exists>l'' w''. aop_run os dest as (l', w') = Some (l'', w'') \<and> front_ok l''
        \<and> out w'' @ pending l'' = out w' @ pending l' @ concat (aop_lines as)"
      using Cons.IH [of False l' w'] Cons.prems Write w(2) by simp
    then show ?thesis
      using w(1) Write w(3) [THEN arg_cong, of "\<lambda>x. x @ concat (aop_lines as)"] by auto
  qed
qed

definition demo_alogger :: alogger where
  "demo_alogger = \<lparr>basename = ''app'', rollSize = 100, hostNameInLogFileName = False, pidInLogFileName = False,
     log_count = 0, startOfPeriod = 0, lastRoll = 100, lastFlush = 100,
     logFile = Some \<lparr>lf_path = ''app.log'', writtenBytes = 0\<rparr>, notEmpty = False, currentBuffer = Some [],
     nextBuffer = Some [], buffers = [], buffersToWrite = [], buffer1 = Some [], buffer2 = Some []\<rparr>"

lemma demo_alogger_ok: "idle_ok demo_alogger"
  by (simp add: idle_ok_def front_ok_def rolling_ok_def demo_alogger_def period_of_def kRollPerSeconds_def sdiv_nonneg)

subsection \<open>Property\<close>

text \<open>
  C11: in every interleaving of lines with the background thread's swaps and writes, no pointer is
  null and no vector empty where the code uses it, and nothing is lost, duplicated or reordered:
  what was written, followed by what the buffers hold, is every line in the order it was appended
  (each line shorter than a buffer).
\<close>

theorem async_logger_keeps_order:
  assumes "os_ok os out" "idle_ok l" "in_turn False as"
    and "list_all (\<lambda>x. length x < async_kBufferSize) (aop_lines as)"
  shows "\<exists>l' w'. aop_run os dest as (l, w) = Some (l', w')
    \<and> out w' @ pending l' = out w @ pending l @ concat (aop_lines as)"
  using aop_run_correct [OF assms(1), of False l as dest w] assms(2-4) by auto

lemma async_logger_keeps_order_witness:
  "\<exists>l' w'. aop_run tick_os ''./'' [Line ''one '', Swap, Line ''two '', Write, Swap, Write, Line ''three''] (demo_alogger, (200, []))
      = Some (l', w') \<and> snd w' @ pending l' = ''one two three''"
  using async_logger_keeps_order [OF tick_os_ok demo_alogger_ok,
    of "[Line ''one '', Swap, Line ''two '', Write, Swap, Write, Line ''three'']" "''./''" "(200, [])"]
  by (simp add: async_kBufferSize_def) (simp add: pending_def demo_alogger_def)

end
