(* ===== verification/AsyncLogging.thy ===== *)
theory AsyncLogging
  imports AsyncLogger
begin

section \<open>The background writer (log/AsyncLogging.h, log/AsyncLogging.cpp)\<close>

text \<open>
  \<open>AsyncLogging\<close> owns the thread that writes for all loggers, numbered here.  The threads of the
  program interleave at the mutex: an \<open>append\<close> and the swap are one step each, the writing of one
  logger another.  The thread's place is a program counter: before the test of \<open>running_\<close>, at
  \<open>swapAsyncLoggersToWrite\<close>, asleep in \<open>cv_.wait\<close> (and whether it was notified), writing the
  loggers of its local vector, or finished.  \<open>stop\<close> takes no lock: it is two steps, the store to
  \<open>running_\<close> and the notification.
\<close>

datatype place = AtCheck | AtEnter | Asleep bool | Writing "nat list" | Finished

record 'w logging =
  running :: bool
  place :: place
  asyncLoggers :: "nat list"
  logger_at :: "nat \<Rightarrow> alogger"
  world :: 'w

subsection \<open>Steps\<close>

definition start_logging :: "(nat \<Rightarrow> alogger) \<Rightarrow> 'w \<Rightarrow> 'w logging" where
  "start_logging ls w = \<lparr>running = True, place = AtCheck, asyncLoggers = [], logger_at = ls, world = w\<rparr>"

definition notify_one :: "'w logging \<Rightarrow> 'w logging" where
  "notify_one s = (case place s of Asleep _ \<Rightarrow> s\<lparr>place := Asleep True\<rparr> | _ \<Rightarrow> s)"

definition append_logging :: "nat \<Rightarrow> bytes \<Rightarrow> 'w logging \<Rightarrow> 'w logging option" where
  "append_logging i logline s = do {
     let isNotEmpty = notEmpty (logger_at s i);
     l \<leftarrow> appendToBuffer_locked logline (logger_at s i);
     let s1 = s\<lparr>logger_at := (logger_at s)(i := l)\<rparr>;
     Some (if \<not> isNotEmpty then notify_one (s1\<lparr>asyncLoggers := asyncLoggers s1 @ [i]\<rparr>) else s1) }"

fun swap_loggers :: "nat list \<Rightarrow> (nat \<Rightarrow> alogger) \<Rightarrow> (nat \<Rightarrow> alogger) option" where
  "swap_loggers [] ls = Some ls"
| "swap_loggers (i # js) ls = do { l \<leftarrow> swapBuffersToWrite_locked (ls i); swap_loggers js (ls(i := l)) }"

text \<open>The part of \<open>swapAsyncLoggersToWrite\<close> behind the wait.\<close>

definition swap_all :: "'w logging \<Rightarrow> 'w logging option" where
  "swap_all s = do {
     ls \<leftarrow> swap_loggers (asyncLoggers s) (logger_at s);
     Some (s\<lparr>logger_at := ls, place := Writing (asyncLoggers s), asyncLoggers := []\<rparr>) }"

definition threadFunc_step :: "'w os \<Rightarrow> string \<Rightarrow> 'w logging \<Rightarrow> 'w logging option" where
  "threadFunc_step os dest s =
     (case place s of
        AtCheck \<Rightarrow> Some (s\<lparr>place := (if running s then AtEnter else Finished)\<rparr>)
      | AtEnter \<Rightarrow> if asyncLoggers s = [] then Some (s\<lparr>place := Asleep False\<rparr>) else swap_all s
      | Asleep woken \<Rightarrow> swap_all s
      | Writing [] \<Rightarrow> Some (s\<lparr>place := AtCheck\<rparr>)
      | Writing (i # js) \<Rightarrow> do {
          (l, w) \<leftarrow> appendBuffers_unlocked os dest (logger_at s i) (world s);
          Some (s\<lparr>logger_at := (logger_at s)(i := l), world := w, place := Writing js\<rparr>) }
      | Finished \<Rightarrow> Some s)"

text \<open>A thread in \<open>wait\<close> goes on when it is notified, or spuriously.\<close>

definition can_run :: "'w logging \<Rightarrow> bool" where
  "can_run s \<longleftrightarrow> place s \<noteq> Asleep False \<and> place s \<noteq> Finished"

inductive logging_step :: "'w os \<Rightarrow> string \<Rightarrow> 'w logging \<Rightarrow> 'w logging \<Rightarrow> bool" for os dest where
  append: "length x < async_kBufferSize \<Longrightarrow> append_logging i x s = Some s' \<Longrightarrow> logging_step os dest s s'"
| thread: "can_run s \<Longrightarrow> threadFunc_step os dest s = Some s' \<Longrightarrow> logging_step os dest s s'"
| spurious: "place s = Asleep False \<Longrightarrow> logging_step os dest s (s\<lparr>place := Asleep True\<rparr>)"
| stop_store: "logging_step os dest s (s\<lparr>running := False\<rparr>)"
| stop_notify: "logging_step os dest s (notify_one s)"

inductive logging_reaches :: "'w os \<Rightarrow> string \<Rightarrow> 'w logging \<Rightarrow> 'w logging \<Rightarrow> bool" for os dest where
  here: "logging_reaches os dest s s"
| further: "logging_reaches os dest s t \<Longrightarrow> logging_step os dest t u \<Longrightarrow> logging_reaches os dest s u"

subsection \<open>The invariant\<close>

definition write_list :: "'w logging \<Rightarrow> nat list" where
  "write_list s = (case place s of Writing js \<Rightarrow> js | _ \<Rightarrow> [])"

definition logging_ok :: "'w logging \<Rightarrow> bool" where
  "logging_ok s \<longleftrightarrow> distinct (asyncLoggers s) \<and> distinct (write_list s)
     \<and> (\<forall>i. i \<in> set (asyncLoggers s) \<longleftrightarrow> notEmpty (logger_at s i))
     \<and> (\<forall>i. if i \<in> set (write_list s) then swapped_ok (logger_at s i) else idle_ok (logger_at s i))"

lemma logging_okD:
  assumes "logging_ok s"
  shows "distinct (asyncLoggers s)" "distinct (write_list s)" "i \<in> set (asyncLoggers s) \<longleftrightarrow> notEmpty (logger_at s i)"
    "i \<in> set (write_list s) \<Longrightarrow> swapped_ok (logger_at s i)" "i \<notin> set (write_list s) \<Longrightarrow> idle_ok (logger_at s i)"
    "front_ok (logger_at s i)"
proof -
  have ph: "if i \<in> set (write_list s) then swapped_ok (logger_at s i) else idle_ok (logger_at s i)"
    using assms by (simp add: logging_ok_def)
  then show "front_ok (logger_at s i)"
    by (auto simp: swapped_ok_def idle_ok_def split: if_splits)
  show "i \<in> set (write_list s) \<Longrightarrow> swapped_ok (logger_at s i)" "i \<notin> set (write_list s) \<Longrightarrow> idle_ok (logger_at s i)"
    using ph by simp_all
qed (use assms in \<open>simp_all add: logging_ok_def\<close>)

lemma start_ok:
  assumes "\<And>i. idle_ok (ls i) \<and> \<not> notEmpty (ls i)"
  shows "logging_ok (start_logging ls w)"
  using assms by (simp add: logging_ok_def start_logging_def write_list_def)

lemma notify_one_simps [simp]:
  "write_list (notify_one s) = write_list s" "asyncLoggers (notify_one s) = asyncLoggers s"
  "logger_at (notify_one s) = logger_at s" "logging_ok (notify_one s) = logging_ok s"
  by (auto simp: notify_one_def write_list_def logging_ok_def split: place.splits)

lemma append_logging_ok:
  assumes ok: "logging_ok s" and len: "length x < async_kBufferSize"
  shows "\<exists>s'. append_logging i x s = Some s' \<and> logging_ok s'"
proof -
  let ?l = "logger_at s i"
  obtain l where l: "appendToBuffer_locked x ?l = Some l" "front_ok l" "notEmpty l"
    "buffersToWrite l = buffersToWrite ?l" "buffer1 l = buffer1 ?l" "buffer2 l = buffer2 ?l"
    using appendToBuffer_correct [OF logging_okD(6) [OF ok] len] by blast
  have phase: "\<forall>j. if j \<in> set (write_list s) then swapped_ok (((logger_at s)(i := l)) j) else idle_ok (((logger_at s)(i := l)) j)"
    using logging_okD(4,5) [OF ok] l front_swapped [of l ?l] by simp
  have ne: "i \<notin> set (asyncLoggers s) \<longleftrightarrow> \<not> notEmpty ?l"
    using logging_okD(3) [OF ok] by simp
  let ?s1 = "s\<lparr>logger_at := (logger_at s)(i := l)\<rparr>"
  have w: "write_list ?s1 = write_list s" "write_list (?s1\<lparr>asyncLoggers := js\<rparr>) = write_list s" for js
    by (simp_all add: write_list_def)
  have mem: "\<forall>j. j \<in> set (if \<not> notEmpty ?l then asyncLoggers s @ [i] else asyncLoggers s)
      \<longleftrightarrow> notEmpty (((logger_at s)(i := l)) j)"
    using logging_okD(3) [OF ok] l(3) by auto
  have "distinct (if \<not> notEmpty ?l then asyncLoggers s @ [i] else asyncLoggers s)"
    using ok ne by (simp add: logging_ok_def)
  with mem phase have "logging_ok (if \<not> notEmpty ?l then notify_one (?s1\<lparr>asyncLoggers := asyncLoggers ?s1 @ [i]\<rparr>) else ?s1)"
    using logging_okD(2) [OF ok] unfolding logging_ok_def [of "?s1"] by (auto simp: logging_ok_def w simp del: fun_upd_apply)
  then show ?thesis
    using l(1) by (auto simp: append_logging_def Let_def)
qed

lemma append_logging_adds:
  assumes ok: "logging_ok s" and len: "length x < async_kBufferSize" and a: "append_logging i x s = Some s'"
  shows "pending (logger_at s' i) = pending (logger_at s i) @ x" "world s' = world s"
proof -
  obtain l where "appendToBuffer_locked x (logger_at s i) = Some l" "pending l = pending (logger_at s i) @ x"
    using appendToBuffer_correct [OF logging_okD(6) [OF ok] len] by blast
  with a show "pending (logger_at s' i) = pending (logger_at s i) @ x" "world s' = world s"
    by (auto simp: append_logging_def Let_def notify_one_def split: if_splits place.splits)
qed

lemma swap_loggers_correct:
  assumes "distinct js" "\<And>i. i \<in> set js \<Longrightarrow> idle_ok (ls i)"
  shows "\<exists>ls'. swap_loggers js ls = Some ls' \<and> (\<forall>i\<in>set js. swapped_ok (ls' i) \<and> \<not> notEmpty (ls' i))
    \<and> (\<forall>i. i \<notin> set js \<longrightarrow> ls' i = ls i)"
  using assms
proof (induction js arbitrary: ls)
  case (Cons i js)
  obtain l where l: "swapBuffersToWrite_locked (ls i) = Some l" "swapped_ok l" "\<not> notEmpty l"
    using swap_correct [of "ls i"] Cons.prems(2) by auto
  have "\<And>j. j \<in> set js \<Longrightarrow> idle_ok ((ls(i := l)) j)"
    using Cons.prems by auto
  then obtain ls' where ls': "swap_loggers js (ls(i := l)) = Some ls'"
    "\<forall>j\<in>set js. swapped_ok (ls' j) \<and> \<not> notEmpty (ls' j)" "\<forall>j. j \<notin> set js \<longrightarrow> ls' j = (ls(i := l)) j"
    using Cons.IH [of "ls(i := l)"] Cons.prems(1) by (meson distinct.simps(2))
  then show ?case
    using l Cons.prems(1) by auto
qed simp

lemma swap_all_ok:
  assumes ok: "logging_ok s" and w: "write_list s = []"
  shows "\<exists>s'. swap_all s = Some s' \<and> logging_ok s'"
proof -
  have idle: "idle_ok (logger_at s i)" for i
    using logging_okD(5) [OF ok] w by simp
  obtain ls where ls: "swap_loggers (asyncLoggers s) (logger_at s) = Some ls"
    "\<forall>i\<in>set (asyncLoggers s). swapped_ok (ls i) \<and> \<not> notEmpty (ls i)"
    "\<forall>i. i \<notin> set (asyncLoggers s) \<longrightarrow> ls i = logger_at s i"
    using swap_loggers_correct [OF logging_okD(1) [OF ok], of "logger_at s"] idle by blast
  let ?s = "s\<lparr>logger_at := ls, place := Writing (asyncLoggers s), asyncLoggers := []\<rparr>"
  have "logging_ok ?s"
    unfolding logging_ok_def
  proof (intro conjI allI)
    show "(i \<in> set (asyncLoggers ?s)) = notEmpty (logger_at ?s i)" for i
      using ls(2,3) logging_okD(3) [OF ok, of i] by (cases "i \<in> set (asyncLoggers s)") auto
    show "if i \<in> set (write_list ?s) then swapped_ok (logger_at ?s i) else idle_ok (logger_at ?s i)" for i
      using ls(2,3) idle by (simp add: write_list_def)
  qed (use logging_okD(1) [OF ok] in \<open>simp_all add: write_list_def\<close>)
  then show ?thesis
    using ls(1) by (simp add: swap_all_def)
qed

lemma threadFunc_step_ok:
  assumes os: "os_ok os out" and ok: "logging_ok s"
  shows "\<exists>s'. threadFunc_step os dest s = Some s' \<and> logging_ok s'"
proof (cases "place s")
  case (Writing js)
  show ?thesis
  proof (cases js)
    case (Cons i is')
    have "swapped_ok (logger_at s i)"
      using logging_okD(4) [OF ok] Writing Cons by (simp add: write_list_def)
    then obtain l w where l: "appendBuffers_unlocked os dest (logger_at s i) (world s) = Some (l, w)" "idle_ok l"
      "notEmpty l = notEmpty (logger_at s i)"
      using appendBuffers_correct [OF os] by blast
    then show ?thesis
      using ok Writing Cons by (auto simp: threadFunc_step_def logging_ok_def write_list_def)
  qed (use ok Writing in \<open>auto simp: threadFunc_step_def logging_ok_def write_list_def\<close>)
qed (use ok swap_all_ok [OF ok] in \<open>auto simp: threadFunc_step_def logging_ok_def write_list_def\<close>)

lemma logging_step_ok:
  "logging_step os dest s s' \<Longrightarrow> os_ok os out \<Longrightarrow> logging_ok s \<Longrightarrow> logging_ok s'"
proof (induction rule: logging_step.induct)
  case (append x i s s')
  then show ?case using append_logging_ok [of s x i] by auto
next
  case (thread s s')
  then show ?case using threadFunc_step_ok [of os out s dest] by auto
next
  case (stop_notify s)
  then show ?case by simp
qed (simp_all add: logging_ok_def write_list_def)

lemma logging_reaches_ok:
  "logging_reaches os dest s t \<Longrightarrow> os_ok os out \<Longrightarrow> logging_ok s \<Longrightarrow> logging_ok t"
  by (induction rule: logging_reaches.induct) (auto dest: logging_step_ok)

subsection \<open>Properties\<close>

text \<open>
  C19: whatever the interleaving of appends, stop and the writing thread, the thread never
  dereferences a null buffer pointer nor takes the back of an empty vector, a logger waits in
  \<open>asyncLoggers_\<close> (once) exactly when its \<open>notEmpty_\<close> flag is set, and a logger that is neither
  there nor being written holds no bytes.
\<close>

theorem async_logging_safe:
  assumes os: "os_ok os out" and ls: "\<And>i. idle_ok (ls i) \<and> \<not> notEmpty (ls i)"
    and r: "logging_reaches os dest (start_logging ls w) s"
  shows "(\<exists>s'. threadFunc_step os dest s = Some s') \<and> distinct (asyncLoggers s)
    \<and> (i \<in> set (asyncLoggers s) \<longleftrightarrow> notEmpty (logger_at s i))
    \<and> (i \<notin> set (asyncLoggers s) \<and> i \<notin> set (write_list s) \<longrightarrow> pending (logger_at s i) = [])"
proof -
  have ok: "logging_ok s"
    using logging_reaches_ok [OF r os] start_ok [of ls w] ls by blast
  have "pending (logger_at s i) = []" if "i \<notin> set (asyncLoggers s)" "i \<notin> set (write_list s)"
    using logging_okD(3,5) [OF ok, of i] that by (auto simp: idle_ok_def front_ok_def pending_def)
  then show ?thesis
    using threadFunc_step_ok [OF os ok, of dest] logging_okD(1,3) [OF ok] by auto
qed

lemma demo_start: "idle_ok demo_alogger \<and> \<not> notEmpty demo_alogger"
  using demo_alogger_ok by (simp add: demo_alogger_def)

lemma async_logging_safe_witness:
  "logging_reaches tick_os ''./'' (start_logging (\<lambda>_. demo_alogger) (200, [])) (start_logging (\<lambda>_. demo_alogger) (200, []))
   \<and> (\<exists>s'. threadFunc_step tick_os ''./'' (start_logging (\<lambda>_. demo_alogger) (200, [])) = Some s')"
  using async_logging_safe [OF tick_os_ok demo_start logging_reaches.here] logging_reaches.here by blast

text \<open>Steps without the events that can wake the thread.\<close>

inductive undisturbed :: "'w os \<Rightarrow> string \<Rightarrow> 'w logging \<Rightarrow> 'w logging \<Rightarrow> bool" for os dest where
  here: "undisturbed os dest s s"
| further: "undisturbed os dest s t \<Longrightarrow> logging_step os dest t u
    \<Longrightarrow> \<not> (\<exists>i x. append_logging i x t = Some u) \<Longrightarrow> u \<noteq> t\<lparr>place := Asleep True\<rparr> \<Longrightarrow> undisturbed os dest s u"

lemma stuck_step:
  assumes "logging_step os dest s s'" "place s = Asleep False" "\<not> running s"
  shows "s' = s \<or> (\<exists>i x. append_logging i x s = Some s') \<or> s' = s\<lparr>place := Asleep True\<rparr>"
  using assms
proof (cases rule: logging_step.cases)
  case stop_store
  then show ?thesis
    using assms(3) by (cases s) simp
qed (use assms in \<open>auto simp: can_run_def notify_one_def\<close>)

lemma undisturbed_stuck:
  "undisturbed os dest s t \<Longrightarrow> place s = Asleep False \<Longrightarrow> \<not> running s \<Longrightarrow> t = s"
proof (induction rule: undisturbed.induct)
  case (further s t u)
  then show ?case
    using stuck_step [of os dest t u] by auto
qed simp

text \<open>
  C40: \<open>stop\<close> can hang.  It stores the flag and notifies without the mutex; when both fall between
  the thread's test of \<open>running_\<close> and its wait, the notification is lost.  The thread then sleeps with
  \<open>running_\<close> false, while \<open>stop\<close>, which has notified and will not again, is in \<open>join\<close>: from that state on,
  the only steps that change anything are a log line that somebody still appends, another call of
  \<open>notify_one\<close>, and a spurious wake-up.  Without these the thread stays asleep for ever, and \<open>join\<close>
  does not return.
\<close>

theorem stop_can_hang:
  "\<exists>s1 s2 s. logging_reaches os dest (start_logging ls w) s1 \<and> running s1
    \<and> logging_step os dest s1 s2 \<and> s2 = s1\<lparr>running := False\<rparr>
    \<and> logging_reaches os dest (notify_one s2) s
    \<and> \<not> running s \<and> place s = Asleep False \<and> \<not> can_run s
    \<and> (\<forall>s'. logging_step os dest s s' \<longrightarrow>
         s' = s \<or> (\<exists>i x. append_logging i x s = Some s') \<or> s' = s\<lparr>place := Asleep True\<rparr>)
    \<and> (\<forall>t. undisturbed os dest s t \<longrightarrow> place t \<noteq> Finished)"
proof -
  let ?st0 = "start_logging ls w"
  let ?st1 = "?st0\<lparr>place := AtEnter\<rparr>"
  let ?st2 = "?st1\<lparr>running := False\<rparr>"
  let ?fin = "?st2\<lparr>place := Asleep False\<rparr>"
  have "logging_step os dest ?st0 ?st1"
    by (rule logging_step.thread) (simp_all add: can_run_def threadFunc_step_def start_logging_def)
  then have 1: "logging_reaches os dest ?st0 ?st1"
    by (rule logging_reaches.further [OF logging_reaches.here])
  have 2: "logging_step os dest ?st1 ?st2"
    by (rule logging_step.stop_store)
  have n: "notify_one ?st2 = ?st2"
    by (simp add: notify_one_def start_logging_def)
  have "logging_step os dest ?st2 ?fin"
    by (rule logging_step.thread) (simp_all add: can_run_def threadFunc_step_def start_logging_def)
  then have "logging_reaches os dest (notify_one ?st2) ?fin"
    unfolding n by (rule logging_reaches.further [OF logging_reaches.here])
  moreover have fin: "place ?fin = Asleep False" "\<not> running ?fin"
    by simp_all
  moreover have "place t \<noteq> Finished" if "undisturbed os dest ?fin t" for t
    using undisturbed_stuck [OF that fin] by simp
  moreover have "s' = ?fin \<or> (\<exists>i x. append_logging i x ?fin = Some s') \<or> s' = ?fin\<lparr>place := Asleep True\<rparr>"
    if "logging_step os dest ?fin s'" for s'
    by (rule stuck_step [OF that fin])
  moreover have "running ?st1" "\<not> can_run ?fin"
    by (simp_all add: start_logging_def can_run_def)
  ultimately show ?thesis
    using 1 2 by blast
qed

lemma stop_can_hang_witness:
  "\<exists>s1 s2 s. logging_reaches tick_os ''./'' (start_logging (\<lambda>_. demo_alogger) (200, [])) s1 \<and> running s1
    \<and> logging_step tick_os ''./'' s1 s2 \<and> logging_reaches tick_os ''./'' (notify_one s2) s
    \<and> \<not> running s \<and> place s = Asleep False \<and> \<not> can_run s"
  using stop_can_hang [of tick_os "''./''" "\<lambda>_. demo_alogger" "(200, [])"] by blast

text \<open>
  C26: \<open>stop\<close> can lose lines: one that is appended before \<open>stop\<close>, while the thread writes an earlier
  one, is still in the logger's buffer, and the logger in the list of those to serve, when the thread
  finds \<open>running_\<close> false and ends, having written nothing more.
\<close>

theorem stop_can_lose_lines:
  assumes os: "os_ok os out" and idle: "idle_ok (ls i)" "\<not> notEmpty (ls i)"
    and x: "length x < async_kBufferSize" "x \<noteq> []"
  shows "\<exists>s. logging_reaches os dest (start_logging ls w) s \<and> running s
    \<and> pending (logger_at s i) = x \<and> i \<in> set (asyncLoggers s)
    \<and> logging_step os dest s (s\<lparr>running := False\<rparr>)
    \<and> logging_reaches os dest (notify_one (s\<lparr>running := False\<rparr>)) (s\<lparr>running := False, place := Finished\<rparr>)"
proof -
  let ?st0 = "start_logging ls w"
  obtain l1 where l1: "appendToBuffer_locked x (ls i) = Some l1" "front_ok l1" "notEmpty l1" "pending l1 = pending (ls i) @ x"
    "buffersToWrite l1 = buffersToWrite (ls i)" "buffer1 l1 = buffer1 (ls i)" "buffer2 l1 = buffer2 (ls i)"
    using appendToBuffer_correct [OF _ x(1), of "ls i"] idle(1) by (auto simp: idle_ok_def)
  have "idle_ok l1"
    using front_swapped(2) [OF l1(2) idle(1) l1(5-7)] .
  then obtain l2 where l2: "swapBuffersToWrite_locked l1 = Some l2" "swapped_ok l2" "\<not> notEmpty l2"
    using swap_correct by blast
  obtain l3 w3 where l3: "appendBuffers_unlocked os dest l2 w = Some (l3, w3)" "idle_ok l3" "\<not> notEmpty l3"
    using appendBuffers_correct [OF os l2(2), of dest w] l2(3) by auto
  have e3: "pending l3 = []"
    using l3(2,3) by (auto simp: idle_ok_def front_ok_def pending_def)
  obtain l4 where l4: "appendToBuffer_locked x l3 = Some l4" "pending l4 = x" "notEmpty l4"
    using appendToBuffer_correct [OF _ x(1), of l3] l3(2) e3 by (auto simp: idle_ok_def)
  let ?st1 = "?st0\<lparr>logger_at := ls(i := l1), asyncLoggers := [i]\<rparr>"
  let ?st2 = "?st1\<lparr>place := AtEnter\<rparr>"
  let ?st3 = "?st2\<lparr>logger_at := ls(i := l2), place := Writing [i], asyncLoggers := []\<rparr>"
  let ?st4 = "?st3\<lparr>logger_at := ls(i := l3), world := w3, place := Writing []\<rparr>"
  let ?st5 = "?st4\<lparr>logger_at := ls(i := l4), asyncLoggers := [i]\<rparr>"
  let ?st6 = "?st5\<lparr>running := False\<rparr>"
  let ?st7 = "?st6\<lparr>place := AtCheck\<rparr>"
  let ?st8 = "?st7\<lparr>place := Finished\<rparr>"
  note defs = start_logging_def threadFunc_step_def swap_all_def can_run_def append_logging_def notify_one_def
  have "logging_step os dest ?st0 ?st1"
    using l1 idle(2) by (intro logging_step.append [OF x(1), of i]) (simp add: defs)
  moreover have "logging_step os dest ?st1 ?st2"
    by (rule logging_step.thread) (simp_all add: defs)
  moreover have "logging_step os dest ?st2 ?st3"
    using l2(1) by (intro logging_step.thread) (simp_all add: defs)
  moreover have "logging_step os dest ?st3 ?st4"
    using l3(1) by (intro logging_step.thread) (simp_all add: defs)
  moreover have "logging_step os dest ?st4 ?st5"
    using l4(1) l3(3) by (intro logging_step.append [OF x(1), of i]) (simp add: defs)
  ultimately have "logging_reaches os dest ?st0 ?st5"
    by (meson logging_reaches.intros)
  moreover have "logging_step os dest ?st5 ?st6"
    by (rule logging_step.stop_store)
  moreover have "logging_step os dest ?st6 ?st7"
    by (rule logging_step.thread) (simp_all add: defs)
  moreover have "logging_step os dest ?st7 ?st8"
    by (rule logging_step.thread) (simp_all add: defs)
  moreover from calculation(3,4) have "logging_reaches os dest (notify_one ?st6) ?st8"
    by (simp add: notify_one_def) (meson logging_reaches.intros)
  ultimately show ?thesis
    using l4(2) by (intro exI [of _ ?st5]) (simp add: start_logging_def)
qed

lemma stop_can_lose_lines_witness:
  "\<exists>s. logging_reaches tick_os ''./'' (start_logging (\<lambda>_. demo_alogger) (200, [])) s \<and> running s
    \<and> pending (logger_at s 0) = ''last words''
    \<and> logging_reaches tick_os ''./'' (notify_one (s\<lparr>running := False\<rparr>)) (s\<lparr>running := False, place := Finished\<rparr>)"
  using stop_can_lose_lines [OF tick_os_ok, of "\<lambda>_. demo_alogger" 0 "''last words''" "''./''" "(200, [])"] demo_start
  by (auto simp: async_kBufferSize_def)

end
