(* ===== verification/MinHeap.thy ===== *)
theory MinHeap
  imports Prelude
begin

section \<open>The binary heap (util/MinHeap.h)\<close>

text \<open>
  The template \<open>MinHeap<T, Compare>\<close>: a vector \<open>heap_\<close> and a comparison \<open>comp_\<close>, which
  is the first argument of every operation here.  Indices are \<open>size_t\<close>; the only index
  expression that wraps, \<open>(index - 1) / 2\<close> at \<open>index = 0\<close>, is computed but never used to
  access the vector, so natural numbers with the loop's own guard model it.  \<open>remove\<close> and
  \<open>min\<close> on an empty heap call \<open>front\<close> of an empty vector, which is undefined: \<open>None\<close>.
\<close>

subsection \<open>The operations\<close>

type_synonym 'a heap = "'a list"

definition swap_at :: "nat \<Rightarrow> nat \<Rightarrow> 'a list \<Rightarrow> 'a list" where
  "swap_at i j h = h[i := h ! j, j := h ! i]"

fun siftup_from :: "('a \<Rightarrow> 'a \<Rightarrow> bool) \<Rightarrow> nat \<Rightarrow> 'a heap \<Rightarrow> 'a heap" where
  "siftup_from lt i h =
     (if 0 < i then
        (let parent = (i - 1) div 2 in
         if lt (h ! i) (h ! parent) then siftup_from lt parent (swap_at parent i h) else h)
      else h)"

declare siftup_from.simps [simp del]

definition siftup :: "('a \<Rightarrow> 'a \<Rightarrow> bool) \<Rightarrow> 'a heap \<Rightarrow> 'a heap" where
  "siftup lt h = siftup_from lt (length h - 1) h"

text \<open>The child that \<open>siftdown\<close> compares with: the smaller one, the left one on a tie.\<close>

definition pick_child :: "('a \<Rightarrow> 'a \<Rightarrow> bool) \<Rightarrow> nat \<Rightarrow> 'a heap \<Rightarrow> nat" where
  "pick_child lt child h =
     (if child < length h - 1 \<and> lt (h ! (child + 1)) (h ! child) then child + 1 else child)"

function siftdown_from :: "('a \<Rightarrow> 'a \<Rightarrow> bool) \<Rightarrow> nat \<Rightarrow> 'a heap \<Rightarrow> 'a heap" where
  "siftdown_from lt i h =
     (if i * 2 + 1 < length h then
        (let child = pick_child lt (i * 2 + 1) h in
         if lt (h ! child) (h ! i) then siftdown_from lt child (swap_at i child h) else h)
      else h)"
  by pat_completeness auto
termination
  by (relation "measure (\<lambda>(lt, i, h). length h - i)") (auto simp: swap_at_def pick_child_def)

declare siftdown_from.simps [simp del]

definition siftdown :: "('a \<Rightarrow> 'a \<Rightarrow> bool) \<Rightarrow> 'a heap \<Rightarrow> 'a heap" where
  "siftdown lt h = siftdown_from lt 0 h"

definition insert_heap :: "('a \<Rightarrow> 'a \<Rightarrow> bool) \<Rightarrow> 'a \<Rightarrow> 'a heap \<Rightarrow> 'a heap" where
  "insert_heap lt node h = siftup lt (h @ [node])"

definition min_heap :: "'a heap \<Rightarrow> 'a option" where
  "min_heap h = (case h of [] \<Rightarrow> None | x # _ \<Rightarrow> Some x)"

definition remove_heap :: "('a \<Rightarrow> 'a \<Rightarrow> bool) \<Rightarrow> 'a heap \<Rightarrow> ('a \<times> 'a heap) option" where
  "remove_heap lt h =
     (case h of [] \<Rightarrow> None
      | node # _ \<Rightarrow> Some (node, siftdown lt (butlast (h[0 := last h]))))"

definition size_heap :: "'a heap \<Rightarrow> nat" where
  "size_heap h = length h"

definition empty_heap :: "'a heap \<Rightarrow> bool" where
  "empty_heap h = (h = [])"

definition clear_heap :: "'a heap \<Rightarrow> 'a heap" where
  "clear_heap h = []"

text \<open>The default comparison, \<open>Less<T>\<close>.\<close>

definition Less :: "'a::linorder \<Rightarrow> 'a \<Rightarrow> bool" where
  "Less x y \<longleftrightarrow> x < y"

subsection \<open>What a comparison must be\<close>

text \<open>
  The contract of the \<open>Compare\<close> argument of the standard containers and algorithms, a strict
  weak order: asymmetric, and "not less" is transitive.  The time-zone tables use the same
  contract for their binary search.
\<close>

locale strict_weak =
  fixes lt :: "'a \<Rightarrow> 'a \<Rightarrow> bool"
  assumes asym: "lt x y \<Longrightarrow> \<not> lt y x"
    and not_lt_trans: "\<not> lt y x \<Longrightarrow> \<not> lt z y \<Longrightarrow> \<not> lt z x"
begin

lemma irrefl: "\<not> lt x x"
  using asym by blast

lemma lt_trans: "lt x y \<Longrightarrow> lt y z \<Longrightarrow> lt x z"
  using asym not_lt_trans by blast

lemma lt_not_lt_trans: "lt x y \<Longrightarrow> \<not> lt z y \<Longrightarrow> lt x z"
  using not_lt_trans by blast

end

interpretation less_order: strict_weak "Less :: 'a::linorder \<Rightarrow> 'a \<Rightarrow> bool"
  by unfold_locales (auto simp: Less_def)

subsection \<open>The heap order\<close>

definition is_heap :: "('a \<Rightarrow> 'a \<Rightarrow> bool) \<Rightarrow> 'a heap \<Rightarrow> bool" where
  "is_heap lt h \<longleftrightarrow> (\<forall>j<length h. 0 < j \<longrightarrow> \<not> lt (h ! j) (h ! ((j - 1) div 2)))"

text \<open>
  During a sift the order fails at one index only: towards the parent while sifting up,
  towards the children while sifting down.
\<close>

definition heap_except_up :: "('a \<Rightarrow> 'a \<Rightarrow> bool) \<Rightarrow> nat \<Rightarrow> 'a heap \<Rightarrow> bool" where
  "heap_except_up lt i h \<longleftrightarrow>
     (\<forall>j<length h. 0 < j \<longrightarrow>
        (j \<noteq> i \<longrightarrow> \<not> lt (h ! j) (h ! ((j - 1) div 2))) \<and>
        ((j - 1) div 2 = i \<and> 0 < i \<longrightarrow> \<not> lt (h ! j) (h ! ((i - 1) div 2))))"

definition heap_except_down :: "('a \<Rightarrow> 'a \<Rightarrow> bool) \<Rightarrow> nat \<Rightarrow> 'a heap \<Rightarrow> bool" where
  "heap_except_down lt i h \<longleftrightarrow>
     (\<forall>j<length h. 0 < j \<longrightarrow>
        ((j - 1) div 2 \<noteq> i \<longrightarrow> \<not> lt (h ! j) (h ! ((j - 1) div 2))) \<and>
        ((j - 1) div 2 = i \<and> 0 < i \<longrightarrow> \<not> lt (h ! j) (h ! ((i - 1) div 2))))"

lemma length_swap_at [simp]: "length (swap_at i j h) = length h"
  by (simp add: swap_at_def)

lemma nth_swap_at:
  "i < length h \<Longrightarrow> j < length h \<Longrightarrow> k < length h \<Longrightarrow>
   swap_at i j h ! k = (if k = j then h ! i else if k = i then h ! j else h ! k)"
  by (simp add: swap_at_def nth_list_update)

lemma mset_swap_at [simp]:
  "i < length h \<Longrightarrow> j < length h \<Longrightarrow> mset (swap_at i j h) = mset h"
  by (simp add: swap_at_def mset_swap)

lemma length_siftup_from [simp]: "length (siftup_from lt i h) = length h"
  by (induction lt i h rule: siftup_from.induct)
    (subst siftup_from.simps, simp add: Let_def)

lemma mset_siftup_from:
  "i < length h \<Longrightarrow> mset (siftup_from lt i h) = mset h"
proof (induction lt i h rule: siftup_from.induct)
  case (1 lt i h)
  then show ?case
    by (subst siftup_from.simps) (auto simp: Let_def)
qed

lemma length_siftdown_from [simp]: "length (siftdown_from lt i h) = length h"
  by (induction lt i h rule: siftdown_from.induct)
    (subst siftdown_from.simps, simp add: Let_def)

lemma pick_child_bounds:
  "i * 2 + 1 < length h \<Longrightarrow>
   pick_child lt (i * 2 + 1) h < length h \<and> i < pick_child lt (i * 2 + 1) h
   \<and> (pick_child lt (i * 2 + 1) h - 1) div 2 = i"
  by (auto simp: pick_child_def)

lemma mset_siftdown_from:
  "mset (siftdown_from lt i h) = mset h"
proof (induction lt i h rule: siftdown_from.induct)
  case (1 lt i h)
  then show ?case
    using pick_child_bounds [of i h lt]
    by (subst siftdown_from.simps) (auto simp: Let_def)
qed

subsection \<open>The sifts restore the order\<close>

lemma heap_except_up_zero: "heap_except_up lt 0 h \<Longrightarrow> is_heap lt h"
  by (auto simp: heap_except_up_def is_heap_def)

lemma heap_except_up_done:
  "heap_except_up lt i h \<Longrightarrow> \<not> lt (h ! i) (h ! ((i - 1) div 2)) \<Longrightarrow> is_heap lt h"
  by (auto simp: heap_except_up_def is_heap_def)

lemma heap_except_down_leaf:
  assumes "heap_except_down lt i h" "length h \<le> i * 2 + 1"
  shows "is_heap lt h"
  unfolding is_heap_def
proof (intro allI impI)
  fix j assume j: "j < length h" "0 < j"
  then have "(j - 1) div 2 \<noteq> i"
    using assms(2) by linarith
  then show "\<not> lt (h ! j) (h ! ((j - 1) div 2))"
    using assms(1) j by (auto simp: heap_except_down_def)
qed

context strict_weak
begin

lemma siftup_step:
  assumes h: "heap_except_up lt i h" and i: "0 < i" "i < length h"
    and less: "lt (h ! i) (h ! ((i - 1) div 2))"
  shows "heap_except_up lt ((i - 1) div 2) (swap_at ((i - 1) div 2) i h)"
proof -
  define p where "p = (i - 1) div 2"
  have p: "p < i" "p < length h"
    using i by (auto simp: p_def)
  have sib: "\<not> lt (h ! j) (h ! i)" if j: "j < length h" "0 < j" "j \<noteq> i" "(j - 1) div 2 = p" for j
  proof -
    have "\<not> lt (h ! j) (h ! p)"
      using h j by (auto simp: heap_except_up_def)
    with less show ?thesis
      unfolding p_def [symmetric] by (rule lt_not_lt_trans [THEN asym])
  qed
  have up: "\<not> lt (h ! j) (h ! p)" if "j < length h" "0 < j" "(j - 1) div 2 = i" for j
    using h that i by (auto simp: heap_except_up_def p_def)
  have par: "\<not> lt (h ! p) (h ! ((p - 1) div 2))" if "0 < p"
    using h that p by (auto simp: heap_except_up_def)
  have other: "\<not> lt (h ! j) (h ! ((j - 1) div 2))" if "j < length h" "0 < j" "j \<noteq> i" for j
    using h that by (auto simp: heap_except_up_def)
  let ?g = "swap_at p i h"
  have g: "?g ! k = (if k = i then h ! p else if k = p then h ! i else h ! k)" if "k < length h" for k
    using that p i by (simp add: nth_swap_at)
  have less_p: "\<not> lt (h ! p) (h ! i)"
    using less asym unfolding p_def by blast
  show ?thesis
    unfolding heap_except_up_def p_def [symmetric]
  proof (intro allI impI conjI)
    fix j assume j: "j < length ?g" "0 < j" and jp: "j \<noteq> p"
    have "(j - 1) div 2 < length h" "j < length h"
      using j by auto
    note gj = g [OF \<open>j < length h\<close>] and gp = g [OF \<open>(j - 1) div 2 < length h\<close>]
    consider "j = i" | "j \<noteq> i" "(j - 1) div 2 = p" | "j \<noteq> i" "(j - 1) div 2 = i"
      | "j \<noteq> i" "(j - 1) div 2 \<noteq> i" "(j - 1) div 2 \<noteq> p" by blast
    then show "\<not> lt (?g ! j) (?g ! ((j - 1) div 2))"
    proof cases
      case 1
      then show ?thesis using less_p jp gj gp p p_def by simp
    next
      case 2
      then show ?thesis using sib \<open>j < length h\<close> j(2) jp gj gp p by simp
    next
      case 3
      then show ?thesis using up \<open>j < length h\<close> j(2) jp gj gp by simp
    next
      case 4
      then show ?thesis using other \<open>j < length h\<close> j(2) jp gj gp by simp
    qed
  next
    fix j assume j: "j < length ?g" "0 < j" and pj: "(j - 1) div 2 = p \<and> 0 < p"
    then have jp: "j \<noteq> p" and jl: "j < length h" by auto
    have "(p - 1) div 2 < p" using pj by linarith
    have gp: "?g ! ((p - 1) div 2) = h ! ((p - 1) div 2)"
      using g [of "(p - 1) div 2"] \<open>(p - 1) div 2 < p\<close> p by simp
    have "\<not> lt (h ! j) (h ! ((p - 1) div 2))" if "j \<noteq> i"
      using not_lt_trans [OF par other [OF jl j(2) that, unfolded pj [THEN conjunct1]]] pj by blast
    with par pj show "\<not> lt (?g ! j) (?g ! ((p - 1) div 2))"
      using g [OF jl] jp unfolding gp by (simp split: if_split)
  qed
qed

lemma siftup_from_heap:
  "heap_except_up lt i h \<Longrightarrow> i < length h \<Longrightarrow> is_heap lt (siftup_from lt i h)"
proof (induction i arbitrary: h rule: less_induct)
  case (less i)
  let ?p = "(i - 1) div 2"
  show ?case
  proof (cases "0 < i \<and> lt (h ! i) (h ! ?p)")
    case True
    then have "heap_except_up lt ?p (swap_at ?p i h)"
      using less.prems by (intro siftup_step) auto
    moreover have "?p < i" "?p < length (swap_at ?p i h)"
      using True less.prems by auto
    ultimately have "is_heap lt (siftup_from lt ?p (swap_at ?p i h))"
      using less.IH by blast
    with True show ?thesis
      by (subst siftup_from.simps) (simp add: Let_def)
  next
    case False
    then have "is_heap lt h"
      using heap_except_up_zero [of lt h] heap_except_up_done [OF less.prems(1)] less.prems(1)
      by (cases "i = 0") auto
    with False show ?thesis
      by (subst siftup_from.simps) (auto simp: Let_def)
  qed
qed

lemma pick_child_least:
  assumes j: "j < length h" "0 < j" "(j - 1) div 2 = i"
  shows "\<not> lt (h ! j) (h ! pick_child lt (i * 2 + 1) h)"
proof -
  consider "j = i * 2 + 1" | "j = i * 2 + 2" using j by linarith
  then show ?thesis
  proof cases
    case 1
    then show ?thesis
      using asym [of "h ! (i * 2 + 2)" "h ! (i * 2 + 1)"] irrefl [of "h ! (i * 2 + 1)"]
      by (simp add: pick_child_def)
  next
    case 2
    then show ?thesis
      using j(1) irrefl [of "h ! (i * 2 + 2)"] by (simp add: pick_child_def)
  qed
qed

lemma siftdown_stop:
  assumes h: "heap_except_down lt i h" and i: "i * 2 + 1 < length h"
    and le: "\<not> lt (h ! pick_child lt (i * 2 + 1) h) (h ! i)"
  shows "is_heap lt h"
  unfolding is_heap_def
proof (intro allI impI)
  fix j assume j: "j < length h" "0 < j"
  let ?c = "pick_child lt (i * 2 + 1) h"
  show "\<not> lt (h ! j) (h ! ((j - 1) div 2))"
  proof (cases "(j - 1) div 2 = i")
    case True
    have "\<not> lt (h ! j) (h ! ?c)"
      by (rule pick_child_least [OF j True])
    with le show ?thesis
      unfolding True by (rule not_lt_trans)
  next
    case False
    with h j show ?thesis by (auto simp: heap_except_down_def)
  qed
qed

lemma siftdown_step:
  assumes h: "heap_except_down lt i h" and i: "i * 2 + 1 < length h"
    and c: "c = pick_child lt (i * 2 + 1) h" and less: "lt (h ! c) (h ! i)"
  shows "heap_except_down lt c (swap_at i c h)"
proof -
  have cb: "c < length h" "i < c" "(c - 1) div 2 = i" "0 < c"
    using pick_child_bounds [OF i, of lt] by (auto simp: c)
  have sib: "\<not> lt (h ! j) (h ! c)" if j: "j < length h" "0 < j" "(j - 1) div 2 = i" for j
    unfolding c by (rule pick_child_least [OF j])
  have up: "\<not> lt (h ! c) (h ! ((i - 1) div 2))" if "0 < i"
    using h that cb by (auto simp: heap_except_down_def)
  have other: "\<not> lt (h ! j) (h ! ((j - 1) div 2))" if "j < length h" "0 < j" "(j - 1) div 2 \<noteq> i" for j
    using h that by (auto simp: heap_except_down_def)
  let ?g = "swap_at i c h"
  have g: "?g ! k = (if k = c then h ! i else if k = i then h ! c else h ! k)" if "k < length h" for k
    using that cb i by (simp add: nth_swap_at)
  have less_c: "\<not> lt (h ! i) (h ! c)"
    by (rule asym [OF less])
  show ?thesis
    unfolding heap_except_down_def
  proof (intro allI impI conjI)
    fix j assume "j < length ?g" and j0: "0 < j" and pj: "(j - 1) div 2 \<noteq> c"
    then have j: "j < length h" and q: "(j - 1) div 2 < length h" "(j - 1) div 2 < j" by auto
    consider "j = c" | "j = i" | "j \<noteq> c" "j \<noteq> i" by blast
    then show "\<not> lt (?g ! j) (?g ! ((j - 1) div 2))"
    proof cases
      case 1
      then show ?thesis using less_c cb g [OF j] g [OF q(1)] by simp
    next
      case 2
      then show ?thesis using up j0 cb(2) q(2) g [OF j] g [OF q(1)] by simp
    next
      case 3
      then show ?thesis
        using sib [OF j j0] other [OF j j0] pj g [OF j] g [OF q(1)] by (cases "(j - 1) div 2 = i") simp_all
    qed
  next
    fix j assume "j < length ?g" and j0: "0 < j" and pj: "(j - 1) div 2 = c \<and> 0 < c"
    then have j: "j < length h" "j \<noteq> c" "j \<noteq> i" using cb by auto
    have "\<not> lt (h ! j) (h ! c)"
      using other [OF j(1) j0] pj cb by auto
    then show "\<not> lt (?g ! j) (?g ! ((c - 1) div 2))"
      unfolding cb(3) using g [OF j(1)] g [of i] j cb by simp
  qed
qed

lemma siftdown_from_heap:
  "heap_except_down lt i h \<Longrightarrow> is_heap lt (siftdown_from lt i h)"
proof (induction "length h - i" arbitrary: i h rule: less_induct)
  case less
  let ?c = "pick_child lt (i * 2 + 1) h"
  show ?case
  proof (cases "i * 2 + 1 < length h \<and> lt (h ! ?c) (h ! i)")
    case True
    then have "heap_except_down lt ?c (swap_at i ?c h)"
      using less.prems by (intro siftdown_step) auto
    moreover have "length (swap_at i ?c h) - ?c < length h - i"
      using True pick_child_bounds [of i h lt] by auto
    ultimately have "is_heap lt (siftdown_from lt ?c (swap_at i ?c h))"
      by (rule less.hyps [rotated])
    with True show ?thesis
      by (subst siftdown_from.simps) (simp add: Let_def)
  next
    case False
    then have "is_heap lt h"
      using siftdown_stop [OF less.prems] heap_except_down_leaf [OF less.prems] by linarith
    with False show ?thesis
      by (subst siftdown_from.simps) (auto simp: Let_def)
  qed
qed

lemma is_heap_append:
  assumes "is_heap lt h"
  shows "heap_except_up lt (length h) (h @ [x])"
  unfolding heap_except_up_def
proof (intro allI impI conjI)
  fix j assume "j < length (h @ [x])" "0 < j" "j \<noteq> length h"
  then have "j < length h" "(j - 1) div 2 < length h" "0 < j" by auto
  then show "\<not> lt ((h @ [x]) ! j) ((h @ [x]) ! ((j - 1) div 2))"
    using assms by (simp add: is_heap_def nth_append)
next
  fix j assume "j < length (h @ [x])" "0 < j" "(j - 1) div 2 = length h \<and> 0 < length h"
  then show "\<not> lt ((h @ [x]) ! j) ((h @ [x]) ! ((length h - 1) div 2))"
    by auto
qed

lemma insert_is_heap: "is_heap lt h \<Longrightarrow> is_heap lt (insert_heap lt x h)"
  unfolding insert_heap_def siftup_def
  by (rule siftup_from_heap) (auto intro: is_heap_append)

lemma root_minimal: "is_heap lt h \<Longrightarrow> j < length h \<Longrightarrow> \<not> lt (h ! j) (h ! 0)"
proof (induction j rule: less_induct)
  case (less j)
  show ?case
  proof (cases "j = 0")
    case True
    then show ?thesis using irrefl by simp
  next
    case False
    let ?p = "(j - 1) div 2"
    have "\<not> lt (h ! ?p) (h ! 0)"
      using False less by (intro less.IH) auto
    moreover have "\<not> lt (h ! j) (h ! ?p)"
      using False less.prems by (simp add: is_heap_def)
    ultimately show ?thesis by (rule not_lt_trans)
  qed
qed

lemma remove_is_heap:
  assumes "is_heap lt h" "remove_heap lt h = Some (x, h')"
  shows "is_heap lt h'"
proof -
  obtain y t where h: "h = y # t"
    using assms(2) by (cases h) (auto simp: remove_heap_def)
  let ?g = "butlast (h[0 := last h])"
  have len: "length ?g = length t" by (simp add: h)
  have same: "?g ! j = h ! j" if "0 < j" "j < length ?g" for j
    using that by (cases "t = []"; cases j) (simp_all add: h nth_butlast)
  have "heap_except_down lt 0 ?g"
    unfolding heap_except_down_def
  proof (intro allI impI conjI)
    fix j assume j: "j < length ?g" "0 < j" and p: "(j - 1) div 2 \<noteq> 0"
    then have "(j - 1) div 2 < length ?g" "j < length h" using len h by auto
    then show "\<not> lt (?g ! j) (?g ! ((j - 1) div 2))"
      using same [OF j(2,1)] same [of "(j - 1) div 2"] p assms(1) j by (simp add: is_heap_def)
  qed auto
  then have "is_heap lt (siftdown lt ?g)"
    unfolding siftdown_def by (rule siftdown_from_heap)
  then show ?thesis
    using assms(2) by (simp add: remove_heap_def h)
qed

end

subsection \<open>The heap as a priority queue\<close>

text \<open>
  What a client of the template relies on, over the multiset of the stored elements.  A
  client that empties the queue gets its elements in ascending order.
\<close>

locale priority_queue =
  fixes less :: "'a \<Rightarrow> 'a \<Rightarrow> bool"
    and insert :: "'a \<Rightarrow> 'q \<Rightarrow> 'q"
    and remove :: "'q \<Rightarrow> ('a \<times> 'q) option"
    and content :: "'q \<Rightarrow> 'a multiset"
    and invar :: "'q \<Rightarrow> bool"
  assumes content_insert: "invar q \<Longrightarrow> content (insert x q) = add_mset x (content q)"
    and invar_insert: "invar q \<Longrightarrow> invar (insert x q)"
    and remove_None: "invar q \<Longrightarrow> remove q = None \<longleftrightarrow> content q = {#}"
    and content_remove: "invar q \<Longrightarrow> remove q = Some (x, q') \<Longrightarrow> content q = add_mset x (content q')"
    and remove_least: "invar q \<Longrightarrow> remove q = Some (x, q') \<Longrightarrow> y \<in># content q' \<Longrightarrow> \<not> less y x"
    and invar_remove: "invar q \<Longrightarrow> remove q = Some (x, q') \<Longrightarrow> invar q'"
begin

fun drain :: "nat \<Rightarrow> 'q \<Rightarrow> 'a list" where
  "drain 0 q = []"
| "drain (Suc n) q = (case remove q of None \<Rightarrow> [] | Some (x, q') \<Rightarrow> x # drain n q')"

lemma mset_drain: "invar q \<Longrightarrow> size (content q) \<le> n \<Longrightarrow> mset (drain n q) = content q"
proof (induction n arbitrary: q)
  case (Suc n)
  then show ?case
    using remove_None content_remove invar_remove by (fastforce split: option.splits)
qed simp

lemma set_drain: "invar q \<Longrightarrow> set (drain n q) \<subseteq> set_mset (content q)"
proof (induction n arbitrary: q)
  case (Suc n)
  show ?case
  proof (cases "remove q")
    case (Some p)
    then obtain x q' where p: "remove q = Some (x, q')" by (cases p) auto
    with Suc show ?thesis
      using content_remove [OF Suc.prems p] invar_remove [OF Suc.prems p] by auto
  qed simp
qed simp

lemma drain_ordered: "invar q \<Longrightarrow> sorted_wrt (\<lambda>x y. \<not> less y x) (drain n q)"
proof (induction n arbitrary: q)
  case (Suc n)
  show ?case
  proof (cases "remove q")
    case (Some p)
    then obtain x q' where p: "remove q = Some (x, q')" by (cases p) auto
    with Suc show ?thesis
      using set_drain [of q' n] remove_least [OF Suc.prems p] invar_remove [OF Suc.prems p] by auto
  qed simp
qed simp

lemma content_fold: "invar q \<Longrightarrow> invar (fold insert xs q) \<and> content (fold insert xs q) = mset xs + content q"
  by (induction xs arbitrary: q) (auto simp: content_insert invar_insert)

end

lemma mset_last_butlast: "t \<noteq> [] \<Longrightarrow> mset t = add_mset (last t) (mset (butlast t))"
  by (cases t rule: rev_cases) auto

lemma mset_insert_heap [simp]: "mset (insert_heap lt x h) = add_mset x (mset h)"
  by (simp add: insert_heap_def siftup_def mset_siftup_from)

lemma mset_remove_heap:
  "remove_heap lt h = Some (x, h') \<Longrightarrow> mset h = add_mset x (mset h')"
  by (cases h)
    (auto simp: remove_heap_def siftdown_def mset_siftdown_from mset_last_butlast
      simp del: mset_zero_iff mset_zero_iff_right simp flip: mset_zero_iff split: if_splits)

lemma remove_heap_Nil [simp]: "remove_heap lt [] = None"
  by (simp add: remove_heap_def)

lemma remove_heap_None [simp]: "remove_heap lt h = None \<longleftrightarrow> h = []"
  by (cases h) (auto simp: remove_heap_def)

interpretation heap_pq: priority_queue "Less :: 'a::linorder \<Rightarrow> 'a \<Rightarrow> bool"
  "insert_heap Less" "remove_heap Less" mset "is_heap Less"
proof unfold_locales
  fix q q' :: "'a list" and x y
  assume q: "is_heap Less q" "remove_heap Less q = Some (x, q')" and y: "y \<in># mset q'"
  have "y \<in> set q" "x = q ! 0"
    using q(2) y mset_remove_heap [OF q(2), THEN arg_cong [of _ _ set_mset]]
    by (auto simp: remove_heap_def split: list.splits)
  then show "\<not> Less y x"
    using less_order.root_minimal [OF q(1)] by (auto simp: in_set_conv_nth)
qed (auto simp: mset_remove_heap less_order.insert_is_heap intro: less_order.remove_is_heap)

subsection \<open>Properties\<close>

text \<open>
  C16: for any comparison that is a strict weak order, \<open>insert\<close> keeps the heap order and adds
  exactly the new element; on a non-empty heap \<open>remove\<close> succeeds, returns the element that
  \<open>min\<close> shows, no stored element is less than it, exactly that element is gone, and the heap
  order still holds; on an empty heap \<open>remove\<close> is undefined.
\<close>

theorem heap_operations_correct:
  assumes "strict_weak lt" "is_heap lt h"
  shows "is_heap lt (insert_heap lt x h) \<and> mset (insert_heap lt x h) = add_mset x (mset h)
    \<and> (h = [] \<longrightarrow> remove_heap lt h = None)
    \<and> (h \<noteq> [] \<longrightarrow> (\<exists>m h'. remove_heap lt h = Some (m, h') \<and> min_heap h = Some m
          \<and> mset h = add_mset m (mset h') \<and> (\<forall>y\<in>set h. \<not> lt y m) \<and> is_heap lt h'))"
proof -
  have "\<exists>m h'. remove_heap lt h = Some (m, h') \<and> min_heap h = Some m
      \<and> mset h = add_mset m (mset h') \<and> (\<forall>y\<in>set h. \<not> lt y m) \<and> is_heap lt h'" if ne: "h \<noteq> []"
  proof -
    obtain m h' where r: "remove_heap lt h = Some (m, h')" "min_heap h = Some m" "m = h ! 0"
      using ne by (cases h) (auto simp: remove_heap_def min_heap_def)
    then show ?thesis
      using mset_remove_heap [OF r(1)] strict_weak.remove_is_heap [OF assms r(1)]
        strict_weak.root_minimal [OF assms] by (auto simp: in_set_conv_nth)
  qed
  then show ?thesis
    using strict_weak.insert_is_heap [OF assms] by auto
qed

lemma heap_operations_correct_witness:
  "is_heap Less (insert_heap Less 0 [1, 3, 2 :: int])
   \<and> remove_heap Less [1, 3, 2 :: int] = Some (1, [2, 3])"
proof -
  have "strict_weak (Less :: int \<Rightarrow> int \<Rightarrow> bool)"
    by (rule less_order.strict_weak_axioms)
  moreover have "is_heap Less [1, 3, 2 :: int]"
    by (simp add: is_heap_def Less_def nth_Cons' less_Suc_eq)
  ultimately have "is_heap Less (insert_heap Less 0 [1, 3, 2 :: int])"
    using heap_operations_correct [of Less "[1, 3, 2 :: int]" 0] by simp
  moreover have "remove_heap Less [1, 3, 2 :: int] = Some (1, [2, 3])"
    by code_simp
  ultimately show ?thesis by blast
qed

text \<open>Emptying a heap, as a client does that removes the elements one by one.\<close>

fun pop_all :: "('a \<Rightarrow> 'a \<Rightarrow> bool) \<Rightarrow> nat \<Rightarrow> 'a heap \<Rightarrow> 'a list" where
  "pop_all lt 0 h = []"
| "pop_all lt (Suc n) h = (case remove_heap lt h of None \<Rightarrow> [] | Some (x, h') \<Rightarrow> x # pop_all lt n h')"

lemma pop_all_drain: "pop_all Less n h = heap_pq.drain n h"
  by (induction n arbitrary: h) (auto split: option.splits)

text \<open>
  Inserting any elements into an empty heap and removing them all gives the same
  elements in ascending order.
\<close>

theorem heap_sorts:
  "mset (pop_all Less (length xs) (fold (insert_heap Less) xs [])) = mset xs
   \<and> sorted (pop_all Less (length xs) (fold (insert_heap Less) xs ([] :: 'a::linorder list)))"
proof -
  let ?h = "fold (insert_heap Less) xs ([] :: 'a list)"
  have "is_heap Less ?h" "mset ?h = mset xs"
    using heap_pq.content_fold [of "[]" xs] by (auto simp: is_heap_def)
  then show ?thesis
    using heap_pq.mset_drain [of ?h "length xs"] heap_pq.drain_ordered [of ?h "length xs"]
    by (auto simp: pop_all_drain sorted_wrt_iff_nth_less Less_def sorted_iff_nth_mono_less not_less)
qed

end
