(* ===== verification/TimeZone.thy ===== *)
theory TimeZone
  imports Date MinHeap
begin

section \<open>Time zones (base/TimeZone.h, base/TimeZone.cpp)\<close>

text \<open>
  The reader of compiled zone files, the search for the local time type in force, and the
  conversions.  \<open>time_t\<close> is the unbounded \<open>int\<close>; the casts to a 32-bit \<open>int\<close> are written out.
  \<open>gmtime_r\<close> and \<open>timegm\<close> are not part of the program: they are parameters.
\<close>

subsection \<open>Data\<close>

record transition =
  tr_gmt :: int
  tr_local :: int
  tr_idx :: nat

record localtime =
  lt_offset :: int
  lt_dst :: bool
  lt_abbr :: nat

record tzdata =
  transitions :: "transition list"
  localtimes :: "localtime list"
  abbr_chars :: string

definition empty_data :: tzdata where
  "empty_data = \<lparr>transitions = [], localtimes = [], abbr_chars = []\<rparr>"

record tm =
  tm_sec :: int
  tm_min :: int
  tm_hour :: int
  tm_mday :: int
  tm_mon :: int
  tm_year :: int
  tm_wday :: int
  tm_yday :: int
  tm_isdst :: int
  tm_gmtoff :: int
  tm_zone :: "string option"

definition zero_tm :: tm where
  "zero_tm = \<lparr>tm_sec = 0, tm_min = 0, tm_hour = 0, tm_mday = 0, tm_mon = 0, tm_year = 0,
     tm_wday = 0, tm_yday = 0, tm_isdst = 0, tm_gmtoff = 0, tm_zone = None\<rparr>"

definition Comp :: "bool \<Rightarrow> transition \<Rightarrow> transition \<Rightarrow> bool" where
  "Comp gmt lhs rhs = (if gmt then tr_gmt lhs < tr_gmt rhs else tr_local lhs < tr_local rhs)"

definition Comp_equal :: "bool \<Rightarrow> transition \<Rightarrow> transition \<Rightarrow> bool" where
  "Comp_equal gmt lhs rhs = (if gmt then tr_gmt lhs = tr_gmt rhs else tr_local lhs = tr_local rhs)"

subsection \<open>Reading a zone file\<close>

text \<open>
  A read consumes bytes of the file and may throw \<open>std::logic_error\<close>; a computation without
  defined behaviour (a negative length of a local array, an index out of range) is \<open>Undef\<close>.
\<close>

datatype 'a outcome = Undef | Thrown string | Done 'a

fun and_then :: "'a outcome \<Rightarrow> ('a \<Rightarrow> 'b outcome) \<Rightarrow> 'b outcome" where
  "and_then Undef f = Undef"
| "and_then (Thrown e) f = Thrown e"
| "and_then (Done x) f = f x"

definition readBytes :: "int \<Rightarrow> bytes \<Rightarrow> (bytes \<times> bytes) outcome" where
  "readBytes n fp =
     (if n < 0 then Undef
      else if int (length fp) < n then Thrown ''no enough data''
      else Done (take (nat n) fp, drop (nat n) fp))"

definition be32 :: "bytes \<Rightarrow> int" where
  "be32 bs = (let u = foldl (\<lambda>acc b. acc * 256 + of_char b) 0 bs
              in if u < 2 ^ 31 then u else u - 2 ^ 32)"

definition readInt32 :: "bytes \<Rightarrow> (int \<times> bytes) outcome" where
  "readInt32 fp =
     (if length fp < 4 then Thrown ''bad int32_t data'' else Done (be32 (take 4 fp), drop 4 fp))"

definition readUInt8 :: "bytes \<Rightarrow> (nat \<times> bytes) outcome" where
  "readUInt8 fp = (case fp of [] \<Rightarrow> Thrown ''bad uint8_t data'' | b # fp' \<Rightarrow> Done (of_char b, fp'))"

fun read_times :: "nat \<Rightarrow> (bytes \<Rightarrow> ('a \<times> bytes) outcome) \<Rightarrow> bytes \<Rightarrow> ('a list \<times> bytes) outcome" where
  "read_times 0 get fp = Done ([], fp)"
| "read_times (Suc n) get fp =
     and_then (get fp) (\<lambda>(x, fp').
       and_then (read_times n get fp') (\<lambda>(xs, fp''). Done (x # xs, fp'')))"

definition read_localtime :: "bytes \<Rightarrow> (localtime \<times> bytes) outcome" where
  "read_localtime fp =
     and_then (readInt32 fp) (\<lambda>(gmtoff, fp1).
       and_then (readUInt8 fp1) (\<lambda>(isdst, fp2).
         and_then (readUInt8 fp2) (\<lambda>(abbrind, fp3).
           Done (\<lparr>lt_offset = gmtoff, lt_dst = isdst \<noteq> 0, lt_abbr = abbrind\<rparr>, fp3))))"

text \<open>The loop that fills \<open>localtimes\<close>; what it pushed before an exception stays.\<close>

fun read_localtimes :: "nat \<Rightarrow> bytes \<Rightarrow> tzdata \<Rightarrow> tzdata \<times> bytes outcome" where
  "read_localtimes 0 fp d = (d, Done fp)"
| "read_localtimes (Suc n) fp d =
     (case read_localtime fp of
        Undef \<Rightarrow> (d, Undef)
      | Thrown e \<Rightarrow> (d, Thrown e)
      | Done (l, fp') \<Rightarrow> read_localtimes n fp' (d\<lparr>localtimes := localtimes d @ [l]\<rparr>))"

fun fill_transitions :: "int list \<Rightarrow> nat list \<Rightarrow> tzdata \<Rightarrow> tzdata option" where
  "fill_transitions (t # ts) (i # is) d =
     (if i < length (localtimes d)
      then fill_transitions ts is (d\<lparr>transitions := transitions d
             @ [\<lparr>tr_gmt = t, tr_local = t + lt_offset (localtimes d ! i), tr_idx = i\<rparr>]\<rparr>)
      else None)"
| "fill_transitions _ _ d = Some d"

definition read_header :: "bytes \<Rightarrow> (int list \<times> bytes) outcome" where
  "read_header fp =
     and_then (readBytes 4 fp) (\<lambda>(head, fp).
       if head \<noteq> ''TZif'' then Thrown ''bad head''
       else and_then (readBytes 1 fp) (\<lambda>(version, fp).
         and_then (readBytes 15 fp) (\<lambda>(_, fp). read_times 6 readInt32 fp)))"

text \<open>
  The counts are, in order, \<open>isgmtcnt\<close>, \<open>isstdcnt\<close>, \<open>leapcnt\<close>, \<open>timecnt\<close>, \<open>typecnt\<close>,
  \<open>charcnt\<close>.  \<open>reserve\<close> of a negative count throws \<open>std::length_error\<close>, a \<open>logic_error\<close>.
\<close>

definition read_body :: "int list \<Rightarrow> bytes \<Rightarrow> tzdata \<Rightarrow> (tzdata \<times> string option) option" where
  "read_body cnts fp d =
     (let timecnt = cnts ! 3; typecnt = cnts ! 4; charcnt = cnts ! 5 in
      if timecnt < 0 then Some (d, Some ''vector::reserve'')
      else case and_then (read_times (nat timecnt) readInt32 fp) (\<lambda>(ts, fp).
                  and_then (read_times (nat timecnt) readUInt8 fp) (\<lambda>(idxs, fp). Done (ts, idxs, fp))) of
        Undef \<Rightarrow> None
      | Thrown e \<Rightarrow> Some (d, Some e)
      | Done (ts, idxs, fp) \<Rightarrow>
          (case read_localtimes (nat typecnt) fp d of
             (d1, Undef) \<Rightarrow> None
           | (d1, Thrown e) \<Rightarrow> Some (d1, Some e)
           | (d1, Done fp) \<Rightarrow>
               (case fill_transitions ts idxs d1 of
                  None \<Rightarrow> None
                | Some d2 \<Rightarrow>
                    (case readBytes charcnt fp of
                       Undef \<Rightarrow> None
                     | Thrown e \<Rightarrow> Some (d2, Some e)
                     | Done (abbr, fp) \<Rightarrow> Some (d2\<lparr>abbr_chars := abbr\<rparr>, None)))))"

text \<open>
  \<open>None\<close> for the file: it could not be opened.  The result pairs the returned flag with the
  data; an exception is caught and printed.
\<close>

definition readTimeZoneFile :: "bytes option \<Rightarrow> tzdata \<Rightarrow> (bool \<times> tzdata) option" where
  "readTimeZoneFile zonefile d =
     (case zonefile of
        None \<Rightarrow> Some (True, d)
      | Some f \<Rightarrow>
          (case read_header f of
             Undef \<Rightarrow> None
           | Thrown e \<Rightarrow> Some (True, d)
           | Done (cnts, fp) \<Rightarrow> map_option (\<lambda>(d', e). (True, d')) (read_body cnts fp d)))"

definition make_TimeZone :: "bytes option \<Rightarrow> tzdata option option" where
  "make_TimeZone zonefile =
     map_option (\<lambda>(ok, d). if ok then Some d else None) (readTimeZoneFile zonefile empty_data)"

definition TimeZone_bool :: "tzdata option \<Rightarrow> bool" where
  "TimeZone_bool tz \<longleftrightarrow> tz \<noteq> None"

subsection \<open>The local time in force\<close>

text \<open>\<open>std::lower_bound\<close>: the first position whose element is not less than \<open>x\<close>.\<close>

definition lower_bound :: "('a \<Rightarrow> 'a \<Rightarrow> bool) \<Rightarrow> 'a list \<Rightarrow> 'a \<Rightarrow> nat" where
  "lower_bound lt xs x = length (takeWhile (\<lambda>y. lt y x) xs)"

definition at :: "'a list \<Rightarrow> nat \<Rightarrow> 'a option" where
  "at xs i = (if i < length xs then Some (xs ! i) else None)"

definition findLocaltime :: "tzdata \<Rightarrow> transition \<Rightarrow> bool \<Rightarrow> localtime option" where
  "findLocaltime d sentry gmt =
     (let trs = transitions d in
      if trs = [] \<or> Comp gmt sentry (hd trs) then at (localtimes d) 0
      else (let i = lower_bound (Comp gmt) trs sentry in
            if i < length trs
            then (if \<not> Comp_equal gmt sentry (trs ! i)
                  then (if i = 0 then None else at (localtimes d) (tr_idx (trs ! (i - 1))))
                  else at (localtimes d) (tr_idx (trs ! i)))
            else at (localtimes d) (tr_idx (last trs))))"

definition zone_name :: "tzdata \<Rightarrow> nat \<Rightarrow> string option" where
  "zone_name d i =
     (if i \<le> length (abbr_chars d) then Some (takeWhile (\<lambda>c. c \<noteq> CHR 0x00) (drop i (abbr_chars d)))
      else None)"

definition toLocalTime :: "(int \<Rightarrow> tm) \<Rightarrow> tzdata option \<Rightarrow> int \<Rightarrow> tm option" where
  "toLocalTime gmtime_r tz seconds = do {
     d \<leftarrow> tz;
     local \<leftarrow> findLocaltime d \<lparr>tr_gmt = seconds, tr_local = 0, tr_idx = 0\<rparr> True;
     zone \<leftarrow> zone_name d (lt_abbr local);
     Some ((gmtime_r (seconds + lt_offset local))\<lparr>tm_isdst := of_bool (lt_dst local),
             tm_gmtoff := lt_offset local, tm_zone := Some zone\<rparr>) }"

definition fromLocalTime :: "(int \<Rightarrow> tm) \<Rightarrow> (tm \<Rightarrow> int) \<Rightarrow> tzdata option \<Rightarrow> tm \<Rightarrow> int option" where
  "fromLocalTime gmtime_r timegm tz localTm = do {
     d \<leftarrow> tz;
     let seconds = timegm localTm;
     local \<leftarrow> findLocaltime d \<lparr>tr_gmt = 0, tr_local = seconds, tr_idx = 0\<rparr> False;
     seconds' \<leftarrow>
       (if tm_isdst localTm \<noteq> 0 then do {
          tryTm \<leftarrow> toLocalTime gmtime_r tz (seconds - lt_offset local);
          Some (if tm_isdst tryTm = 0 \<and> tm_hour tryTm = tm_hour localTm \<and> tm_min tryTm = tm_min localTm
                then seconds - 3600 else seconds) }
        else Some seconds);
     Some (seconds' - lt_offset local) }"

subsection \<open>Universal time\<close>

definition kSecondsPerDay :: int where
  "kSecondsPerDay = 24 * 60 * 60"

definition to_int32 :: "int \<Rightarrow> int" where
  "to_int32 x = (x + 2 ^ 31) mod 2 ^ 32 - 2 ^ 31"

definition fillHMS :: "int \<Rightarrow> tm \<Rightarrow> tm" where
  "fillHMS seconds utc =
     (let minutes = seconds div 60
      in utc\<lparr>tm_sec := seconds mod 60, tm_min := minutes mod 60, tm_hour := minutes div 60\<rparr>)"

definition toUtcTime :: "int \<Rightarrow> bool \<Rightarrow> tm" where
  "toUtcTime time yday =
     (let seconds0 = to_int32 (time smod kSecondsPerDay);
          days0 = to_int32 (time sdiv kSecondsPerDay);
          (seconds, days) = (if seconds0 < 0 then (seconds0 + kSecondsPerDay, days0 - 1) else (seconds0, days0));
          utc = fillHMS seconds (zero_tm\<lparr>tm_zone := Some ''GMT''\<rparr>);
          date = Date_of_julian (days + kJulianDayOf1970_01_01);
          t = yearMonthDay date;
          utc' = utc\<lparr>tm_year := year t - 1900, tm_mon := month t - 1, tm_mday := day t, tm_wday := weekDay date\<rparr>
      in if yday
         then utc'\<lparr>tm_yday := julianDayNumber date - julianDayNumber (Date_of_ymd (year t) 1 1)\<rparr>
         else utc')"

definition fromUtcTime :: "int \<Rightarrow> int \<Rightarrow> int \<Rightarrow> int \<Rightarrow> int \<Rightarrow> int \<Rightarrow> int" where
  "fromUtcTime yr mon dy hour minute seconds =
     (let date = Date_of_ymd yr mon dy;
          secondsInDay = hour * 3600 + minute * 60 + seconds;
          days = julianDayNumber date - kJulianDayOf1970_01_01
      in days * kSecondsPerDay + secondsInDay)"

definition fromUtcTime_tm :: "tm \<Rightarrow> int" where
  "fromUtcTime_tm utc =
     fromUtcTime (tm_year utc + 1900) (tm_mon utc + 1) (tm_mday utc) (tm_hour utc) (tm_min utc) (tm_sec utc)"

definition Date_of_tm :: "tm \<Rightarrow> date" where
  "Date_of_tm t = Date_of_ymd (tm_year t + 1900) (tm_mon t + 1) (tm_mday t)"

subsection \<open>The file format\<close>

text \<open>
  The reference: a version-1 file as the format describes it, a header of magic number,
  version, fifteen reserved bytes and six counts, then the transition times, their type indices,
  the types and the abbreviation characters.
\<close>

definition enc32 :: "int \<Rightarrow> bytes" where
  "enc32 x = (let u = x mod 2 ^ 32; v = u div 256; w = v div 256
     in [char_of (w div 256), char_of (w mod 256), char_of (v mod 256), char_of (u mod 256)])"

definition enc_localtime :: "localtime \<Rightarrow> bytes" where
  "enc_localtime l = enc32 (lt_offset l) @ [char_of (of_bool (lt_dst l) :: nat), char_of (lt_abbr l)]"

definition enc_zone :: "tzdata \<Rightarrow> bytes" where
  "enc_zone d = ''TZif'' @ replicate 16 (CHR 0x00) @ enc32 0 @ enc32 0 @ enc32 0
     @ enc32 (int (length (transitions d))) @ enc32 (int (length (localtimes d)))
     @ enc32 (int (length (abbr_chars d)))
     @ concat (map (\<lambda>t. enc32 (tr_gmt t)) (transitions d))
     @ map (\<lambda>t. char_of (tr_idx t)) (transitions d)
     @ concat (map enc_localtime (localtimes d)) @ abbr_chars d"

definition zone_ok :: "tzdata \<Rightarrow> bool" where
  "zone_ok d \<longleftrightarrow> length (transitions d) < 2 ^ 31 \<and> length (localtimes d) < 2 ^ 31 \<and> length (abbr_chars d) < 2 ^ 31
     \<and> list_all (\<lambda>l. in_int32 (lt_offset l) \<and> lt_abbr l < 256) (localtimes d)
     \<and> list_all (\<lambda>t. in_int32 (tr_gmt t) \<and> tr_idx t < 256 \<and> tr_idx t < length (localtimes d)
          \<and> tr_local t = tr_gmt t + lt_offset (localtimes d ! tr_idx t)) (transitions d)"

lemma be32_enc32: "in_int32 x \<Longrightarrow> be32 (enc32 x) = x"
proof -
  assume x: "in_int32 x"
  let ?u = "x mod 2 ^ 32"
  have u: "0 \<le> ?u" "?u < 2 ^ 32" by simp_all
  have "?u div 256 div 256 div 256 = ?u div 2 ^ 24"
    by (simp add: zdiv_zmult2_eq [symmetric])
  then have "?u div 256 div 256 div 256 < 256" "0 \<le> ?u div 256 div 256 div 256"
    using u by (simp_all add: div_less_iff_less_mult pos_imp_zdiv_nonneg_iff)
  then have "foldl (\<lambda>acc b. acc * 256 + of_char b) 0 (enc32 x) = ?u"
    by (simp add: enc32_def Let_def)
  moreover have "?u = (if 0 \<le> x then x else x + 2 ^ 32)"
  proof (cases "0 \<le> x")
    case False
    have "x mod 2 ^ 32 = (x + 2 ^ 32) mod 2 ^ 32"
      by (simp only: mod_add_self2)
    also have "\<dots> = x + 2 ^ 32"
      using x False by (intro mod_pos_pos_trivial) (auto simp: in_int32_def)
    finally show ?thesis using False by simp
  qed (use x in \<open>auto simp: in_int32_def intro!: mod_pos_pos_trivial\<close>)
  ultimately show ?thesis
    using x by (auto simp: be32_def Let_def in_int32_def split: if_splits)
qed

lemma readInt32_enc [simp]: "in_int32 x \<Longrightarrow> readInt32 (enc32 x @ fp) = Done (x, fp)"
proof -
  assume "in_int32 x"
  moreover have "length (enc32 x) = 4" by (simp add: enc32_def Let_def)
  ultimately show ?thesis by (simp add: readInt32_def be32_enc32)
qed

lemma readUInt8_enc [simp]: "n < 256 \<Longrightarrow> readUInt8 (char_of n # fp) = Done (n, fp)"
  by (simp add: readUInt8_def)

lemma read_times_enc:
  assumes "\<And>x fp. x \<in> set xs \<Longrightarrow> get (enc x @ fp) = Done (f x, fp)"
  shows "read_times (length xs) get (concat (map enc xs) @ fp) = Done (map f xs, fp)"
  using assms by (induction xs) auto

lemma read_localtimes_enc:
  assumes "list_all (\<lambda>l. in_int32 (lt_offset l) \<and> lt_abbr l < 256) ls"
  shows "read_localtimes (length ls) (concat (map enc_localtime ls) @ fp) d
    = (d\<lparr>localtimes := localtimes d @ ls\<rparr>, Done fp)"
  using assms
proof (induction ls arbitrary: d)
  case (Cons l ls)
  then have "read_localtime (enc_localtime l @ fp') = Done (l, fp')" for fp'
    by (simp add: read_localtime_def enc_localtime_def)
  with Cons show ?case by simp
qed simp

lemma fill_transitions_enc:
  assumes "list_all (\<lambda>t. tr_idx t < length (localtimes d)
      \<and> tr_local t = tr_gmt t + lt_offset (localtimes d ! tr_idx t)) ts"
  shows "fill_transitions (map tr_gmt ts) (map tr_idx ts) d = Some (d\<lparr>transitions := transitions d @ ts\<rparr>)"
  using assms
proof (induction ts arbitrary: d)
  case (Cons t ts)
  then have "\<lparr>tr_gmt = tr_gmt t, tr_local = tr_gmt t + lt_offset (localtimes d ! tr_idx t), tr_idx = tr_idx t\<rparr> = t"
    by (cases t) simp
  with Cons show ?case by simp
qed simp

lemma read_header_enc:
  assumes "zone_ok d"
  shows "read_header (enc_zone d) = Done ([0, 0, 0, int (length (transitions d)), int (length (localtimes d)),
      int (length (abbr_chars d))], concat (map (\<lambda>t. enc32 (tr_gmt t)) (transitions d))
     @ map (\<lambda>t. char_of (tr_idx t)) (transitions d) @ concat (map enc_localtime (localtimes d)) @ abbr_chars d)"
proof -
  have "in_int32 (int (length (transitions d)))" "in_int32 (int (length (localtimes d)))"
    "in_int32 (int (length (abbr_chars d)))" "in_int32 0"
    using assms by (simp_all add: zone_ok_def in_int32_def)
  then show ?thesis
    by (simp add: read_header_def enc_zone_def readBytes_def eval_nat_numeral)
qed

lemma read_body_enc:
  assumes ok: "zone_ok d"
  shows "read_body [0, 0, 0, int (length (transitions d)), int (length (localtimes d)), int (length (abbr_chars d))]
     (concat (map (\<lambda>t. enc32 (tr_gmt t)) (transitions d)) @ map (\<lambda>t. char_of (tr_idx t)) (transitions d)
       @ concat (map enc_localtime (localtimes d)) @ abbr_chars d) empty_data = Some (d, None)"
proof -
  let ?r1 = "map (\<lambda>t. char_of (tr_idx t)) (transitions d) @ concat (map enc_localtime (localtimes d)) @ abbr_chars d"
  let ?r2 = "concat (map enc_localtime (localtimes d)) @ abbr_chars d"
  have t: "list_all (\<lambda>t. in_int32 (tr_gmt t) \<and> tr_idx t < 256) (transitions d)"
    and ls: "list_all (\<lambda>l. in_int32 (lt_offset l) \<and> lt_abbr l < 256) (localtimes d)"
    and tr: "list_all (\<lambda>t. tr_idx t < length (localtimes d)
      \<and> tr_local t = tr_gmt t + lt_offset (localtimes d ! tr_idx t)) (transitions d)"
    using ok by (auto simp: zone_ok_def list_all_iff)
  have 1: "read_times (length (transitions d)) readInt32 (concat (map (\<lambda>t. enc32 (tr_gmt t)) (transitions d)) @ ?r1)
      = Done (map tr_gmt (transitions d), ?r1)"
    using t by (intro read_times_enc) (auto simp: list_all_iff)
  have 2: "read_times (length (transitions d)) readUInt8 (concat (map (\<lambda>t. [char_of (tr_idx t)]) (transitions d)) @ ?r2)
      = Done (map tr_idx (transitions d), ?r2)"
    using t by (intro read_times_enc) (auto simp: list_all_iff)
  have m: "concat (map (\<lambda>t. [char_of (tr_idx t)]) ts) = map (\<lambda>t. char_of (tr_idx t)) ts" for ts
    by (induction ts) auto
  have 3: "fill_transitions (map tr_gmt (transitions d)) (map tr_idx (transitions d)) (empty_data\<lparr>localtimes := localtimes d\<rparr>)
      = Some (empty_data\<lparr>localtimes := localtimes d, transitions := transitions d\<rparr>)"
    using fill_transitions_enc [of "empty_data\<lparr>localtimes := localtimes d\<rparr>" "transitions d"] tr
    by (simp add: empty_data_def)
  then show ?thesis
    using read_localtimes_enc [OF ls, of "abbr_chars d" empty_data]
    by (simp add: read_body_def Let_def 1 2 [unfolded m] readBytes_def empty_data_def)
qed

subsection \<open>Searching\<close>

text \<open>
  \<open>Comp\<close> is a strict weak order for either key, as the binary search requires; on a sorted
  sequence the position it finds separates the smaller elements from the rest.
\<close>

interpretation comp_order: strict_weak "Comp gmt"
  by unfold_locales (auto simp: Comp_def split: if_splits)

context strict_weak
begin

lemma lower_bound_splits:
  assumes "sorted_wrt (\<lambda>x y. \<not> lt y x) xs"
  shows "i < lower_bound lt xs x \<Longrightarrow> lt (xs ! i) x"
    "lower_bound lt xs x \<le> i \<Longrightarrow> i < length xs \<Longrightarrow> \<not> lt (xs ! i) x"
    "lower_bound lt xs x \<le> length xs"
proof -
  show le: "lower_bound lt xs x \<le> length xs"
    by (simp add: lower_bound_def length_takeWhile_le)
  show "lt (xs ! i) x" if "i < lower_bound lt xs x"
    using that nth_mem [of i "takeWhile (\<lambda>y. lt y x) xs"]
    by (auto simp: lower_bound_def takeWhile_nth dest: set_takeWhileD)
  show "\<not> lt (xs ! i) x" if i: "lower_bound lt xs x \<le> i" "i < length xs"
  proof -
    let ?k = "lower_bound lt xs x"
    have k: "\<not> lt (xs ! ?k) x"
      using nth_length_takeWhile [of "\<lambda>y. lt y x" xs] i by (simp add: lower_bound_def)
    show ?thesis
    proof (cases "?k = i")
      case False
      then have "\<not> lt (xs ! i) (xs ! ?k)"
        using assms i by (auto simp: sorted_wrt_iff_nth_less)
      then show ?thesis using k lt_not_lt_trans by blast
    qed (use k in simp)
  qed
qed

end

text \<open>The position of the last transition whose key is not after the sentry's.\<close>

definition in_force :: "(transition \<Rightarrow> int) \<Rightarrow> transition list \<Rightarrow> int \<Rightarrow> nat \<Rightarrow> bool" where
  "in_force key trs t k \<longleftrightarrow> k < length trs \<and> key (trs ! k) \<le> t \<and> (Suc k < length trs \<longrightarrow> t < key (trs ! Suc k))"

definition key_of :: "bool \<Rightarrow> transition \<Rightarrow> int" where
  "key_of gmt = (if gmt then tr_gmt else tr_local)"

lemma Comp_key: "Comp gmt x y = (key_of gmt x < key_of gmt y)"
  "Comp_equal gmt x y = (key_of gmt x = key_of gmt y)"
  by (simp_all add: Comp_def Comp_equal_def key_of_def)

lemma sorted_nth_less:
  fixes f :: "'a \<Rightarrow> int"
  assumes "sorted_wrt (\<lambda>x y. f x < f y) xs" "i < j" "j < length xs"
  shows "f (xs ! i) < f (xs ! j)"
  using assms by (simp add: sorted_wrt_iff_nth_less)

lemma findLocaltime_in_force:
  assumes srt: "sorted_wrt (\<lambda>x y. key_of gmt x < key_of gmt y) (transitions d)"
    and k: "in_force (key_of gmt) (transitions d) (key_of gmt s) k"
  shows "findLocaltime d s gmt = at (localtimes d) (tr_idx (transitions d ! k))"
proof -
  let ?trs = "transitions d" and ?key = "key_of gmt"
  define i where "i = lower_bound (Comp gmt) ?trs s"
  have kl: "k < length ?trs" "?key (?trs ! k) \<le> ?key s" and kn: "Suc k < length ?trs \<Longrightarrow> ?key s < ?key (?trs ! Suc k)"
    using k by (auto simp: in_force_def)
  have "sorted_wrt (\<lambda>x y. \<not> Comp gmt y x) ?trs"
    using srt by (rule sorted_wrt_mono_rel [rotated]) (auto simp: Comp_key)
  note b = comp_order.lower_bound_splits [OF this, where x = s, folded i_def, unfolded Comp_key(1)]
  have ne: "?trs \<noteq> []" and hd: "?trs \<noteq> [] \<Longrightarrow> hd ?trs = ?trs ! 0"
    using kl by (auto simp: hd_conv_nth)
  have first: "\<not> Comp gmt s (hd ?trs)"
    using sorted_nth_less [OF srt, of 0 k] kl hd [OF ne] by (cases "k = 0") (auto simp: Comp_key)
  have after: "j < length ?trs \<Longrightarrow> k < j \<Longrightarrow> ?key s < ?key (?trs ! j)" for j
    using kn sorted_nth_less [OF srt, of "Suc k" j] by (cases "j = Suc k") fastforce+
  show ?thesis
  proof (cases "?key (?trs ! k) = ?key s")
    case True
    have "i = k"
    proof (rule antisym)
      show "i \<le> k" using b(1) [of k] True by (cases "k < i") simp_all
      show "k \<le> i"
      proof (rule ccontr)
        assume "\<not> k \<le> i"
        then have "i < k" by simp
        then show False
          using b(2) [of i] sorted_nth_less [OF srt, of i k] kl True by simp
      qed
    qed
    then show ?thesis
      using kl ne first True by (simp add: findLocaltime_def i_def [symmetric] Let_def Comp_key(2))
  next
    case False
    have ik: "i = Suc k"
    proof (rule antisym)
      show "i \<le> Suc k"
        using b(1) [of "Suc k"] b(3) after [of "Suc k"] by (cases "Suc k < i") simp_all
      show "Suc k \<le> i"
        using b(2) [of k] kl False by (cases "i \<le> k") simp_all
    qed
    show ?thesis
    proof (cases "Suc k < length ?trs")
      case True
      then show ?thesis
        using ne first ik after [of "Suc k"] by (simp add: findLocaltime_def i_def [symmetric] Let_def Comp_key(2))
    next
      case end': False
      then have "length ?trs = Suc k"
        using kl(1) by linarith
      then have "last ?trs = ?trs ! k"
        using ne by (simp add: last_conv_nth)
      then show ?thesis
        using ne first ik end' by (simp add: findLocaltime_def i_def [symmetric] Let_def)
    qed
  qed
qed

lemma findLocaltime_before:
  assumes "trs = transitions d" "trs = [] \<or> key_of gmt s < key_of gmt (hd trs)"
  shows "findLocaltime d s gmt = at (localtimes d) 0"
  using assms by (auto simp: findLocaltime_def Comp_key)

subsection \<open>Properties of zone files\<close>

text \<open>
  C21: reading a file that encodes a zone table in the documented format gives back the table:
  every transition with its local time, every type and the abbreviation characters.
\<close>

theorem zone_file_round_trip:
  assumes "zone_ok d"
  shows "readTimeZoneFile (Some (enc_zone d)) empty_data = Some (True, d)"
  using read_header_enc [OF assms] read_body_enc [OF assms] by (simp add: readTimeZoneFile_def)

definition demo_zone :: tzdata where
  "demo_zone = \<lparr>transitions = [\<lparr>tr_gmt = 1000, tr_local = 8200, tr_idx = 1\<rparr>, \<lparr>tr_gmt = 90000, tr_local = 93600, tr_idx = 0\<rparr>],
     localtimes = [\<lparr>lt_offset = 3600, lt_dst = False, lt_abbr = 0\<rparr>, \<lparr>lt_offset = 7200, lt_dst = True, lt_abbr = 4\<rparr>],
     abbr_chars = ''CET'' @ [CHR 0x00] @ ''CEST'' @ [CHR 0x00]\<rparr>"

lemma demo_zone_ok: "zone_ok demo_zone"
  by (simp add: zone_ok_def demo_zone_def in_int32_def)

lemma zone_file_round_trip_witness:
  "make_TimeZone (Some (enc_zone demo_zone)) = Some (Some demo_zone)"
  using zone_file_round_trip [OF demo_zone_ok] by (simp add: make_TimeZone_def)

text \<open>
  A zone file that cannot be opened, or without the magic number, still gives a time zone
  that tests as valid, with empty tables; every conversion to local time with it is undefined
  (it takes the first element of an empty vector).
\<close>

theorem bad_zone_file_looks_valid:
  assumes "case zonefile of None \<Rightarrow> True | Some f \<Rightarrow> take 4 f \<noteq> ''TZif''"
  shows "\<exists>tz. make_TimeZone zonefile = Some tz \<and> TimeZone_bool tz
    \<and> (\<forall>t. toLocalTime gmtime_r tz t = None)"
proof -
  have "toLocalTime gmtime_r (Some empty_data) t = None" for t
    by (simp add: toLocalTime_def findLocaltime_def empty_data_def at_def)
  moreover have "readTimeZoneFile zonefile empty_data = Some (True, empty_data)"
    using assms by (cases zonefile) (auto simp: readTimeZoneFile_def read_header_def readBytes_def)
  ultimately show ?thesis
    by (simp add: make_TimeZone_def TimeZone_bool_def)
qed

lemma bad_zone_file_looks_valid_witness:
  "\<exists>tz. make_TimeZone (Some ''hello world'') = Some tz \<and> TimeZone_bool tz \<and> toLocalTime (\<lambda>_. zero_tm) tz 0 = None"
  using bad_zone_file_looks_valid [of "Some ''hello world''"] by auto

subsection \<open>Universal time\<close>

lemma in_int32_bound: "- 2147483648 \<le> x \<Longrightarrow> x < 2147483648 \<Longrightarrow> in_int32 x"
  by (simp add: in_int32_def)

lemma to_int32_small: "in_int32 x \<Longrightarrow> to_int32 x = x"
  by (simp add: to_int32_def in_int32_def)

text \<open>The code's split of a time into day and second is the flooring one.\<close>

lemma split_time:
  assumes "in_int32 (t div 86400)" "in_int32 (t div 86400 + 1)"
  shows "(if to_int32 (t smod 86400) < 0 then (to_int32 (t smod 86400) + 86400, to_int32 (t sdiv 86400) - 1)
      else (to_int32 (t smod 86400), to_int32 (t sdiv 86400))) = (t mod 86400, t div 86400)"
proof -
  have m: "0 \<le> t mod 86400" "t mod 86400 < 86400" "t = 86400 * (t div 86400) + t mod 86400"
    by simp_all
  show ?thesis
  proof (cases "0 \<le> t")
    case True
    have "in_int32 (t mod 86400)"
      using in_int32_bound [of "t mod 86400"] m(1,2) by linarith
    then show ?thesis
      using True assms(1) m(1) by (simp add: sdiv_nonneg smod_nonneg to_int32_small)
  next
    case False
    let ?q = "(- t) div 86400" and ?r = "(- t) mod 86400"
    have n: "0 \<le> ?r" "?r < 86400" "- t = 86400 * ?q + ?r" by simp_all
    have "t sdiv 86400 = - ?q"
      using False by (simp add: signed_divide_int_def sgn_if)
    moreover have "t smod 86400 = - ?r"
      using False by (simp add: signed_modulo_int_def sgn_if)
    moreover have "?r = 0 \<Longrightarrow> t div 86400 = - ?q \<and> t mod 86400 = 0"
    proof -
      assume r: "?r = 0"
      have "t div 86400 = - ?q"
        using n(3) r by (intro div_eq) linarith+
      then show ?thesis using n(3) m(3) r by linarith
    qed
    moreover have "?r \<noteq> 0 \<Longrightarrow> t div 86400 = - ?q - 1 \<and> t mod 86400 = 86400 - ?r"
    proof -
      assume r: "?r \<noteq> 0"
      have "t = 86400 * (- ?q - 1) + (86400 - ?r)"
        using n(3) unfolding right_diff_distrib mult_minus_right by linarith
      then have "t div 86400 = - ?q - 1"
        by (rule int_div_pos_eq) (use n(1,2) r in linarith)+
      then show ?thesis using n(3) m(3) by linarith
    qed
    moreover have "in_int32 (- ?r)"
      using in_int32_bound [of "- ?r"] n(1,2) by linarith
    ultimately show ?thesis
      using assms n(1) by (cases "?r = 0") (simp_all add: to_int32_small)
  qed
qed

lemma fillHMS_seconds:
  "tm_hour (fillHMS s u) * 3600 + tm_min (fillHMS s u) * 60 + tm_sec (fillHMS s u) = s"
proof -
  have "s div 60 div 60 * 60 + s div 60 mod 60 = s div 60" "s div 60 * 60 + s mod 60 = s"
    by (simp_all only: div_mult_mod_eq)
  then have "s div 60 div 60 * 3600 + s div 60 mod 60 * 60 + s mod 60 = s"
    by linarith
  then show ?thesis
    by (simp add: fillHMS_def Let_def)
qed

lemma seconds_per_day: "kSecondsPerDay = 86400"
  by (simp add: kSecondsPerDay_def)

lemma utc_days:
  assumes "- 2472632 \<le> t div 86400" "t div 86400 \<le> 534398279"
  shows "in_int32 (t div 86400)" "in_int32 (t div 86400 + 1)"
    "- 32044 \<le> t div 86400 + kJulianDayOf1970_01_01" "t div 86400 + kJulianDayOf1970_01_01 \<le> 536838867"
  using assms by (auto simp: in_int32_def kJulianDayOf1970_01_01_def getJulianDayNumber_def)

abbreviation utc_hms :: "int \<Rightarrow> tm" where
  "utc_hms t \<equiv> fillHMS (t mod 86400) (zero_tm\<lparr>tm_zone := Some ''GMT''\<rparr>)"

abbreviation utc_ymd :: "int \<Rightarrow> ymd" where
  "utc_ymd t \<equiv> getYearMonthDay (t div 86400 + kJulianDayOf1970_01_01)"

lemma toUtcTime_fields:
  assumes "- 2472632 \<le> t div 86400" "t div 86400 \<le> 534398279"
  shows "tm_sec (toUtcTime t yday) = tm_sec (utc_hms t)" "tm_min (toUtcTime t yday) = tm_min (utc_hms t)"
    "tm_hour (toUtcTime t yday) = tm_hour (utc_hms t)" "tm_year (toUtcTime t yday) = year (utc_ymd t) - 1900"
    "tm_mon (toUtcTime t yday) = month (utc_ymd t) - 1" "tm_mday (toUtcTime t yday) = day (utc_ymd t)"
  unfolding toUtcTime_def seconds_per_day Let_def split_time [OF utc_days(1,2) [OF assms]] prod.case
  by (simp_all add: Date_of_julian_def yearMonthDay_def)

lemma utc_julian:
  assumes "- 2472632 \<le> t div 86400" "t div 86400 \<le> 534398279"
  shows "getJulianDayNumber (year (utc_ymd t)) (month (utc_ymd t)) (day (utc_ymd t))
    = t div 86400 + kJulianDayOf1970_01_01"
  using julian_of_ymd [OF utc_days(3) [OF assms]] by (simp add: julian_def)

lemma utc_inverse:
  assumes "- 2472632 \<le> t div 86400" "t div 86400 \<le> 534398279"
  shows "fromUtcTime_tm (toUtcTime t yday) = t"
  using fillHMS_seconds [of "t mod 86400" "zero_tm\<lparr>tm_zone := Some ''GMT''\<rparr>"] utc_julian [OF assms]
  by (simp add: fromUtcTime_tm_def fromUtcTime_def toUtcTime_fields [OF assms] Date_of_ymd_def Let_def seconds_per_day)

text \<open>
  C22: \<open>toUtcTime\<close> and \<open>fromUtcTime\<close> are inverse for every time from the year -4800 on (as long as
  the day count fits the code's \<open>int\<close>): the fields are those of the calendar day \<open>t div 86400\<close>
  after 1 January 1970, with hour, minute and second in their ranges.
\<close>

theorem utc_round_trip:
  assumes "- 2472632 \<le> t div 86400" "t div 86400 \<le> 534398279"
  shows "fromUtcTime_tm (toUtcTime t yday) = t
    \<and> julianDayNumber (Date_of_tm (toUtcTime t yday)) = t div 86400 + 2440588
    \<and> 0 \<le> tm_sec (toUtcTime t yday) \<and> tm_sec (toUtcTime t yday) < 60
    \<and> 0 \<le> tm_min (toUtcTime t yday) \<and> tm_min (toUtcTime t yday) < 60
    \<and> 0 \<le> tm_hour (toUtcTime t yday) \<and> tm_hour (toUtcTime t yday) < 24"
proof -
  have "0 \<le> t mod 86400" "t mod 86400 < 86400" by simp_all
  then have "tm_hour (utc_hms t) < 24" "0 \<le> tm_hour (utc_hms t)" "0 \<le> tm_min (utc_hms t)" "tm_min (utc_hms t) < 60"
    "0 \<le> tm_sec (utc_hms t)" "tm_sec (utc_hms t) < 60"
    by (simp_all add: fillHMS_def Let_def div_less_iff_less_mult pos_imp_zdiv_nonneg_iff)
  moreover have "kJulianDayOf1970_01_01 = 2440588"
    by (simp add: kJulianDayOf1970_01_01_def getJulianDayNumber_def)
  ultimately show ?thesis
    using utc_julian [OF assms] utc_inverse [OF assms]
    by (simp add: toUtcTime_fields [OF assms] Date_of_tm_def Date_of_ymd_def)
qed

lemma utc_round_trip_witness:
  "fromUtcTime_tm (toUtcTime (- 1) True) = - 1 \<and> fromUtcTime_tm (toUtcTime 1700000000 False) = 1700000000"
  using utc_round_trip [of "- 1" True] utc_round_trip [of 1700000000 False] by simp

subsection \<open>Local time\<close>

lemma zone_okD:
  assumes "zone_ok d" "k < length (transitions d)"
  shows "tr_idx (transitions d ! k) < length (localtimes d)"
    "tr_local (transitions d ! k) = tr_gmt (transitions d ! k) + lt_offset (localtimes d ! tr_idx (transitions d ! k))"
  using assms by (simp_all add: zone_ok_def list_all_length)

lemma findLocaltime_gmt:
  assumes "zone_ok d" "sorted_wrt (\<lambda>x y. tr_gmt x < tr_gmt y) (transitions d)" "in_force tr_gmt (transitions d) t k"
  shows "findLocaltime d \<lparr>tr_gmt = t, tr_local = x, tr_idx = i\<rparr> True
    = Some (localtimes d ! tr_idx (transitions d ! k))"
  using findLocaltime_in_force [of True d "\<lparr>tr_gmt = t, tr_local = x, tr_idx = i\<rparr>" k] assms(2,3)
    zone_okD(1) [OF assms(1), of k]
  by (simp add: key_of_def at_def in_force_def)

lemma findLocaltime_local:
  assumes "zone_ok d" "sorted_wrt (\<lambda>x y. tr_local x < tr_local y) (transitions d)" "in_force tr_local (transitions d) t k"
  shows "findLocaltime d \<lparr>tr_gmt = x, tr_local = t, tr_idx = i\<rparr> False
    = Some (localtimes d ! tr_idx (transitions d ! k))"
  using findLocaltime_in_force [of False d "\<lparr>tr_gmt = x, tr_local = t, tr_idx = i\<rparr>" k] assms(2,3)
    zone_okD(1) [OF assms(1), of k]
  by (simp add: key_of_def at_def in_force_def)

text \<open>
  C23: local time is converted with the type of the last transition that is not after the time,
  and the conversion back returns the time it came from, in summer and standard time, unless the
  clock reading comes again after the next transition.  \<open>timegm\<close> must invert \<open>gmtime_r\<close> at this
  time, whatever the three zone fields hold.
\<close>

theorem local_round_trip:
  assumes ok: "zone_ok d" and srt: "sorted_wrt (\<lambda>x y. tr_gmt x < tr_gmt y \<and> tr_local x < tr_local y) (transitions d)"
    and k: "in_force tr_gmt (transitions d) t k" and l: "l = localtimes d ! tr_idx (transitions d ! k)"
    and once: "Suc k < length (transitions d) \<longrightarrow> t + lt_offset l < tr_local (transitions d ! Suc k)"
    and name: "lt_abbr l \<le> length (abbr_chars d)"
    and inv: "\<And>dst off z. timegm ((gmtime_r (t + lt_offset l))\<lparr>tm_isdst := dst, tm_gmtoff := off, tm_zone := z\<rparr>)
      = t + lt_offset l"
  shows "\<exists>local. toLocalTime gmtime_r (Some d) t = Some local \<and> tm_gmtoff local = lt_offset l
    \<and> tm_isdst local = of_bool (lt_dst l) \<and> fromLocalTime gmtime_r timegm (Some d) local = Some t"
proof -
  have g: "sorted_wrt (\<lambda>x y. tr_gmt x < tr_gmt y) (transitions d)"
    and s: "sorted_wrt (\<lambda>x y. tr_local x < tr_local y) (transitions d)"
    using srt by (auto elim!: sorted_wrt_mono_rel [rotated])
  have kl: "k < length (transitions d)" "tr_gmt (transitions d ! k) \<le> t"
    using k by (auto simp: in_force_def)
  have "tr_local (transitions d ! k) = tr_gmt (transitions d ! k) + lt_offset l"
    using zone_okD(2) [OF ok kl(1)] l by simp
  then have k': "in_force tr_local (transitions d) (t + lt_offset l) k"
    using kl once by (simp add: in_force_def)
  obtain z where z: "zone_name d (lt_abbr l) = Some z"
    using name by (simp add: zone_name_def)
  let ?local = "(gmtime_r (t + lt_offset l))\<lparr>tm_isdst := of_bool (lt_dst l), tm_gmtoff := lt_offset l, tm_zone := Some z\<rparr>"
  have to: "toLocalTime gmtime_r (Some d) t = Some ?local"
    using findLocaltime_gmt [OF ok g k] l z by (simp add: toLocalTime_def)
  then have "fromLocalTime gmtime_r timegm (Some d) ?local = Some t"
    using findLocaltime_local [OF ok s k'] l inv by (cases "lt_dst l") (simp_all add: fromLocalTime_def Let_def)
  with to show ?thesis by auto
qed

lemma local_round_trip_witness:
  "\<exists>local. toLocalTime (\<lambda>t. toUtcTime t True) (Some demo_zone) 50000 = Some local \<and> tm_gmtoff local = 7200
    \<and> tm_isdst local = 1 \<and> fromLocalTime (\<lambda>t. toUtcTime t True) fromUtcTime_tm (Some demo_zone) local = Some 50000"
proof -
  have l: "localtimes demo_zone ! tr_idx (transitions demo_zone ! 0) = \<lparr>lt_offset = 7200, lt_dst = True, lt_abbr = 4\<rparr>"
    by (simp add: demo_zone_def)
  have inv: "fromUtcTime_tm ((toUtcTime 57200 True)\<lparr>tm_isdst := dst, tm_gmtoff := off, tm_zone := z\<rparr>) = 57200" for dst off z
  proof -
    have "fromUtcTime_tm ((toUtcTime 57200 True)\<lparr>tm_isdst := dst, tm_gmtoff := off, tm_zone := z\<rparr>)
        = fromUtcTime_tm (toUtcTime 57200 True)"
      by (simp add: fromUtcTime_tm_def)
    also have "\<dots> = 57200" by (rule utc_inverse) simp_all
    finally show ?thesis .
  qed
  have "\<exists>local. toLocalTime (\<lambda>t. toUtcTime t True) (Some demo_zone) 50000 = Some local
    \<and> tm_gmtoff local = lt_offset \<lparr>lt_offset = 7200, lt_dst = True, lt_abbr = 4\<rparr>
    \<and> tm_isdst local = of_bool (lt_dst \<lparr>lt_offset = 7200, lt_dst = True, lt_abbr = 4\<rparr>)
    \<and> fromLocalTime (\<lambda>t. toUtcTime t True) fromUtcTime_tm (Some demo_zone) local = Some 50000"
  proof (rule local_round_trip [OF demo_zone_ok _ _ l [symmetric]])
    show "in_force tr_gmt (transitions demo_zone) 50000 0"
      by (simp add: demo_zone_def in_force_def)
  next
    fix dst off z
    show "fromUtcTime_tm ((toUtcTime (50000 + lt_offset \<lparr>lt_offset = 7200, lt_dst = True, lt_abbr = 4\<rparr>) True)
        \<lparr>tm_isdst := dst, tm_gmtoff := off, tm_zone := z\<rparr>) = 50000 + lt_offset \<lparr>lt_offset = 7200, lt_dst = True, lt_abbr = 4\<rparr>"
      using inv [where dst = dst and off = off and z = z] by simp
  qed (simp_all add: demo_zone_def)
  then show ?thesis by simp
qed

end
