(* ===== verification/LogMessage.thy ===== *)
theory LogMessage
  imports Logger AsyncLogging TimeZone
begin

section \<open>Log messages (log/LogMessage.h, log/LogMessage.cpp)\<close>

text \<open>
  \<open>DLogMessage\<close> and \<open>LogMessage\<close> put a header on a stream when they are constructed, the program
  adds its items, and the destructor ends the line and hands it to the logger.  The logger is a
  template parameter, instantiated with \<open>Logger\<close> and \<open>AsyncLogger\<close>: a locale here, with both as
  its interpretations.  Clock and \<open>localtime_r\<close> are parameters; a failed \<open>assert\<close> is \<open>None\<close>.
\<close>

subsection \<open>The header\<close>

datatype LogLevel = TRACE | DEBUG | INFO | WARN | ERROR | FATAL

fun LogLevelName :: "LogLevel \<Rightarrow> string" where
  "LogLevelName TRACE = ''TRACE ''"
| "LogLevelName DEBUG = ''DEBUG ''"
| "LogLevelName INFO = ''INFO  ''"
| "LogLevelName WARN = ''WARN  ''"
| "LogLevelName ERROR = ''ERROR ''"
| "LogLevelName FATAL = ''FATAL ''"

text \<open>The thread-local cache of the formatted second.\<close>

record time_cache =
  t_time :: string
  t_lastSecond :: int

definition format_second :: "tm \<Rightarrow> string" where
  "format_second t =
     fmt_d 4 (tm_year t + 1900) @ fmt_0d 2 (tm_mon t + 1) @ fmt_0d 2 (tm_mday t) @ '' ''
       @ fmt_0d 2 (tm_hour t) @ '':'' @ fmt_0d 2 (tm_min t) @ '':'' @ fmt_0d 2 (tm_sec t)"

definition refresh_time :: "(int \<Rightarrow> tm) \<Rightarrow> int \<Rightarrow> time_cache \<Rightarrow> time_cache option" where
  "refresh_time localtime_r seconds tc =
     (if seconds \<noteq> t_lastSecond tc then
        (let s = format_second (localtime_r seconds)
         in if length s = 17 then Some \<lparr>t_time = s, t_lastSecond = seconds\<rparr> else None)
      else Some tc)"

definition format_micros :: "int \<Rightarrow> string option" where
  "format_micros us =
     (let s = ''.'' @ fmt_0d 6 us @ '' ''
      in do { x \<leftarrow> LogFormat s; if length x = 8 then Some x else None })"

text \<open>The constructor: header on an empty stream; \<open>seconds\<close> and \<open>us\<close> are the clock's reading.\<close>

definition message_header ::
  "(int \<Rightarrow> tm) \<Rightarrow> int \<Rightarrow> int \<Rightarrow> LogLevel \<Rightarrow> logstream \<Rightarrow> time_cache \<Rightarrow> (logstream \<times> time_cache) option" where
  "message_header localtime_r seconds us level st tc = do {
     tc' \<leftarrow> refresh_time localtime_r seconds tc;
     u \<leftarrow> format_micros us;
     st' \<leftarrow> put_all [CString (t_time tc'), CString u, CString (LogLevelName level)] st;
     Some (st', tc') }"

definition message_header_func ::
  "(int \<Rightarrow> tm) \<Rightarrow> int \<Rightarrow> int \<Rightarrow> LogLevel \<Rightarrow> string \<Rightarrow> logstream \<Rightarrow> time_cache \<Rightarrow> (logstream \<times> time_cache) option" where
  "message_header_func localtime_r seconds us level func st tc = do {
     (st1, tc') \<leftarrow> message_header localtime_r seconds us level st tc;
     st2 \<leftarrow> put_all [CString func, Char CHR '' ''] st1;
     Some (st2, tc') }"

text \<open>The text of an error: \<open>strerror_r\<close> gives the string, with a thread-local buffer of 512 bytes at hand.\<close>

definition strerror_tl :: "(int \<Rightarrow> nat \<Rightarrow> string) \<Rightarrow> int \<Rightarrow> string" where
  "strerror_tl strerror_r savedErrno = strerror_r savedErrno 512"

definition message_header_errno ::
  "(int \<Rightarrow> tm) \<Rightarrow> (int \<Rightarrow> nat \<Rightarrow> string) \<Rightarrow> int \<Rightarrow> int \<Rightarrow> int \<Rightarrow> bool \<Rightarrow> logstream \<Rightarrow> time_cache
   \<Rightarrow> (logstream \<times> time_cache) option" where
  "message_header_errno localtime_r strerror_r errno seconds us toAbort st tc = do {
     (st1, tc') \<leftarrow> message_header localtime_r seconds us (if toAbort then FATAL else ERROR) st tc;
     st2 \<leftarrow> (if errno \<noteq> 0
            then put_all [CString (strerror_tl strerror_r errno), CString '' (errno='', Integer errno, CString '') ''] st1
            else Some st1);
     Some (st2, tc') }"

subsection \<open>The end of the line\<close>

definition after_slash :: "string \<Rightarrow> string" where
  "after_slash filename = rev (takeWhile (\<lambda>c. c \<noteq> CHR ''/'') (rev filename))"

definition end_items :: "string \<Rightarrow> int \<Rightarrow> item list" where
  "end_items filename line =
     [CString '' - '', CString (after_slash filename), Char CHR '':'', Integer line, Char (char_of (10 :: nat))]"

text \<open>
  A sink takes the line: the logger, or \<open>stdout\<close> when the pointer is null.  The flag of the
  result says that the process aborts.
\<close>

record 's sink =
  sink_append :: "bytes \<Rightarrow> 's \<Rightarrow> 's option"
  sink_flush :: "'s \<Rightarrow> 's option"

definition end_DLogMessage :: "'s sink \<Rightarrow> LogLevel \<Rightarrow> string \<Rightarrow> int \<Rightarrow> logstream \<Rightarrow> 's \<Rightarrow> (bool \<times> 's) option" where
  "end_DLogMessage k level filename line st s = do {
     st' \<leftarrow> put_all (end_items filename line) st;
     s1 \<leftarrow> sink_append k (take (ls_length st') (ls_data st')) s;
     (if level = FATAL then do { s2 \<leftarrow> sink_flush k s1; Some (True, s2) } else Some (False, s1)) }"

definition end_LogMessage :: "'s sink \<Rightarrow> logstream \<Rightarrow> 's \<Rightarrow> 's option" where
  "end_LogMessage k st s = do {
     st' \<leftarrow> put_all [Char (char_of (10 :: nat))] st;
     sink_append k (take (ls_length st') (ls_data st')) s }"

text \<open>A whole message: one of the three constructors, the items of the program, destructor.\<close>

datatype message_ctor = Plain LogLevel | InFunction LogLevel string | SysError int bool

fun level_of :: "message_ctor \<Rightarrow> LogLevel" where
  "level_of (Plain level) = level"
| "level_of (InFunction level func) = level"
| "level_of (SysError errno toAbort) = (if toAbort then FATAL else ERROR)"

fun construct ::
  "(int \<Rightarrow> tm) \<Rightarrow> (int \<Rightarrow> nat \<Rightarrow> string) \<Rightarrow> int \<times> int \<Rightarrow> message_ctor \<Rightarrow> logstream \<Rightarrow> time_cache
   \<Rightarrow> (logstream \<times> time_cache) option" where
  "construct lt se (seconds, us) (Plain level) st tc = message_header lt seconds us level st tc"
| "construct lt se (seconds, us) (InFunction level func) st tc = message_header_func lt seconds us level func st tc"
| "construct lt se (seconds, us) (SysError errno toAbort) st tc = message_header_errno lt se errno seconds us toAbort st tc"

definition DLogMessage ::
  "(int \<Rightarrow> tm) \<Rightarrow> (int \<Rightarrow> nat \<Rightarrow> string) \<Rightarrow> 's sink \<Rightarrow> int \<times> int \<Rightarrow> string \<Rightarrow> int \<Rightarrow> message_ctor \<Rightarrow> item list \<Rightarrow> char
   \<Rightarrow> time_cache \<times> 's \<Rightarrow> (bool \<times> time_cache \<times> 's) option" where
  "DLogMessage localtime_r strerror_r k now filename line c items junk cs =
     (case cs of (tc, s) \<Rightarrow> do {
        (st, tc') \<leftarrow> construct localtime_r strerror_r now c (LogStream0 junk) tc;
        st' \<leftarrow> put_all items st;
        (aborts, s') \<leftarrow> end_DLogMessage k (level_of c) filename line st' s;
        Some (aborts, tc', s') })"

text \<open>\<open>CHECK_NOTNULL\<close>: a fatal message when the pointer is null, otherwise nothing.\<close>

definition CheckNotNull ::
  "(int \<Rightarrow> tm) \<Rightarrow> (int \<Rightarrow> nat \<Rightarrow> string) \<Rightarrow> 's sink \<Rightarrow> int \<times> int \<Rightarrow> string \<Rightarrow> int \<Rightarrow> string \<Rightarrow> 'p option \<Rightarrow> char
   \<Rightarrow> time_cache \<times> 's \<Rightarrow> (bool \<times> 'p option \<times> time_cache \<times> 's) option" where
  "CheckNotNull localtime_r strerror_r k now filename line name ptr junk cs =
     (if ptr = None then do {
        (aborts, cs') \<leftarrow> DLogMessage localtime_r strerror_r k now filename line (Plain FATAL) [CString name] junk cs;
        Some (aborts, ptr, cs') }
      else Some (False, ptr, cs))"

definition LogMessage ::
  "(int \<Rightarrow> tm) \<Rightarrow> 's sink \<Rightarrow> int \<times> int \<Rightarrow> LogLevel \<Rightarrow> item list \<Rightarrow> char
   \<Rightarrow> time_cache \<times> 's \<Rightarrow> (time_cache \<times> 's) option" where
  "LogMessage localtime_r k now level items junk cs =
     (case now of (seconds, us) \<Rightarrow> case cs of (tc, s) \<Rightarrow> do {
        (st, tc') \<leftarrow> message_header localtime_r seconds us level (LogStream0 junk) tc;
        st' \<leftarrow> put_all items st;
        s' \<leftarrow> end_LogMessage k st' s;
        Some (tc', s') })"

subsection \<open>What a message says\<close>

text \<open>
  The items that a message puts on its stream, from the time to the end of the line, and its text:
  the stream after all of them.
\<close>

definition time_items :: "(int \<Rightarrow> tm) \<Rightarrow> int \<times> int \<Rightarrow> LogLevel \<Rightarrow> item list" where
  "time_items lt now level =
     [CString (format_second (lt (fst now))), CString (''.'' @ fmt_0d 6 (snd now) @ '' ''), CString (LogLevelName level)]"

fun ctor_items :: "(int \<Rightarrow> nat \<Rightarrow> string) \<Rightarrow> message_ctor \<Rightarrow> item list" where
  "ctor_items se (Plain level) = []"
| "ctor_items se (InFunction level func) = [CString func, Char CHR '' '']"
| "ctor_items se (SysError errno toAbort) =
     (if errno \<noteq> 0 then [CString (strerror_tl se errno), CString '' (errno='', Integer errno, CString '') ''] else [])"

definition message_items ::
  "(int \<Rightarrow> tm) \<Rightarrow> (int \<Rightarrow> nat \<Rightarrow> string) \<Rightarrow> int \<times> int \<Rightarrow> string \<Rightarrow> int \<Rightarrow> message_ctor \<Rightarrow> item list \<Rightarrow> item list" where
  "message_items lt se now filename line c items =
     time_items lt now (level_of c) @ ctor_items se c @ items @ end_items filename line"

definition message_text ::
  "(int \<Rightarrow> tm) \<Rightarrow> (int \<Rightarrow> nat \<Rightarrow> string) \<Rightarrow> int \<times> int \<Rightarrow> string \<Rightarrow> int \<Rightarrow> message_ctor \<Rightarrow> item list \<Rightarrow> bytes" where
  "message_text lt se now filename line c items = fold spec_put (message_items lt se now filename line c items) []"

text \<open>
  What a message needs: microseconds of a second, a year of four digits, a cache that holds the
  formatted second it names, and values of at most 64 bits.
\<close>

definition message_ok :: "(int \<Rightarrow> tm) \<Rightarrow> int \<times> int \<Rightarrow> int \<Rightarrow> message_ctor \<Rightarrow> item list \<Rightarrow> time_cache \<Rightarrow> bool" where
  "message_ok lt now line c items tc \<longleftrightarrow>
     0 \<le> snd now \<and> snd now < 1000000 \<and> length (format_second (lt (fst now))) = 17
     \<and> (t_lastSecond tc = fst now \<longrightarrow> t_time tc = format_second (lt (fst now)))
     \<and> \<bar>line\<bar> < 2 ^ 64 \<and> list_all item_ok items
     \<and> (case c of SysError errno toAbort \<Rightarrow> \<bar>errno\<bar> < 2 ^ 31 | _ \<Rightarrow> True)"

lemma dec_length: "n < 10 ^ Suc k \<Longrightarrow> length (dec n) \<le> Suc k"
proof (induction k arbitrary: n)
  case (Suc k)
  then have "n div 10 < 10 ^ Suc k" by auto
  then show ?case
    using Suc.IH [of "n div 10"] by (subst dec.simps) auto
qed (subst dec.simps, simp)

lemma fmt_0d_length: "0 \<le> i \<Longrightarrow> i < 10 ^ Suc k \<Longrightarrow> length (fmt_0d (Suc k) i) = Suc k"
  using dec_length [of "nat i" k] by (simp add: fmt_0d_def pad_def nat_less_iff)

lemma refresh_time_correct:
  assumes "message_ok lt now line c items tc"
  shows "\<exists>tc'. refresh_time lt (fst now) tc = Some tc' \<and> t_time tc' = format_second (lt (fst now)) \<and> t_lastSecond tc' = fst now"
  using assms by (auto simp: refresh_time_def message_ok_def Let_def)

lemma format_micros_correct:
  assumes "message_ok lt now line c items tc"
  shows "format_micros (snd now) = Some (''.'' @ fmt_0d 6 (snd now) @ '' '')"
  using assms fmt_0d_length [of "snd now" 5] by (simp add: format_micros_def LogFormat_def Let_def message_ok_def)

lemma time_items_ok: "list_all item_ok (time_items lt now level)"
  by (simp add: time_items_def)

lemma construct_correct:
  assumes m: "message_ok lt now line c items tc" and st: "stream_ok st"
  shows "\<exists>st' tc'. construct lt se now c st tc = Some (st', tc') \<and> stream_ok st'
    \<and> ls_content st' = fold spec_put (time_items lt now (level_of c) @ ctor_items se c) (ls_content st)
    \<and> t_time tc' = format_second (lt (fst now)) \<and> t_lastSecond tc' = fst now"
proof -
  obtain tc' where tc': "refresh_time lt (fst now) tc = Some tc'" "t_time tc' = format_second (lt (fst now))" "t_lastSecond tc' = fst now"
    using refresh_time_correct [OF m] by blast
  note us = format_micros_correct [OF m]
  obtain st1 where st1: "put_all (time_items lt now (level_of c)) st = Some st1" "stream_ok st1"
    "ls_content st1 = fold spec_put (time_items lt now (level_of c)) (ls_content st)"
    using put_all_correct [OF st time_items_ok] by blast
  have h: "message_header lt (fst now) (snd now) (level_of c) st tc = Some (st1, tc')"
    using tc' us st1(1) by (simp add: message_header_def time_items_def del: put_all.simps)
  have "list_all item_ok (ctor_items se c)"
    using m by (cases c) (auto simp: message_ok_def)
  from put_all_correct [OF st1(2) this] obtain st2 where st2: "put_all (ctor_items se c) st1 = Some st2" "stream_ok st2"
    "ls_content st2 = fold spec_put (ctor_items se c) (ls_content st1)"
    by blast
  have "construct lt se now c st tc = Some (st2, tc')"
    using h st2(1) by (cases now; cases c)
      (simp_all add: message_header_func_def message_header_errno_def del: put_all.simps split: if_splits, auto)
  then show ?thesis
    using tc' st1(3) st2 by simp
qed

subsection \<open>The contract of a logger\<close>

text \<open>
  \<open>invar\<close> says that a sink is usable and \<open>received\<close> what it was given: a line of stream length
  is added whole, and a flush changes nothing.
\<close>

locale log_sink =
  fixes k :: "'s sink"
    and invar :: "'s \<Rightarrow> bool"
    and received :: "'s \<Rightarrow> bytes"
  assumes append: "invar s \<Longrightarrow> length x \<le> 4096 \<Longrightarrow> \<exists>s'. sink_append k x s = Some s' \<and> invar s' \<and> received s' = received s @ x"
    and flush: "invar s \<Longrightarrow> \<exists>s'. sink_flush k s = Some s' \<and> invar s' \<and> received s' = received s"
begin

lemma end_DLogMessage_correct:
  assumes "stream_ok st" "\<bar>line\<bar> < 2 ^ 64" "invar s"
  shows "\<exists>s'. end_DLogMessage k level filename line st s = Some (level = FATAL, s') \<and> invar s'
    \<and> received s' = received s
        @ fold spec_put (end_items filename line) (ls_content st)"
proof -
  let ?items = "end_items filename line"
  obtain st' where st': "put_all ?items st = Some st'" "stream_ok st'" "ls_content st' = fold spec_put ?items (ls_content st)"
    using put_all_correct [OF assms(1), of ?items] assms(2) by (auto simp: end_items_def)
  have c: "take (ls_length st') (ls_data st') = ls_content st'"
    by (simp add: ls_length_def ls_content_def)
  have "length (ls_content st') \<le> 4096"
    using st'(2) by (simp add: stream_ok_def ls_content_def)
  then obtain s1 where s1: "sink_append k (ls_content st') s = Some s1" "invar s1" "received s1 = received s @ ls_content st'"
    using append [OF assms(3)] by blast
  obtain s2 where s2: "sink_flush k s1 = Some s2" "invar s2" "received s2 = received s1"
    using flush [OF s1(2)] by blast
  show ?thesis
    using st'(1) s1 s2 unfolding st'(3) [symmetric] by (simp add: end_DLogMessage_def c del: put_all.simps)
qed

lemma end_LogMessage_correct:
  assumes "stream_ok st" "invar s"
  shows "\<exists>s'. end_LogMessage k st s = Some s' \<and> invar s'
    \<and> received s' = received s @ spec_put (Char (char_of (10 :: nat))) (ls_content st)"
proof -
  obtain st' where st': "put_all [Char (char_of (10 :: nat))] st = Some st'" "stream_ok st'"
    "ls_content st' = spec_put (Char (char_of (10 :: nat))) (ls_content st)"
    using put_all_correct [OF assms(1), of "[Char (char_of (10 :: nat))]"] by auto
  have c: "take (ls_length st') (ls_data st') = ls_content st'"
    by (simp add: ls_length_def ls_content_def)
  have "length (ls_content st') \<le> 4096"
    using st'(2) by (simp add: stream_ok_def ls_content_def)
  then show ?thesis
    using append [OF assms(2), of "ls_content st'"] st'(1,3) by (auto simp: end_LogMessage_def c simp del: put_all.simps)
qed

lemma DLogMessage_correct:
  assumes m: "message_ok lt now line c items tc" and s: "invar s"
  shows "\<exists>tc' s'. DLogMessage lt se k now filename line c items junk (tc, s) = Some (level_of c = FATAL, tc', s')
    \<and> invar s' \<and> received s' = received s @ message_text lt se now filename line c items
    \<and> t_time tc' = format_second (lt (fst now)) \<and> t_lastSecond tc' = fst now"
proof -
  obtain st1 tc' where h: "construct lt se now c (LogStream0 junk) tc = Some (st1, tc')" "stream_ok st1"
    "ls_content st1 = fold spec_put (time_items lt now (level_of c) @ ctor_items se c) []"
    "t_time tc' = format_second (lt (fst now))" "t_lastSecond tc' = fst now"
    using construct_correct [OF m LogStream0_ok(1), of se junk] unfolding LogStream0_ok(2) by blast
  have "list_all item_ok items" and line: "\<bar>line\<bar> < 2 ^ 64"
    using m by (simp_all add: message_ok_def)
  then obtain st2 where st2: "put_all items st1 = Some st2" "stream_ok st2" "ls_content st2 = fold spec_put items (ls_content st1)"
    using put_all_correct [OF h(2)] by blast
  obtain s' where s': "end_DLogMessage k (level_of c) filename line st2 s = Some (level_of c = FATAL, s')" "invar s'"
    "received s' = received s @ fold spec_put (end_items filename line) (ls_content st2)"
    using end_DLogMessage_correct [OF st2(2) line s] by blast
  have "fold spec_put (end_items filename line) (ls_content st2) = message_text lt se now filename line c items"
    by (simp add: st2(3) h(3) message_text_def message_items_def)
  then show ?thesis
    using h(1,4,5) st2(1) s' by (simp add: DLogMessage_def)
qed

end

subsection \<open>The two loggers\<close>

text \<open>
  The sink of a message is a pointer to a logger, which may be null: then the line goes to
  \<open>stdout\<close>, whose short writes are not retried.  The pointer to an \<open>AsyncLogger\<close> is its number;
  its \<open>flush\<close> does nothing.
\<close>

definition stdout_path :: string where
  "stdout_path = ''/dev/stdout''"

definition logger_sink :: "'w os \<Rightarrow> string \<Rightarrow> (logger option \<times> 'w) sink" where
  "logger_sink os dest =
     \<lparr>sink_append = (\<lambda>x (p, w). case p of
        None \<Rightarrow> Some (None, snd (os_fwrite os stdout_path x w))
      | Some l \<Rightarrow> do { (l', w') \<leftarrow> append_Logger os dest x l w; Some (Some l', w') }),
      sink_flush = (\<lambda>(p, w). case p of
        None \<Rightarrow> Some (None, os_fflush os stdout_path w)
      | Some l \<Rightarrow> do { (l', w') \<leftarrow> flush_Logger os l w; Some (Some l', w') })\<rparr>"

definition async_sink :: "'w os \<Rightarrow> (nat option \<times> 'w logging) sink" where
  "async_sink os =
     \<lparr>sink_append = (\<lambda>x (p, s). case p of
        None \<Rightarrow> Some (None, s\<lparr>world := snd (os_fwrite os stdout_path x (world s))\<rparr>)
      | Some i \<Rightarrow> do { s' \<leftarrow> append_logging i x s; Some (Some i, s') }),
      sink_flush = (\<lambda>(p, s). case p of
        None \<Rightarrow> Some (None, s\<lparr>world := os_fflush os stdout_path (world s)\<rparr>)
      | Some i \<Rightarrow> Some (Some i, s))\<rparr>"

definition logger_usable :: "'w os \<Rightarrow> ('w \<Rightarrow> bytes) \<Rightarrow> logger option \<times> 'w \<Rightarrow> bool" where
  "logger_usable os out s \<longleftrightarrow> os_ok os out \<and> (case fst s of None \<Rightarrow> False | Some l \<Rightarrow> rolling_ok l)"

interpretation file_log: log_sink "logger_sink os dest" "logger_usable os out" "\<lambda>s. out (snd s)" for os dest out
proof
  fix s :: "logger option \<times> 'a" and x :: bytes
  assume "logger_usable os out s"
  then obtain l w where s: "s = (Some l, w)" and ok: "os_ok os out" and l: "rolling_ok l"
    by (cases s) (auto simp: logger_usable_def split: option.splits)
  show "\<exists>s'. sink_append (logger_sink os dest) x s = Some s' \<and> logger_usable os out s' \<and> out (snd s') = out (snd s) @ x"
    using append_unlocked_correct [OF ok l, of dest x w] ok
    by (auto simp: s logger_sink_def append_Logger_eq logger_usable_def)
  show "\<exists>s'. sink_flush (logger_sink os dest) s = Some s' \<and> logger_usable os out s' \<and> out (snd s') = out (snd s)"
    using ok l os_okD(4) [OF ok]
    by (auto simp: s logger_sink_def flush_Logger_def flush_LogFile_def rolling_ok_def logger_usable_def)
qed

definition async_usable :: "nat option \<times> 'w logging \<Rightarrow> bool" where
  "async_usable s \<longleftrightarrow> fst s \<noteq> None \<and> logging_ok (snd s)"

definition async_pending :: "nat option \<times> 'w logging \<Rightarrow> bytes" where
  "async_pending s = (case fst s of None \<Rightarrow> [] | Some i \<Rightarrow> pending (logger_at (snd s) i))"

interpretation async_log: log_sink "async_sink os" async_usable async_pending for os
proof
  fix s :: "nat option \<times> 'a logging" and x :: bytes
  assume u: "async_usable s"
  then obtain i g where s: "s = (Some i, g)" and g: "logging_ok g"
    by (cases s) (auto simp: async_usable_def)
  show "\<exists>s'. sink_flush (async_sink os) s = Some s' \<and> async_usable s' \<and> async_pending s' = async_pending s"
    using u by (simp add: s async_sink_def)
  assume "length x \<le> 4096"
  then have len: "length x < async_kBufferSize"
    by (simp add: async_kBufferSize_def)
  obtain g' where "append_logging i x g = Some g'" "logging_ok g'"
    using append_logging_ok [OF g len] by blast
  moreover have "pending (logger_at g' i) = pending (logger_at g i) @ x"
    using append_logging_adds [OF g len] calculation(1) by blast
  ultimately show "\<exists>s'. sink_append (async_sink os) x s = Some s' \<and> async_usable s' \<and> async_pending s' = async_pending s @ x"
    by (simp add: s async_sink_def async_usable_def async_pending_def)
qed

subsection \<open>A message that fits\<close>

lemma fold_spec_put_fits:
  "length t + length (concat (map render xs)) \<le> 4064 \<Longrightarrow> fold spec_put xs t = t @ concat (map render xs)"
  by (induction xs arbitrary: t) (simp_all add: spec_put_def)

lemma takeWhile_text: "CHR 0x00 \<notin> set s \<Longrightarrow> takeWhile (\<lambda>c. c \<noteq> CHR 0x00) s = s"
  by (auto simp: takeWhile_eq_all_conv)

lemma digit_not_nul: "n < 10 \<Longrightarrow> CHR 0x00 \<noteq> char_of (48 + n :: nat)"
proof
  assume "n < 10" "CHR 0x00 = char_of (48 + n :: nat)"
  then have "of_char (CHR 0x00) = 48 + n"
    by (simp add: of_char_of)
  then show False by simp
qed

lemma dec_text: "CHR 0x00 \<notin> set (dec n)"
proof (induction n rule: dec.induct)
  case (1 n)
  then show ?case
    using digit_not_nul [of n] digit_not_nul [of "n mod 10"] by (subst dec.simps) auto
qed

lemma fmt_text: "CHR 0x00 \<notin> set (fmt_d w i)" "CHR 0x00 \<notin> set (fmt_0d w i)"
  by (auto simp: fmt_d_def fmt_0d_def pad_def dec_text)

lemma LogLevelName_text: "CHR 0x00 \<notin> set (LogLevelName level)"
  by (cases level) simp_all

lemma after_slash_text: "CHR 0x00 \<notin> set filename \<Longrightarrow> CHR 0x00 \<notin> set (after_slash filename)"
  by (auto simp: after_slash_def dest: set_takeWhileD)

lemma render_time_items:
  "concat (map render (time_items lt now level))
   = format_second (lt (fst now)) @ ''.'' @ fmt_0d 6 (snd now) @ '' '' @ LogLevelName level"
proof -
  have "CHR 0x00 \<notin> set (format_second (lt (fst now)))" "CHR 0x00 \<notin> set (''.'' @ fmt_0d 6 (snd now) @ '' '')"
    by (simp_all add: format_second_def fmt_text)
  note texts = this [THEN takeWhile_text] takeWhile_text [OF LogLevelName_text [of level]]
  show ?thesis
    by (simp add: time_items_def texts del: takeWhile_append append.simps)
qed

lemma render_end_items:
  "CHR 0x00 \<notin> set filename
   \<Longrightarrow> concat (map render (end_items filename line)) = '' - '' @ after_slash filename @ '':'' @ convert line @ [char_of (10 :: nat)]"
  by (simp add: end_items_def takeWhile_text after_slash_text)

text \<open>The line as it reads.\<close>

definition message_line ::
  "(int \<Rightarrow> tm) \<Rightarrow> (int \<Rightarrow> nat \<Rightarrow> string) \<Rightarrow> int \<times> int \<Rightarrow> string \<Rightarrow> int \<Rightarrow> message_ctor \<Rightarrow> item list \<Rightarrow> bytes" where
  "message_line lt se now filename line c items =
     format_second (lt (fst now)) @ ''.'' @ fmt_0d 6 (snd now) @ '' '' @ LogLevelName (level_of c)
       @ concat (map render (ctor_items se c @ items))
       @ '' - '' @ after_slash filename @ '':'' @ convert line @ [char_of (10 :: nat)]"

lemma message_text_fits:
  assumes "CHR 0x00 \<notin> set filename" "length (message_line lt se now filename line c items) \<le> 4064"
  shows "message_text lt se now filename line c items = message_line lt se now filename line c items"
proof -
  have eq: "concat (map render (message_items lt se now filename line c items)) = message_line lt se now filename line c items"
    unfolding message_items_def message_line_def map_append concat_append render_time_items render_end_items [OF assms(1)]
    by simp
  show ?thesis
    using fold_spec_put_fits [of "[]" "message_items lt se now filename line c items"] assms(2)
    by (simp add: message_text_def eq)
qed

text \<open>A message to an \<open>AsyncLogger\<close> writes nothing.\<close>

lemma append_logging_world: "append_logging i x g = Some g' \<Longrightarrow> world g' = world g"
  by (cases "place g") (auto simp: append_logging_def Let_def notify_one_def split: bind_splits if_splits)

lemma async_DLogMessage_world:
  assumes "DLogMessage lt se (async_sink os) now filename line c items junk (tc, (Some i, g)) = Some (b, tc', s')"
  shows "\<exists>g'. s' = (Some i, g') \<and> world g' = world g"
proof -
  obtain st st' where "end_DLogMessage (async_sink os) (level_of c) filename line st (Some i, g) = Some (b, s')"
    using assms by (auto simp: DLogMessage_def split: bind_splits)
  then show ?thesis
    by (auto simp: end_DLogMessage_def async_sink_def split: bind_splits if_splits dest: append_logging_world)
qed

definition demo_tm :: tm where
  "demo_tm = \<lparr>tm_sec = 5, tm_min = 4, tm_hour = 3, tm_mday = 2, tm_mon = 0, tm_year = 124, tm_wday = 2, tm_yday = 1,
     tm_isdst = 0, tm_gmtoff = 0, tm_zone = None\<rparr>"

lemma long_message_text:
  assumes m: "message_ok lt now line (Plain level) items tc" and x: "length x = 4064"
  shows "message_text lt se now filename line (Plain level) [String x]
    = format_second (lt (fst now)) @ ''.'' @ fmt_0d 6 (snd now) @ '' '' @ LogLevelName level @ x"
proof -
  let ?h = "concat (map render (time_items lt now level))"
  have "length (LogLevelName level) = 6"
    by (cases level) simp_all
  then have h: "length ?h = 31"
    using m fmt_0d_length [of "snd now" 5] unfolding render_time_items by (simp add: message_ok_def)
  have "fold spec_put (time_items lt now level) [] = ?h"
    using fold_spec_put_fits [of "[]" "time_items lt now level"] h by simp
  moreover have "fold spec_put (String x # end_items filename line) ?h = ?h @ x"
    using h x by (simp add: spec_put_def end_items_def)
  ultimately show ?thesis
    unfolding message_text_def message_items_def by (simp add: render_time_items)
qed

subsection \<open>Properties\<close>

text \<open>
  C20: a message of at most 4064 bytes reaches the log file whole: the local time to the
  microsecond, the level, the items in order, the source location and the end of the line, as one
  line behind everything written before; a fatal one then aborts.
\<close>

theorem message_line_written:
  assumes os: "os_ok os out" "rolling_ok l" and m: "message_ok lt now line c items tc"
    and n: "CHR 0x00 \<notin> set filename" and size: "length (message_line lt se now filename line c items) \<le> 4064"
  shows "\<exists>tc' l' w'. DLogMessage lt se (logger_sink os dest) now filename line c items junk (tc, (Some l, w))
      = Some (level_of c = FATAL, tc', (Some l', w'))
    \<and> rolling_ok l' \<and> out w' = out w @ message_line lt se now filename line c items"
proof -
  have "logger_usable os out (Some l, w)"
    using os by (simp add: logger_usable_def)
  from file_log.DLogMessage_correct [OF m this, of se dest filename junk]
  obtain tc' s' where d: "DLogMessage lt se (logger_sink os dest) now filename line c items junk (tc, (Some l, w))
      = Some (level_of c = FATAL, tc', s')" "logger_usable os out s'"
    "out (snd s') = out w @ message_text lt se now filename line c items"
    by auto
  then show ?thesis
    unfolding message_text_fits [OF n size] by (cases s') (auto simp: logger_usable_def split: option.splits)
qed

lemma demo_second: "format_second demo_tm = ''20240102 03:04:05''"
  by code_simp

lemma demo_message_ok:
  "message_ok (\<lambda>_. demo_tm) (1704164645, 42) 7 (Plain level) [] \<lparr>t_time = [], t_lastSecond = 0\<rparr>"
  by (simp add: message_ok_def demo_second)

lemma message_line_written_witness:
  "\<exists>tc' l' w'. DLogMessage (\<lambda>_. demo_tm) (\<lambda>_ _. ''?'') (logger_sink tick_os ''./'') (1704164645, 42) ''src/a.cpp'' 7 (Plain INFO) []
      CHR ''x'' (\<lparr>t_time = [], t_lastSecond = 0\<rparr>, (Some demo_logger, (200, [])))
     = Some (False, tc', (Some l', w'))
   \<and> snd w' = ''20240102 03:04:05.000042 INFO   - a.cpp:7'' @ [char_of (10 :: nat)]"
proof -
  have e: "message_line (\<lambda>_. demo_tm) (\<lambda>_ _. ''?'') (1704164645, 42) ''src/a.cpp'' 7 (Plain INFO) []
      = ''20240102 03:04:05.000042 INFO   - a.cpp:7'' @ [char_of (10 :: nat)]"
    by code_simp
  have "CHR 0x00 \<notin> set ''src/a.cpp''" by simp
  moreover have "length (message_line (\<lambda>_. demo_tm) (\<lambda>_ _. ''?'') (1704164645, 42) ''src/a.cpp'' 7 (Plain INFO) []) \<le> 4064"
    unfolding e by simp
  ultimately show ?thesis
    using message_line_written [OF tick_os_ok demo_logger_ok demo_message_ok [of INFO], of "''src/a.cpp''" "\<lambda>_ _. ''?''" "''./''" "CHR ''x''" "(200, [])"]
    unfolding e by auto
qed

text \<open>
  A message whose items fill the stream loses its end: with a text of 4064 bytes neither the
  location nor the line end is put, so that the next message follows on the same line.
\<close>

theorem long_message_loses_newline:
  assumes os: "os_ok os out" "rolling_ok l" and m: "message_ok lt now line (Plain level) [String x] tc"
    and x: "length x = 4064"
  shows "\<exists>tc' s'. DLogMessage lt se (logger_sink os dest) now filename line (Plain level) [String x] junk (tc, (Some l, w))
      = Some (level = FATAL, tc', s')
    \<and> out (snd s') = out w @ format_second (lt (fst now)) @ ''.'' @ fmt_0d 6 (snd now) @ '' '' @ LogLevelName level @ x"
proof -
  have "logger_usable os out (Some l, w)"
    using os by (simp add: logger_usable_def)
  from file_log.DLogMessage_correct [OF m this, of se dest filename junk] show ?thesis
    unfolding long_message_text [OF m x] by auto
qed

lemma long_message_loses_newline_witness:
  "\<exists>tc' s'. DLogMessage (\<lambda>_. demo_tm) (\<lambda>_ _. ''?'') (logger_sink tick_os ''./'') (1704164645, 42) ''a.cpp'' 7 (Plain INFO)
      [String (replicate 4064 CHR ''x'')] CHR ''y'' (\<lparr>t_time = [], t_lastSecond = 0\<rparr>, (Some demo_logger, (200, [])))
     = Some (False, tc', s')
   \<and> last (snd (snd s')) = CHR ''x''"
proof -
  let ?x = "replicate 4064 CHR ''x''"
  have m: "message_ok (\<lambda>_. demo_tm) (1704164645, 42) 7 (Plain INFO) [String ?x] \<lparr>t_time = [], t_lastSecond = 0\<rparr>"
    using demo_message_ok [of INFO] by (simp add: message_ok_def)
  have "length ?x = 4064" "last ?x = CHR ''x''" "?x \<noteq> []"
    by simp_all
  then show ?thesis
    using long_message_loses_newline [OF tick_os_ok demo_logger_ok m, of "\<lambda>_ _. ''?''" "''./''" "''a.cpp''" "CHR ''y''" "(200, [])"]
    by fastforce
qed

text \<open>
  A fatal message to an \<open>AsyncLogger\<close> is lost: \<open>flush\<close> does nothing, so the process aborts
  while the line, which was to say why, is still in the buffer and nothing has been written.
\<close>

theorem fatal_async_message_unwritten:
  assumes g: "logging_ok g" and m: "message_ok lt now line c items tc" and fatal: "level_of c = FATAL"
  shows "\<exists>tc' g'. DLogMessage lt se (async_sink os) now filename line c items junk (tc, (Some i, g)) = Some (True, tc', (Some i, g'))
    \<and> world g' = world g
    \<and> pending (logger_at g' i) = pending (logger_at g i) @ message_text lt se now filename line c items"
proof -
  have u: "async_usable (Some i, g)"
    using g by (simp add: async_usable_def)
  obtain tc' s' where d: "DLogMessage lt se (async_sink os) now filename line c items junk (tc, (Some i, g)) = Some (True, tc', s')"
    "async_pending s' = async_pending (Some i, g) @ message_text lt se now filename line c items"
    using async_log.DLogMessage_correct [OF m u, of se os filename junk] fatal by auto
  obtain g' where g': "s' = (Some i, g')" "world g' = world g"
    using async_DLogMessage_world [OF d(1)] by blast
  show ?thesis
    using d g' by (auto simp: async_pending_def)
qed

lemma fatal_async_message_unwritten_witness:
  "\<exists>tc' g'. DLogMessage (\<lambda>_. demo_tm) (\<lambda>_ _. ''?'') (async_sink tick_os) (1704164645, 42) ''a.cpp'' 7 (Plain FATAL) []
      CHR ''y'' (\<lparr>t_time = [], t_lastSecond = 0\<rparr>, (Some 3, start_logging (\<lambda>_. demo_alogger) (200, ''before'')))
     = Some (True, tc', (Some 3, g')) \<and> snd (world g') = ''before''"
proof -
  have g: "logging_ok (start_logging (\<lambda>_. demo_alogger) (200 :: int, ''before''))"
    by (rule start_ok) (rule demo_start)
  have "world (start_logging (\<lambda>_. demo_alogger) (200 :: int, ''before'')) = (200, ''before'')"
    by (simp add: start_logging_def)
  then show ?thesis
    using fatal_async_message_unwritten [OF g demo_message_ok [of FATAL], of "\<lambda>_ _. ''?''" tick_os "''a.cpp''" "CHR ''y''" 3]
    by fastforce
qed

end
