(* ===== verification/Sync.thy ===== *)
theory Sync
  imports Prelude
begin

section \<open>Queues and latches between threads (base/BlockingQueue.h, base/CountDownLatch.h, base/Singleton.h)\<close>

text \<open>
  Each operation runs under the mutex of its object, which only a wait on the condition variable
  gives up, so an operation, or the part of it up to a wait, is one step.  A thread inside a waiting
  operation is ready, when it has still to take the mutex and test the condition, or asleep on the
  condition variable; a sleeping thread can become ready at any time, by a notification or without.
\<close>

subsection \<open>BlockingQueue\<close>

record ('t, 'a) bqueue =
  bq_queue :: "'a list"
  bq_ready :: "'t set"
  bq_asleep :: "'t set"

definition bq_new :: "('t, 'a) bqueue" where
  "bq_new = \<lparr>bq_queue = [], bq_ready = {}, bq_asleep = {}\<rparr>"

text \<open>\<open>notify_one\<close> with the thread that the condition variable picks.\<close>

definition bq_notify :: "'t option \<Rightarrow> ('t, 'a) bqueue \<Rightarrow> ('t, 'a) bqueue" where
  "bq_notify who q =
     (case who of None \<Rightarrow> q
      | Some t \<Rightarrow> q\<lparr>bq_asleep := bq_asleep q - {t}, bq_ready := insert t (bq_ready q)\<rparr>)"

definition bq_put :: "'a \<Rightarrow> 't option \<Rightarrow> ('t, 'a) bqueue \<Rightarrow> ('t, 'a) bqueue" where
  "bq_put x who q = bq_notify who (q\<lparr>bq_queue := bq_queue q @ [x]\<rparr>)"

text \<open>A ready thread takes the mutex and tests: it goes to sleep, or returns the front.\<close>

definition bq_take :: "'t \<Rightarrow> ('t, 'a) bqueue \<Rightarrow> 'a option \<times> ('t, 'a) bqueue" where
  "bq_take t q =
     (case bq_queue q of
        [] \<Rightarrow> (None, q\<lparr>bq_ready := bq_ready q - {t}, bq_asleep := insert t (bq_asleep q)\<rparr>)
      | x # xs \<Rightarrow> (Some x, q\<lparr>bq_queue := xs, bq_ready := bq_ready q - {t}\<rparr>))"

definition bq_size :: "('t, 'a) bqueue \<Rightarrow> nat" where
  "bq_size q = length (bq_queue q)"

text \<open>The system, with what was put and what was taken as ghosts.\<close>

record ('t, 'a) bq_sys =
  bq :: "('t, 'a) bqueue"
  bq_puts :: "'a list"
  bq_got :: "('t \<times> 'a) list"

inductive bq_step :: "('t, 'a) bq_sys \<Rightarrow> ('t, 'a) bq_sys \<Rightarrow> bool" where
  call: "t \<notin> bq_ready (bq s) \<union> bq_asleep (bq s)
    \<Longrightarrow> bq_step s (s\<lparr>bq := (bq s)\<lparr>bq_ready := insert t (bq_ready (bq s))\<rparr>\<rparr>)"
| put: "(case who of None \<Rightarrow> bq_asleep (bq s) = {} | Some t \<Rightarrow> t \<in> bq_asleep (bq s))
    \<Longrightarrow> bq_step s (s\<lparr>bq := bq_put x who (bq s), bq_puts := bq_puts s @ [x]\<rparr>)"
| take: "t \<in> bq_ready (bq s) \<Longrightarrow> bq_take t (bq s) = (r, q)
    \<Longrightarrow> bq_step s (s\<lparr>bq := q, bq_got := bq_got s @ (case r of None \<Rightarrow> [] | Some x \<Rightarrow> [(t, x)])\<rparr>)"
| spurious: "t \<in> bq_asleep (bq s) \<Longrightarrow> bq_step s (s\<lparr>bq := bq_notify (Some t) (bq s)\<rparr>)"

inductive bq_reaches :: "('t, 'a) bq_sys \<Rightarrow> ('t, 'a) bq_sys \<Rightarrow> bool" where
  here: "bq_reaches s s"
| further: "bq_reaches s t \<Longrightarrow> bq_step t u \<Longrightarrow> bq_reaches s u"

definition bq_start :: "('t, 'a) bq_sys" where
  "bq_start = \<lparr>bq = bq_new, bq_puts = [], bq_got = []\<rparr>"

text \<open>No wake-up is lost: while threads sleep, there is a ready one for every element.\<close>

definition bq_ok :: "('t, 'a) bq_sys \<Rightarrow> bool" where
  "bq_ok s \<longleftrightarrow> finite (bq_ready (bq s)) \<and> bq_ready (bq s) \<inter> bq_asleep (bq s) = {}
     \<and> bq_puts s = map snd (bq_got s) @ bq_queue (bq s)
     \<and> (bq_asleep (bq s) \<noteq> {} \<longrightarrow> length (bq_queue (bq s)) \<le> card (bq_ready (bq s)))"

lemma bq_step_ok:
  assumes "bq_step s s'" "bq_ok s"
  shows "bq_ok s'"
  using assms(1)
proof cases
  case (call t)
  then show ?thesis
    using assms(2) by (auto simp: bq_ok_def card_insert_if)
next
  case (put who x)
  then show ?thesis
    using assms(2) by (cases who) (auto simp: bq_ok_def bq_put_def bq_notify_def card_insert_if)
next
  case (take t r q)
  then show ?thesis
    using assms(2) card_Diff_singleton [of t "bq_ready (bq s)"]
    by (cases "bq_queue (bq s)") (auto simp: bq_ok_def bq_take_def)
next
  case (spurious t)
  then show ?thesis
    using assms(2) by (auto simp: bq_ok_def bq_notify_def card_insert_if)
qed

lemma bq_reaches_ok: "bq_reaches s t \<Longrightarrow> bq_ok s \<Longrightarrow> bq_ok t"
  by (induction rule: bq_reaches.induct) (auto dest: bq_step_ok)

subsection \<open>CountDownLatch\<close>

text \<open>The count is an \<open>int\<close>: counting down from its least value is undefined.\<close>

record 't latch =
  lt_count :: int
  lt_ready :: "'t set"
  lt_asleep :: "'t set"

definition lt_new :: "int \<Rightarrow> 't latch" where
  "lt_new n = \<lparr>lt_count = n, lt_ready = {}, lt_asleep = {}\<rparr>"

definition lt_wait :: "'t \<Rightarrow> 't latch \<Rightarrow> bool \<times> 't latch" where
  "lt_wait t l =
     (if lt_count l > 0 then (False, l\<lparr>lt_ready := lt_ready l - {t}, lt_asleep := insert t (lt_asleep l)\<rparr>)
      else (True, l\<lparr>lt_ready := lt_ready l - {t}\<rparr>))"

definition countDown :: "'t latch \<Rightarrow> 't latch option" where
  "countDown l =
     (if lt_count l = - (2 ^ 31) then None
      else let l1 = l\<lparr>lt_count := lt_count l - 1\<rparr> in
        Some (if lt_count l1 = 0 then l1\<lparr>lt_ready := lt_ready l1 \<union> lt_asleep l1, lt_asleep := {}\<rparr> else l1))"

definition lt_getCount :: "'t latch \<Rightarrow> int" where
  "lt_getCount l = lt_count l"

record 't lt_sys =
  lt :: "'t latch"
  lt_downs :: nat
  lt_returned :: "'t list"

inductive lt_step :: "'t lt_sys \<Rightarrow> 't lt_sys \<Rightarrow> bool" where
  call: "t \<notin> lt_ready (lt s) \<union> lt_asleep (lt s)
    \<Longrightarrow> lt_step s (s\<lparr>lt := (lt s)\<lparr>lt_ready := insert t (lt_ready (lt s))\<rparr>\<rparr>)"
| test: "t \<in> lt_ready (lt s) \<Longrightarrow> lt_wait t (lt s) = (b, l)
    \<Longrightarrow> lt_step s (s\<lparr>lt := l, lt_returned := lt_returned s @ (if b then [t] else [])\<rparr>)"
| down: "countDown (lt s) = Some l \<Longrightarrow> lt_step s (s\<lparr>lt := l, lt_downs := lt_downs s + 1\<rparr>)"
| spurious: "t \<in> lt_asleep (lt s)
    \<Longrightarrow> lt_step s (s\<lparr>lt := (lt s)\<lparr>lt_asleep := lt_asleep (lt s) - {t}, lt_ready := insert t (lt_ready (lt s))\<rparr>\<rparr>)"

inductive lt_reaches :: "'t lt_sys \<Rightarrow> 't lt_sys \<Rightarrow> bool" where
  here: "lt_reaches s s"
| further: "lt_reaches s t \<Longrightarrow> lt_step t u \<Longrightarrow> lt_reaches s u"

definition lt_start :: "int \<Rightarrow> 't lt_sys" where
  "lt_start n = \<lparr>lt = lt_new n, lt_downs = 0, lt_returned = []\<rparr>"

definition lt_ok :: "int \<Rightarrow> 't lt_sys \<Rightarrow> bool" where
  "lt_ok n s \<longleftrightarrow> lt_count (lt s) = n - int (lt_downs s) \<and> (lt_returned s \<noteq> [] \<longrightarrow> n \<le> int (lt_downs s))
     \<and> (lt_asleep (lt s) \<noteq> {} \<longrightarrow> int (lt_downs s) < n)"

lemma lt_step_ok: "lt_step s s' \<Longrightarrow> lt_ok n s \<Longrightarrow> lt_ok n s'"
  by (induction rule: lt_step.induct) (auto simp: lt_ok_def lt_wait_def countDown_def Let_def split: if_splits)

lemma lt_reaches_ok: "lt_reaches s t \<Longrightarrow> lt_ok n s \<Longrightarrow> lt_ok n t"
  by (induction rule: lt_reaches.induct) (auto dest: lt_step_ok)

subsection \<open>Singleton\<close>

text \<open>
  The instance is created by the first call, exactly once, and deleted at exit: a use after that
  is of a deleted object.  The argument is the object that a first call would allocate.
\<close>

record 'a singleton =
  s_once :: bool
  s_value :: "'a option"
  at_exit :: nat

definition singleton_start :: "'a singleton" where
  "singleton_start = \<lparr>s_once = False, s_value = None, at_exit = 0\<rparr>"

definition singleton_init :: "'a \<Rightarrow> 'a singleton \<Rightarrow> 'a singleton" where
  "singleton_init v s = s\<lparr>s_value := Some v, at_exit := at_exit s + 1\<rparr>"

definition getInstance :: "'a \<Rightarrow> 'a singleton \<Rightarrow> ('a \<times> 'a singleton) option" where
  "getInstance fresh s =
     (let s1 = (if s_once s then s else (singleton_init fresh s)\<lparr>s_once := True\<rparr>)
      in case s_value s1 of None \<Rightarrow> None | Some v \<Rightarrow> Some (v, s1))"

definition singleton_destroy :: "'a singleton \<Rightarrow> 'a singleton" where
  "singleton_destroy s = s\<lparr>s_value := None\<rparr>"

text \<open>Any number of calls see the one object that the first created, and it is registered once for deletion.\<close>

fun getInstances :: "'a list \<Rightarrow> 'a singleton \<Rightarrow> ('a list \<times> 'a singleton) option" where
  "getInstances [] s = Some ([], s)"
| "getInstances (m # ms) s = do {
     (v, s1) \<leftarrow> getInstance m s;
     (vs, s2) \<leftarrow> getInstances ms s1;
     Some (v # vs, s2) }"

lemma getInstances_created:
  "s_once s \<Longrightarrow> s_value s = Some v \<Longrightarrow> getInstances ms s = Some (replicate (length ms) v, s)"
  by (induction ms) (simp_all add: getInstance_def)

lemma singleton_unique:
  "getInstances (m # ms) singleton_start
     = Some (replicate (Suc (length ms)) m, \<lparr>s_once = True, s_value = Some m, at_exit = 1\<rparr>)"
  by (simp add: getInstance_def singleton_init_def singleton_start_def getInstances_created)

subsection \<open>Properties\<close>

text \<open>
  C29: a blocking queue hands out what was put, in order and each element once, whatever the threads
  and the condition variable do; and it loses no wake-up: while threads sleep, there are at least as
  many ready takers as elements, so no taker sleeps beside an element that nobody is about to take.
\<close>

theorem blocking_queue_correct:
  assumes "bq_reaches bq_start s"
  shows "bq_puts s = map snd (bq_got s) @ bq_queue (bq s)
    \<and> (bq_asleep (bq s) \<noteq> {} \<longrightarrow> bq_size (bq s) \<le> card (bq_ready (bq s)))
    \<and> (t \<in> bq_ready (bq s) \<and> bq_queue (bq s) = x # xs \<longrightarrow> fst (bq_take t (bq s)) = Some x)"
proof -
  have "bq_ok (bq_start :: ('a, 'b) bq_sys)"
    by (simp add: bq_ok_def bq_start_def bq_new_def)
  then have "bq_ok s"
    by (rule bq_reaches_ok [OF assms])
  then show ?thesis
    by (simp add: bq_ok_def bq_size_def bq_take_def)
qed

lemma blocking_queue_correct_witness:
  "\<exists>s :: (nat, char) bq_sys. bq_reaches bq_start s \<and> bq_puts s = ''a'' \<and> bq_asleep (bq s) = {} \<and> 1 \<in> bq_ready (bq s)
     \<and> bq_puts s = map snd (bq_got s) @ bq_queue (bq s)"
proof -
  define s0 :: "(nat, char) bq_sys" where "s0 = bq_start"
  define s1 where "s1 = s0\<lparr>bq := (bq s0)\<lparr>bq_ready := insert 1 (bq_ready (bq s0))\<rparr>\<rparr>"
  define s2 where "s2 = s1\<lparr>bq := snd (bq_take 1 (bq s1)), bq_got := bq_got s1 @ []\<rparr>"
  define s3 where "s3 = s2\<lparr>bq := bq_put (CHR ''a'') (Some 1) (bq s2), bq_puts := bq_puts s2 @ [CHR ''a'']\<rparr>"
  note defs = s0_def s1_def s2_def s3_def bq_start_def bq_new_def bq_take_def bq_put_def bq_notify_def
  have "bq_step s0 s1"
    unfolding s1_def by (rule bq_step.call) (simp add: s0_def bq_start_def bq_new_def)
  moreover have "bq_step s1 s2"
    using bq_step.take [of 1 s1 None "snd (bq_take 1 (bq s1))"] by (simp add: defs)
  moreover have "bq_step s2 s3"
    unfolding s3_def by (rule bq_step.put) (simp add: defs)
  ultimately have r: "bq_reaches bq_start s3"
    unfolding s0_def by (meson bq_reaches.intros)
  then show ?thesis
    using blocking_queue_correct [OF r] by (intro exI [of _ s3]) (simp add: defs)
qed

text \<open>
  C18: a latch of \<open>n\<close> lets nobody through before it was counted down \<open>n\<close> times, and from then on no
  thread sleeps at it: every waiting thread is ready and passes at its next step.
\<close>

theorem latch_correct:
  assumes "lt_reaches (lt_start n) s"
  shows "lt_getCount (lt s) = n - int (lt_downs s)
    \<and> (lt_returned s \<noteq> [] \<longrightarrow> n \<le> int (lt_downs s))
    \<and> (n \<le> int (lt_downs s) \<longrightarrow> lt_asleep (lt s) = {} \<and> fst (lt_wait t (lt s)))"
proof -
  have "lt_ok n (lt_start n :: 'a lt_sys)"
    by (simp add: lt_ok_def lt_start_def lt_new_def)
  then have "lt_ok n s"
    by (rule lt_reaches_ok [OF assms])
  then show ?thesis
    by (auto simp: lt_ok_def lt_wait_def lt_getCount_def)
qed

lemma latch_correct_witness:
  "\<exists>s :: nat lt_sys. lt_reaches (lt_start 1) s \<and> lt_downs s = 1 \<and> lt_asleep (lt s) = {} \<and> fst (lt_wait 4 (lt s))"
proof -
  define s1 :: "nat lt_sys" where "s1 = (lt_start 1)\<lparr>lt := (lt_new 1)\<lparr>lt_count := 0\<rparr>, lt_downs := 1\<rparr>"
  have "lt_step (lt_start 1) s1"
    using lt_step.down [of "lt_start 1" "(lt_new 1)\<lparr>lt_count := 0\<rparr>"]
    by (simp add: s1_def lt_start_def lt_new_def countDown_def Let_def)
  then have r: "lt_reaches (lt_start 1) s1"
    by (meson lt_reaches.intros)
  moreover have "lt_downs s1 = 1"
    by (simp add: s1_def)
  ultimately show ?thesis
    using latch_correct [OF r, of 4] by auto
qed

end
