(* ===== verification/BoundedQueue.thy ===== *)
theory BoundedQueue
  imports Prelude
begin

section \<open>The bounded queue (base/BoundedBlockingQueue.h)\<close>

text \<open>
  The class does not compile: \<open>put\<close> asks the \<open>std::deque\<close> for a member \<open>full\<close> that it does not have, and
  \<open>take\<close> waits without passing the lock.  It is modelled as it reads, with the missing member a
  parameter \<open>deque_full\<close> and the wait one that releases the mutex, like the other wait of the class.
  Steps and threads are as in \<open>BlockingQueue\<close>; there are two condition variables, on which takers
  (\<open>ne\<close>) and putters (\<open>nf\<close>) sleep.
\<close>

subsection \<open>Operations\<close>

record ('t, 'a) bbqueue =
  bb_queue :: "'a list"
  bb_capacity :: nat
  ne_ready :: "'t set"
  ne_asleep :: "'t set"
  nf_ready :: "'t set"
  nf_asleep :: "'t set"

definition bb_new :: "nat \<Rightarrow> ('t, 'a) bbqueue" where
  "bb_new cap = \<lparr>bb_queue = [], bb_capacity = cap, ne_ready = {}, ne_asleep = {}, nf_ready = {}, nf_asleep = {}\<rparr>"

definition notify_not_empty :: "'t option \<Rightarrow> ('t, 'a) bbqueue \<Rightarrow> ('t, 'a) bbqueue" where
  "notify_not_empty who q =
     (case who of None \<Rightarrow> q | Some t \<Rightarrow> q\<lparr>ne_asleep := ne_asleep q - {t}, ne_ready := insert t (ne_ready q)\<rparr>)"

definition notify_not_full :: "'t option \<Rightarrow> ('t, 'a) bbqueue \<Rightarrow> ('t, 'a) bbqueue" where
  "notify_not_full who q =
     (case who of None \<Rightarrow> q | Some t \<Rightarrow> q\<lparr>nf_asleep := nf_asleep q - {t}, nf_ready := insert t (nf_ready q)\<rparr>)"

text \<open>A ready putter or taker has the mutex and tests: it goes to sleep, or does its work.\<close>

definition bb_put :: "('a list \<Rightarrow> bool) \<Rightarrow> 't \<Rightarrow> 'a \<Rightarrow> 't option \<Rightarrow> ('t, 'a) bbqueue \<Rightarrow> bool \<times> ('t, 'a) bbqueue" where
  "bb_put deque_full t x who q =
     (if deque_full (bb_queue q)
      then (False, q\<lparr>nf_ready := nf_ready q - {t}, nf_asleep := insert t (nf_asleep q)\<rparr>)
      else (True, notify_not_empty who (q\<lparr>bb_queue := bb_queue q @ [x], nf_ready := nf_ready q - {t}\<rparr>)))"

definition bb_take :: "'t \<Rightarrow> 't option \<Rightarrow> ('t, 'a) bbqueue \<Rightarrow> 'a option \<times> ('t, 'a) bbqueue" where
  "bb_take t who q =
     (case bb_queue q of
        [] \<Rightarrow> (None, q\<lparr>ne_ready := ne_ready q - {t}, ne_asleep := insert t (ne_asleep q)\<rparr>)
      | x # xs \<Rightarrow> (Some x, notify_not_full who (q\<lparr>bb_queue := xs, ne_ready := ne_ready q - {t}\<rparr>)))"

definition bb_empty :: "('t, 'a) bbqueue \<Rightarrow> bool" where
  "bb_empty q \<longleftrightarrow> bb_queue q = []"

definition bb_full :: "('t, 'a) bbqueue \<Rightarrow> bool" where
  "bb_full q \<longleftrightarrow> length (bb_queue q) \<ge> bb_capacity q"

definition bb_size :: "('t, 'a) bbqueue \<Rightarrow> nat" where
  "bb_size q = length (bb_queue q)"

definition bb_getCapacity :: "('t, 'a) bbqueue \<Rightarrow> nat" where
  "bb_getCapacity q = bb_capacity q"

subsection \<open>Threads\<close>

text \<open>The element that a putter was called with, and what was put and taken, are ghosts.\<close>

record ('t, 'a) bb_sys =
  bb :: "('t, 'a) bbqueue"
  bb_arg :: "'t \<Rightarrow> 'a"
  bb_puts :: "'a list"
  bb_got :: "('t \<times> 'a) list"

definition idle :: "'t \<Rightarrow> ('t, 'a) bbqueue \<Rightarrow> bool" where
  "idle t q \<longleftrightarrow> t \<notin> ne_ready q \<union> ne_asleep q \<union> nf_ready q \<union> nf_asleep q"

definition picks :: "'t option \<Rightarrow> 't set \<Rightarrow> bool" where
  "picks who sleepers \<longleftrightarrow> (case who of None \<Rightarrow> sleepers = {} | Some t \<Rightarrow> t \<in> sleepers)"

inductive bb_step :: "('a list \<Rightarrow> bool) \<Rightarrow> ('t, 'a) bb_sys \<Rightarrow> ('t, 'a) bb_sys \<Rightarrow> bool" for deque_full where
  call_put: "idle t (bb s) \<Longrightarrow> bb_step deque_full s
    (s\<lparr>bb := (bb s)\<lparr>nf_ready := insert t (nf_ready (bb s))\<rparr>, bb_arg := (bb_arg s)(t := x)\<rparr>)"
| call_take: "idle t (bb s) \<Longrightarrow> bb_step deque_full s (s\<lparr>bb := (bb s)\<lparr>ne_ready := insert t (ne_ready (bb s))\<rparr>\<rparr>)"
| put: "t \<in> nf_ready (bb s) \<Longrightarrow> picks who (ne_asleep (bb s)) \<Longrightarrow> bb_put deque_full t (bb_arg s t) who (bb s) = (b, q)
    \<Longrightarrow> bb_step deque_full s (s\<lparr>bb := q, bb_puts := bb_puts s @ (if b then [bb_arg s t] else [])\<rparr>)"
| take: "t \<in> ne_ready (bb s) \<Longrightarrow> picks who (nf_asleep (bb s)) \<Longrightarrow> bb_take t who (bb s) = (r, q)
    \<Longrightarrow> bb_step deque_full s (s\<lparr>bb := q, bb_got := bb_got s @ (case r of None \<Rightarrow> [] | Some x \<Rightarrow> [(t, x)])\<rparr>)"
| spurious_take: "t \<in> ne_asleep (bb s) \<Longrightarrow> bb_step deque_full s (s\<lparr>bb := notify_not_empty (Some t) (bb s)\<rparr>)"
| spurious_put: "t \<in> nf_asleep (bb s) \<Longrightarrow> bb_step deque_full s (s\<lparr>bb := notify_not_full (Some t) (bb s)\<rparr>)"

inductive bb_reaches :: "('a list \<Rightarrow> bool) \<Rightarrow> ('t, 'a) bb_sys \<Rightarrow> ('t, 'a) bb_sys \<Rightarrow> bool" for deque_full where
  here: "bb_reaches deque_full s s"
| further: "bb_reaches deque_full s t \<Longrightarrow> bb_step deque_full t u \<Longrightarrow> bb_reaches deque_full s u"

definition bb_start :: "nat \<Rightarrow> (nat \<Rightarrow> 'a) \<Rightarrow> (nat, 'a) bb_sys" where
  "bb_start cap arg = \<lparr>bb = bb_new cap, bb_arg = arg, bb_puts = [], bb_got = []\<rparr>"

text \<open>
  The invariant: the bound, the order, and for each condition variable that while threads sleep on
  it there is a ready one for every element, or for every free place.
\<close>

definition bb_ok :: "nat \<Rightarrow> ('t, 'a) bb_sys \<Rightarrow> bool" where
  "bb_ok cap s \<longleftrightarrow> bb_capacity (bb s) = cap \<and> length (bb_queue (bb s)) \<le> cap
     \<and> bb_puts s = map snd (bb_got s) @ bb_queue (bb s)
     \<and> finite (ne_ready (bb s)) \<and> ne_ready (bb s) \<inter> ne_asleep (bb s) = {}
     \<and> finite (nf_ready (bb s)) \<and> nf_ready (bb s) \<inter> nf_asleep (bb s) = {}
     \<and> (ne_asleep (bb s) \<noteq> {} \<longrightarrow> length (bb_queue (bb s)) \<le> card (ne_ready (bb s)))
     \<and> (nf_asleep (bb s) \<noteq> {} \<longrightarrow> cap \<le> length (bb_queue (bb s)) + card (nf_ready (bb s)))"

lemma bb_step_ok:
  assumes "bb_step (\<lambda>q. cap \<le> length q) s s'" "bb_ok cap s"
  shows "bb_ok cap s'"
  using assms(1)
proof cases
  case (call_put t x)
  then show ?thesis
    using assms(2) by (auto simp: bb_ok_def idle_def card_insert_if)
next
  case (call_take t)
  then show ?thesis
    using assms(2) by (auto simp: bb_ok_def idle_def card_insert_if)
next
  case (put t who b q)
  have c: "card (nf_ready (bb s) - {t}) = card (nf_ready (bb s)) - 1" "0 < card (nf_ready (bb s))"
    using put(2) assms(2) by (auto simp: bb_ok_def card_gt_0_iff)
  show ?thesis
  proof (cases "cap \<le> length (bb_queue (bb s))")
    case True
    then show ?thesis
      using put assms(2) by (auto simp: bb_ok_def bb_put_def)
  next
    case False
    then have q: "b" "q = notify_not_empty who ((bb s)\<lparr>bb_queue := bb_queue (bb s) @ [bb_arg s t], nf_ready := nf_ready (bb s) - {t}\<rparr>)"
      using put(4) by (simp_all add: bb_put_def)
    have n: "nf_asleep (bb s) \<noteq> {} \<Longrightarrow> cap \<le> Suc (length (bb_queue (bb s))) + card (nf_ready (bb s) - {t})"
      using assms(2) c by (auto simp: bb_ok_def)
    show ?thesis
    proof (cases who)
      case None
      then show ?thesis
        using put(1,3) q False n assms(2) by (auto simp: bb_ok_def notify_not_empty_def picks_def)
    next
      case (Some u)
      then have "u \<notin> ne_ready (bb s)" "u \<in> ne_asleep (bb s)"
        using put(3) assms(2) by (auto simp: bb_ok_def picks_def)
      then show ?thesis
        using Some put(1) q False n assms(2) by (auto simp: bb_ok_def notify_not_empty_def)
    qed
  qed
next
  case (take t who r q)
  have c: "card (ne_ready (bb s) - {t}) = card (ne_ready (bb s)) - 1" "0 < card (ne_ready (bb s))"
    using take(2) assms(2) by (auto simp: bb_ok_def card_gt_0_iff)
  show ?thesis
  proof (cases "bb_queue (bb s)")
    case Nil
    then show ?thesis
      using take assms(2) by (auto simp: bb_ok_def bb_take_def)
  next
    case (Cons x xs)
    then have q: "r = Some x" "q = notify_not_full who ((bb s)\<lparr>bb_queue := xs, ne_ready := ne_ready (bb s) - {t}\<rparr>)"
      using take(4) by (simp_all add: bb_take_def)
    have n: "ne_asleep (bb s) \<noteq> {} \<Longrightarrow> length xs \<le> card (ne_ready (bb s) - {t})"
      using assms(2) c Cons by (auto simp: bb_ok_def)
    show ?thesis
    proof (cases who)
      case None
      then show ?thesis
        using take(1,3) q Cons n assms(2) by (auto simp: bb_ok_def notify_not_full_def picks_def)
    next
      case (Some u)
      then have "u \<notin> nf_ready (bb s)" "u \<in> nf_asleep (bb s)"
        using take(3) assms(2) by (auto simp: bb_ok_def picks_def)
      then show ?thesis
        using Some take(1) q Cons n assms(2) by (auto simp: bb_ok_def notify_not_full_def)
    qed
  qed
next
  case (spurious_take t)
  then show ?thesis
    using assms(2) by (auto simp: bb_ok_def notify_not_empty_def card_insert_if)
next
  case (spurious_put t)
  then show ?thesis
    using assms(2) by (auto simp: bb_ok_def notify_not_full_def card_insert_if)
qed

text \<open>
  If the deque answered as the class's own \<open>full\<close> does, the queue would never exceed its capacity,
  hand out what was put in order and once, and lose no wake-up of either kind.
\<close>

theorem bounded_queue_correct:
  assumes "bb_reaches (\<lambda>q. cap \<le> length q) (bb_start cap arg) s"
  shows "bb_size (bb s) \<le> bb_getCapacity (bb s) \<and> bb_getCapacity (bb s) = cap
    \<and> bb_puts s = map snd (bb_got s) @ bb_queue (bb s)
    \<and> (ne_asleep (bb s) \<noteq> {} \<longrightarrow> bb_size (bb s) \<le> card (ne_ready (bb s)))
    \<and> (nf_asleep (bb s) \<noteq> {} \<longrightarrow> cap \<le> bb_size (bb s) + card (nf_ready (bb s)))
    \<and> (bb_full (bb s) \<longleftrightarrow> bb_size (bb s) = cap)"
proof -
  have "bb_ok cap (bb_start cap arg)"
    by (simp add: bb_ok_def bb_start_def bb_new_def)
  moreover have "bb_ok cap t" if "bb_reaches (\<lambda>q. cap \<le> length q) s0 t" "bb_ok cap s0" for s0 t
    using that by (induction rule: bb_reaches.induct) (auto dest: bb_step_ok)
  ultimately have "bb_ok cap s"
    using assms by blast
  then show ?thesis
    by (auto simp: bb_ok_def bb_size_def bb_getCapacity_def bb_full_def)
qed

end
