(* ===== verification/Atomic.thy ===== *)
theory Atomic
  imports Prelude
begin

section \<open>Atomic integers (base/Atomic.h)\<close>

text \<open>
  \<open>AtomicInt32\<close> and \<open>AtomicInt64\<close> are the same class at two widths.  Each builtin of the compiler is
  one atomic step on the stored word, which wraps around; an operation returns the value it read and
  the new word.  The sum in \<open>addAndGet\<close> is one of signed integers, whose overflow is undefined:
  the result is then \<open>None\<close>.
\<close>

subsection \<open>The builtins\<close>

definition val_compare_and_swap :: "'l::len word \<Rightarrow> 'l word \<Rightarrow> 'l word \<Rightarrow> 'l word \<times> 'l word" where
  "val_compare_and_swap old new v = (v, if v = old then new else v)"

definition fetch_and_add :: "'l::len word \<Rightarrow> 'l word \<Rightarrow> 'l word \<times> 'l word" where
  "fetch_and_add x v = (v, v + x)"

definition lock_test_and_set :: "'l::len word \<Rightarrow> 'l word \<Rightarrow> 'l word \<times> 'l word" where
  "lock_test_and_set x v = (v, x)"

definition signed_add :: "'l::len word \<Rightarrow> 'l word \<Rightarrow> 'l word option" where
  "signed_add a b = (if - (2 ^ (LENGTH('l) - 1)) \<le> sint a + sint b \<and> sint a + sint b < 2 ^ (LENGTH('l) - 1) then Some (a + b) else None)"

subsection \<open>AtomicInt32\<close>

definition AtomicInt32 :: "32 word" where
  "AtomicInt32 = 0"

definition get32 :: "32 word \<Rightarrow> 32 word \<times> 32 word" where
  "get32 v = val_compare_and_swap 0 0 v"

definition getAndAdd32 :: "32 word \<Rightarrow> 32 word \<Rightarrow> 32 word \<times> 32 word" where
  "getAndAdd32 x v = fetch_and_add x v"

definition addAndGet32 :: "32 word \<Rightarrow> 32 word \<Rightarrow> (32 word \<times> 32 word) option" where
  "addAndGet32 x v = (case getAndAdd32 x v of (old, v') \<Rightarrow> map_option (\<lambda>r. (r, v')) (signed_add old x))"

definition incrementAndGet32 :: "32 word \<Rightarrow> (32 word \<times> 32 word) option" where
  "incrementAndGet32 v = addAndGet32 1 v"

definition decrementAndGet32 :: "32 word \<Rightarrow> (32 word \<times> 32 word) option" where
  "decrementAndGet32 v = addAndGet32 (- 1) v"

definition add32 :: "32 word \<Rightarrow> 32 word \<Rightarrow> 32 word" where
  "add32 x v = snd (getAndAdd32 x v)"

definition increment32 :: "32 word \<Rightarrow> 32 word option" where
  "increment32 v = map_option snd (incrementAndGet32 v)"

definition decrement32 :: "32 word \<Rightarrow> 32 word option" where
  "decrement32 v = map_option snd (decrementAndGet32 v)"

definition getAndSet32 :: "32 word \<Rightarrow> 32 word \<Rightarrow> 32 word \<times> 32 word" where
  "getAndSet32 x v = lock_test_and_set x v"

subsection \<open>AtomicInt64\<close>

definition AtomicInt64 :: "64 word" where
  "AtomicInt64 = 0"

definition get64 :: "64 word \<Rightarrow> 64 word \<times> 64 word" where
  "get64 v = val_compare_and_swap 0 0 v"

definition getAndAdd64 :: "64 word \<Rightarrow> 64 word \<Rightarrow> 64 word \<times> 64 word" where
  "getAndAdd64 x v = fetch_and_add x v"

definition addAndGet64 :: "64 word \<Rightarrow> 64 word \<Rightarrow> (64 word \<times> 64 word) option" where
  "addAndGet64 x v = (case getAndAdd64 x v of (old, v') \<Rightarrow> map_option (\<lambda>r. (r, v')) (signed_add old x))"

definition incrementAndGet64 :: "64 word \<Rightarrow> (64 word \<times> 64 word) option" where
  "incrementAndGet64 v = addAndGet64 1 v"

definition decrementAndGet64 :: "64 word \<Rightarrow> (64 word \<times> 64 word) option" where
  "decrementAndGet64 v = addAndGet64 (- 1) v"

definition add64 :: "64 word \<Rightarrow> 64 word \<Rightarrow> 64 word" where
  "add64 x v = snd (getAndAdd64 x v)"

definition increment64 :: "64 word \<Rightarrow> 64 word option" where
  "increment64 v = map_option snd (incrementAndGet64 v)"

definition decrement64 :: "64 word \<Rightarrow> 64 word option" where
  "decrement64 v = map_option snd (decrementAndGet64 v)"

definition getAndSet64 :: "64 word \<Rightarrow> 64 word \<Rightarrow> 64 word \<times> 64 word" where
  "getAndSet64 x v = lock_test_and_set x v"

subsection \<open>Sequences of operations\<close>

text \<open>Any interleaving of atomic operations is some sequence of them.\<close>

fun add_all32 :: "32 word list \<Rightarrow> 32 word \<Rightarrow> 32 word list \<times> 32 word" where
  "add_all32 [] v = ([], v)"
| "add_all32 (x # xs) v = (case getAndAdd32 x v of (old, v') \<Rightarrow> case add_all32 xs v' of (olds, v'') \<Rightarrow> (old # olds, v''))"

fun increments32 :: "nat \<Rightarrow> 32 word \<Rightarrow> (32 word list \<times> 32 word) option" where
  "increments32 0 v = Some ([], v)"
| "increments32 (Suc n) v = do {
     (r, v') \<leftarrow> incrementAndGet32 v;
     (rs, v'') \<leftarrow> increments32 n v';
     Some (r # rs, v'') }"

lemma add_all32_sum: "snd (add_all32 xs v) = v + sum_list xs"
  by (induction xs arbitrary: v) (auto simp: getAndAdd32_def fetch_and_add_def split: prod.splits, metis add.assoc snd_conv)

lemma sint_of_small: "k < 2 ^ 31 \<Longrightarrow> sint (of_nat k :: 32 word) = int k"
  by (simp add: signed_of_nat signed_take_bit_int_eq_self)

lemma increment_small:
  assumes "k + 1 < 2 ^ 31"
  shows "incrementAndGet32 (of_nat k) = Some (of_nat (k + 1), of_nat (k + 1))"
  using assms sint_of_small [of k]
  by (simp add: incrementAndGet32_def addAndGet32_def getAndAdd32_def fetch_and_add_def signed_add_def add.commute)

lemma increments32_from:
  "k + n < 2 ^ 31 \<Longrightarrow> increments32 n (of_nat k) = Some (map of_nat [k + 1..<k + n + 1], of_nat (k + n))"
proof (induction n arbitrary: k)
  case (Suc n)
  have "incrementAndGet32 (of_nat k) = Some (of_nat (k + 1), of_nat (k + 1))"
    using Suc.prems by (intro increment_small) simp
  moreover have "increments32 n (of_nat (k + 1)) = Some (map of_nat [k + 1 + 1..<k + 1 + n + 1], of_nat (k + 1 + n))"
    using Suc.prems by (intro Suc.IH) simp
  moreover have "[k + 1..<k + Suc n + 1] = (k + 1) # [k + 1 + 1..<k + 1 + n + 1]"
    by (simp add: upt_conv_Cons)
  ultimately show ?case
    by (simp del: upt_Suc of_nat_Suc of_nat_add)
qed simp

subsection \<open>Property\<close>

text \<open>
  C33: counting with an atomic integer: any \<open>n < 2^31\<close> increments from zero return the numbers \<open>1\<close> to
  \<open>n\<close>, each once, and leave \<open>n\<close>; the next increment of the greatest value is undefined, although
  \<open>getAndAdd\<close> itself wraps around; and adding any values in any order stores their sum modulo \<open>2^32\<close>.
\<close>

theorem atomic_counts:
  "(n < 2 ^ 31 \<longrightarrow> increments32 n AtomicInt32 = Some (map of_nat [1..<n + 1], of_nat n))
   \<and> incrementAndGet32 0x7FFFFFFF = None \<and> getAndAdd32 1 0x7FFFFFFF = (0x7FFFFFFF, 0x80000000)
   \<and> snd (add_all32 xs v) = v + sum_list xs"
proof (intro conjI impI)
  show "increments32 n AtomicInt32 = Some (map of_nat [1..<n + 1], of_nat n)" if "n < 2 ^ 31"
    using increments32_from [of 0 n] that by (simp add: AtomicInt32_def)
  show "incrementAndGet32 0x7FFFFFFF = None" "getAndAdd32 1 0x7FFFFFFF = (0x7FFFFFFF, 0x80000000)"
    by (simp_all add: incrementAndGet32_def addAndGet32_def getAndAdd32_def fetch_and_add_def signed_add_def)
  show "snd (add_all32 xs v) = v + sum_list xs"
    by (rule add_all32_sum)
qed

lemma atomic_counts_witness: "increments32 2 AtomicInt32 = Some ([1, 2], 2)"
  using atomic_counts [of 2 "[]" 0] by (simp add: upt_rec)

end
