(* ===== verification/FileUtil.thy ===== *)
theory FileUtil
  imports Prelude "HOL-Library.Sublist"
begin

section \<open>Reading files (base/FileUtil.h, base/FileUtil.cpp)\<close>

text \<open>
  A \<open>FileReader\<close> opens a file and reads it in pieces into a string.  \<open>open\<close> and \<open>read\<close> are
  parameters that act on the environment: they give \<open>Inl\<close> the error number, or \<open>Inr\<close> the descriptor
  and the bytes read, none at the end of the file.
\<close>

subsection \<open>Operations\<close>

record 'w file_calls =
  open_file :: "string \<Rightarrow> 'w \<Rightarrow> (int + nat) \<times> 'w"
  read_file :: "nat \<Rightarrow> nat \<Rightarrow> 'w \<Rightarrow> (int + string) \<times> 'w"
  close_file :: "nat \<Rightarrow> 'w \<Rightarrow> 'w"

record file_reader =
  fr_fd :: "nat option"
  fr_err :: int

definition new_FileReader :: "'w file_calls \<Rightarrow> string \<Rightarrow> 'w \<Rightarrow> file_reader \<times> 'w" where
  "new_FileReader os filename w =
     (case open_file os filename w of
        (Inl e, w1) \<Rightarrow> (\<lparr>fr_fd = None, fr_err = e\<rparr>, w1)
      | (Inr fd, w1) \<Rightarrow> (\<lparr>fr_fd = Some fd, fr_err = 0\<rparr>, w1))"

definition delete_FileReader :: "'w file_calls \<Rightarrow> file_reader \<Rightarrow> 'w \<Rightarrow> 'w" where
  "delete_FileReader os f w = (case fr_fd f of None \<Rightarrow> w | Some fd \<Rightarrow> close_file os fd w)"

text \<open>The loop ends with the error number, 0 at the end of the file, or 0 when the string is long enough.\<close>

function read_loop :: "'w file_calls \<Rightarrow> nat \<Rightarrow> nat \<Rightarrow> string \<Rightarrow> 'w \<Rightarrow> int \<times> string \<times> 'w" where
  "read_loop os fd limit content w =
     (if length content < limit
      then (case read_file os fd (min (limit - length content) 65536) w of
              (Inl e, w1) \<Rightarrow> (e, content, w1)
            | (Inr bs, w1) \<Rightarrow> if bs \<noteq> [] then read_loop os fd limit (content @ bs) w1 else (0, content, w1))
      else (0, content, w))"
  by pat_completeness auto
termination
  by (relation "measure (\<lambda>(os, fd, limit, content, w). limit - length content)")
    (auto simp: length_greater_0_conv [symmetric] simp del: length_greater_0_conv)

declare read_loop.simps [simp del]

definition readToString :: "'w file_calls \<Rightarrow> nat \<Rightarrow> file_reader \<Rightarrow> string \<Rightarrow> 'w \<Rightarrow> int \<times> string \<times> 'w" where
  "readToString os limit f content w =
     (case fr_fd f of None \<Rightarrow> (fr_err f, content, w) | Some fd \<Rightarrow> read_loop os fd limit content w)"

definition readFile :: "'w file_calls \<Rightarrow> string \<Rightarrow> nat \<Rightarrow> string \<Rightarrow> 'w \<Rightarrow> int \<times> string \<times> 'w" where
  "readFile os filename limit content w =
     (case new_FileReader os filename w of (f, w1) \<Rightarrow>
      case readToString os limit f content w1 of (r, s, w2) \<Rightarrow> (r, s, delete_FileReader os f w2))"

subsection \<open>Property\<close>

text \<open>
  What \<open>read\<close> promises for a descriptor whose remaining bytes are \<open>rest\<close>: a piece of them from the
  front, not longer than asked for, and empty only at the end.
\<close>

definition reads :: "'w file_calls \<Rightarrow> nat \<Rightarrow> ('w \<Rightarrow> string) \<Rightarrow> bool" where
  "reads os fd rest \<longleftrightarrow> (\<forall>n w. 0 < n \<longrightarrow> (\<exists>bs w1. read_file os fd n w = (Inr bs, w1) \<and> rest w = bs @ rest w1
     \<and> length bs \<le> n \<and> (bs = [] \<longrightarrow> rest w = [])))"

lemma read_loop_correct:
  assumes "reads os fd rest"
  shows "length content \<le> limit \<Longrightarrow> \<exists>w'. read_loop os fd limit content w = (0, take limit (content @ rest w), w')
    \<and> rest w' = drop (limit - length content) (rest w)"
proof (induction "limit - length content" arbitrary: content w rule: less_induct)
  case less
  show ?case
  proof (cases "length content < limit")
    case True
    let ?n = "min (limit - length content) 65536"
    have "0 < ?n"
      using True by simp
    then obtain bs w1 where r: "read_file os fd ?n w = (Inr bs, w1)" "rest w = bs @ rest w1" "length bs \<le> ?n" "bs = [] \<longrightarrow> rest w = []"
      using assms unfolding reads_def by blast
    show ?thesis
    proof (cases "bs = []")
      case True
      then show ?thesis
        using r less.prems \<open>length content < limit\<close> by (subst read_loop.simps) simp
    next
      case False
      have "length bs \<le> limit - length content" "0 < length bs"
        using False r(3) by simp_all
      then have "limit - length (content @ bs) < limit - length content" "length (content @ bs) \<le> limit"
        using \<open>length content < limit\<close> unfolding length_append by linarith+
      then obtain w' where "read_loop os fd limit (content @ bs) w1 = (0, take limit ((content @ bs) @ rest w1), w')"
        "rest w' = drop (limit - length (content @ bs)) (rest w1)"
        using less.hyps [of "content @ bs" w1] by blast
      moreover have "read_loop os fd limit content w = read_loop os fd limit (content @ bs) w1"
        using r(1) True False by (subst read_loop.simps) simp
      ultimately show ?thesis
        using r(2,3) by simp
    qed
  next
    case False
    then show ?thesis
      using less.prems by (subst read_loop.simps) simp
  qed
qed

text \<open>
  C31: \<open>readFile\<close> ends, returns 0, and the string is what it was followed by the beginning of the file,
  up to the given size, into whatever pieces the system cuts the file; the descriptor is closed.
\<close>

theorem readFile_correct:
  assumes "open_file os filename w = (Inr fd, w1)" "reads os fd rest" "length content \<le> limit"
  shows "\<exists>w'. readFile os filename limit content w = (0, take limit (content @ rest w1), close_file os fd w')"
proof -
  obtain w' where "read_loop os fd limit content w1 = (0, take limit (content @ rest w1), w')"
    using read_loop_correct [OF assms(2,3)] by blast
  then show ?thesis
    using assms(1) by (intro exI [of _ w']) (simp add: readFile_def new_FileReader_def readToString_def delete_FileReader_def)
qed

text \<open>A file that is read three bytes at a time.\<close>

definition demo_files :: "string file_calls" where
  "demo_files = \<lparr>open_file = (\<lambda>_ w. (Inr 3, w)), read_file = (\<lambda>_ n w. (Inr (take (min n 3) w), drop (min n 3) w)),
     close_file = (\<lambda>_ _. [])\<rparr>"

lemma readFile_correct_witness:
  "readFile demo_files ''/proc/self/stat'' 8 '''' ''1 (a.out) S'' = (0, ''1 (a.out'', [])"
proof -
  have "reads demo_files 3 (\<lambda>w. w)"
    by (auto simp: reads_def demo_files_def)
  then show ?thesis
    using readFile_correct [of demo_files "''/proc/self/stat''" "''1 (a.out) S''" 3 "''1 (a.out) S''" "\<lambda>w. w" "''''" 8]
    by (simp add: demo_files_def)
qed

end
