(* ===== verification/ProcessInfo.thy ===== *)
theory ProcessInfo
  imports FileUtil Date
begin

section \<open>Facts about the process (base/ProcessInfo.h, base/ProcessInfo.cpp)\<close>

text \<open>
  \<open>ProcessInfo\<close> asks the system for ids and names, and reads and parses files under \<open>/proc\<close>.  The
  system calls are parameters.
\<close>

subsection \<open>Text\<close>

definition digit :: "char \<Rightarrow> bool" where
  "digit c \<longleftrightarrow> 48 \<le> (of_char c :: nat) \<and> (of_char c :: nat) \<le> 57"

definition space :: "char \<Rightarrow> bool" where
  "space c \<longleftrightarrow> of_char c \<in> {32, 9, 10, 11, 12, 13 :: nat}"

text \<open>\<open>atoi\<close>: blanks, a sign, digits; a value that is no \<open>int\<close> is undefined.\<close>

fun digits_value :: "nat \<Rightarrow> string \<Rightarrow> nat" where
  "digits_value acc [] = acc"
| "digits_value acc (c # cs) = (if digit c then digits_value (acc * 10 + (of_char c - 48)) cs else acc)"

definition atoi :: "string \<Rightarrow> int option" where
  "atoi s =
     (let t = dropWhile space s;
          v = (case t of c # cs \<Rightarrow> if c = CHR ''-'' then - int (digits_value 0 cs)
                                   else if c = CHR ''+'' then int (digits_value 0 cs) else int (digits_value 0 t)
               | [] \<Rightarrow> 0)
      in if - (2 ^ 31) \<le> v \<and> v < 2 ^ 31 then Some v else None)"

text \<open>\<open>std::string::find\<close>: the first position of a text, \<open>None\<close> for \<open>npos\<close>.\<close>

fun find_text :: "string \<Rightarrow> string \<Rightarrow> nat option" where
  "find_text pat [] = (if pat = [] then Some 0 else None)"
| "find_text pat (c # cs) = (if prefix pat (c # cs) then Some 0 else map_option Suc (find_text pat cs))"

subsection \<open>Ids and names\<close>

definition pid :: "int \<Rightarrow> int" where
  "pid getpid = getpid"

text \<open>\<open>snprintf\<close> into 32 bytes, the last of them for the terminating zero.\<close>

definition pidString :: "int \<Rightarrow> string" where
  "pidString getpid = take 31 (fmt_d 0 (pid getpid))"

definition uid :: "nat \<Rightarrow> nat" where
  "uid getuid = getuid"

definition euid :: "nat \<Rightarrow> nat" where
  "euid geteuid = geteuid"

text \<open>\<open>getpwuid_r\<close> finds the entry of a user, here its name, or leaves the result null.\<close>

definition userName :: "nat \<Rightarrow> (nat \<Rightarrow> string option) \<Rightarrow> string" where
  "userName getuid getpwuid_r =
     (let name = ''unknownuser'' in case getpwuid_r (uid getuid) of None \<Rightarrow> name | Some pw_name \<Rightarrow> pw_name)"

text \<open>The start time is the clock's reading when the global is initialised.\<close>

definition g_startTime :: "int \<Rightarrow> int" where
  "g_startTime now = now"

definition startTime :: "int \<Rightarrow> int" where
  "startTime g = g"

text \<open>A C string in an array ends at the first zero; without one, the read goes out of bounds.\<close>

definition c_str :: "bytes \<Rightarrow> string option" where
  "c_str buf = (if CHR 0x00 \<in> set buf then Some (takeWhile (\<lambda>c. c \<noteq> CHR 0x00) buf) else None)"

text \<open>\<open>gethostname\<close> gives the bytes that it stores for a buffer of the given size.\<close>

definition hostName :: "(nat \<Rightarrow> bytes) \<Rightarrow> string option" where
  "hostName gethostname =
     (let buf = ''unknownhost'' @ replicate (64 - 11) (CHR 0x00);
          buf1 = buf[63 := CHR 0x00]
      in do { buf2 \<leftarrow> wr buf1 0 (gethostname 64); c_str buf2 })"

subsection \<open>Files of the process\<close>

definition procStatus :: "'w file_calls \<Rightarrow> 'w \<Rightarrow> string \<times> 'w" where
  "procStatus os w = (case readFile os ''/proc/self/status'' 65536 '''' w of (_, s, w1) \<Rightarrow> (s, w1))"

definition procStat :: "'w file_calls \<Rightarrow> 'w \<Rightarrow> string \<times> 'w" where
  "procStat os w = (case readFile os ''/proc/self/stat'' 65536 '''' w of (_, s, w1) \<Rightarrow> (s, w1))"

text \<open>\<open>substr (lp + 1, rp - lp - 1)\<close>: with \<open>rp\<close> before \<open>lp\<close> the length wraps around and the rest is taken.\<close>

definition name_of_stat :: "string \<Rightarrow> string" where
  "name_of_stat stat =
     (case (find_text ''('' stat, find_text '')'' stat) of
        (Some lp, Some rp) \<Rightarrow> (if lp < rp then take (rp - lp - 1) (drop (lp + 1) stat) else drop (lp + 1) stat)
      | _ \<Rightarrow> [])"

definition procName :: "'w file_calls \<Rightarrow> 'w \<Rightarrow> string \<times> 'w" where
  "procName os w = (case procStat os w of (stat, w1) \<Rightarrow> (name_of_stat stat, w1))"

definition threads_of_status :: "string \<Rightarrow> int option" where
  "threads_of_status status = (case find_text ''Threads:'' status of None \<Rightarrow> Some 0 | Some pos \<Rightarrow> atoi (drop (pos + 8) status))"

definition numThreads :: "'w file_calls \<Rightarrow> 'w \<Rightarrow> int option \<times> 'w" where
  "numThreads os w = (case procStatus os w of (status, w1) \<Rightarrow> (threads_of_status status, w1))"

subsection \<open>Directories\<close>

text \<open>
  \<open>scandir\<close> calls the filter on each entry; both filters refuse every entry and work by their
  effect on a thread-local variable, which is passed along here.
\<close>

definition fdDirFilter :: "string \<Rightarrow> int \<Rightarrow> int" where
  "fdDirFilter name n = (case name of c # _ \<Rightarrow> if digit c then n + 1 else n | [] \<Rightarrow> n)"

definition taskDirFilter :: "string \<Rightarrow> int list \<Rightarrow> int list option" where
  "taskDirFilter name pids =
     (case name of c # _ \<Rightarrow> if digit c then (do { p \<leftarrow> atoi name; Some (pids @ [p]) }) else Some pids | [] \<Rightarrow> Some pids)"

fun scanDir :: "(string \<Rightarrow> 's \<Rightarrow> 's option) \<Rightarrow> string list \<Rightarrow> 's \<Rightarrow> 's option" where
  "scanDir filt [] s = Some s"
| "scanDir filt (d # ds) s = do { s1 \<leftarrow> filt d s; scanDir filt ds s1 }"

definition openedFiles :: "string list \<Rightarrow> int option" where
  "openedFiles fd_dir = scanDir (\<lambda>d n. Some (fdDirFilter d n)) fd_dir 0"

text \<open>\<open>getrlimit\<close> gives the limit as an unsigned 64-bit number or fails; it is cast to \<open>int\<close>.\<close>

definition maxOpenFiles :: "64 word option \<Rightarrow> string list \<Rightarrow> int option" where
  "maxOpenFiles rlimit fd_dir =
     (case rlimit of None \<Rightarrow> openedFiles fd_dir | Some cur \<Rightarrow> Some (sint (ucast cur :: 32 word)))"

definition threads :: "string list \<Rightarrow> int list option" where
  "threads task_dir = map_option sort (scanDir taskDirFilter task_dir [])"

text \<open>\<open>readlink\<close> gives the bytes it wrote into 1024, or fails.\<close>

definition exePath :: "string option \<Rightarrow> string" where
  "exePath link = (case link of None \<Rightarrow> [] | Some target \<Rightarrow> take 1024 target)"

subsection \<open>Lemmas\<close>

lemma find_char: "find_text [c] s = (if c \<in> set s then Some (length (takeWhile (\<lambda>d. d \<noteq> c) s)) else None)"
  by (induction s) auto

lemma find_append:
  "pat \<noteq> [] \<Longrightarrow> find_text pat (pre @ pat @ post) \<noteq> None"
  by (induction pre) (auto simp: neq_Nil_conv)

lemma digits_value_append:
  "\<forall>c\<in>set ds. digit c \<Longrightarrow> digits_value acc (ds @ cs) = digits_value (digits_value acc ds) cs"
  by (induction ds arbitrary: acc) auto

lemma name_of_stat_cut:
  assumes "CHR ''('' \<notin> set num" "CHR '')'' \<notin> set num"
  shows "name_of_stat (num @ ''('' @ comm @ '')'' @ others) = takeWhile (\<lambda>c. c \<noteq> CHR '')'') comm"
proof -
  let ?s = "num @ ''('' @ comm @ '')'' @ others" and ?n = "takeWhile (\<lambda>c. c \<noteq> CHR '')'') comm"
  have "takeWhile (\<lambda>d. d \<noteq> CHR ''('') ?s = takeWhile (\<lambda>d. d \<noteq> CHR ''('') num"
    using takeWhile_tail [of "\<lambda>d. d \<noteq> CHR ''(''" "CHR ''(''" num "comm @ '')'' @ others"] by simp
  also have "\<dots> = num"
    using assms(1) by (auto simp: takeWhile_eq_all_conv)
  finally have 1: "takeWhile (\<lambda>d. d \<noteq> CHR ''('') ?s = num" .
  have "takeWhile (\<lambda>d. d \<noteq> CHR '')'') ((num @ ''('' @ comm) @ CHR '')'' # others) = takeWhile (\<lambda>d. d \<noteq> CHR '')'') (num @ ''('' @ comm)"
    by (rule takeWhile_tail) simp
  also have "\<dots> = num @ ''('' @ ?n"
    using assms(2) by (subst takeWhile_append2) auto
  finally have 2: "takeWhile (\<lambda>d. d \<noteq> CHR '')'') ?s = num @ ''('' @ ?n"
    by simp
  have "take (length ?n) (comm @ '')'' @ others) = ?n"
    by (metis append_assoc append_eq_conv_conj takeWhile_dropWhile_id)
  then show ?thesis
    using 1 2 by (simp add: name_of_stat_def find_char)
qed

lemma scan_tasks:
  assumes "\<And>d. d \<in> set dir \<Longrightarrow> d \<noteq> [] \<Longrightarrow> digit (hd d) \<Longrightarrow> atoi d \<noteq> None"
  shows "scanDir taskDirFilter dir ps = Some (ps @ map (\<lambda>d. the (atoi d)) (filter (\<lambda>d. d \<noteq> [] \<and> digit (hd d)) dir))"
  using assms
proof (induction dir arbitrary: ps)
  case (Cons d dir)
  have ih: "scanDir taskDirFilter dir qs = Some (qs @ map (\<lambda>d. the (atoi d)) (filter (\<lambda>d. d \<noteq> [] \<and> digit (hd d)) dir))" for qs
    using Cons.IH Cons.prems by simp
  show ?case
  proof (cases "d \<noteq> [] \<and> digit (hd d)")
    case True
    then obtain v where "atoi d = Some v"
      using Cons.prems [of d] by auto
    then have "taskDirFilter d ps = Some (ps @ [v])"
      using True by (cases d) (simp_all add: taskDirFilter_def)
    then show ?thesis
      using True ih \<open>atoi d = Some v\<close> by simp
  next
    case False
    then have "taskDirFilter d ps = Some ps"
      by (cases d) (simp_all add: taskDirFilter_def)
    then show ?thesis
      using False ih by auto
  qed
qed simp

lemma scan_fds: "scanDir (\<lambda>d n. Some (fdDirFilter d n)) dir n = Some (n + int (length (filter (\<lambda>d. d \<noteq> [] \<and> digit (hd d)) dir)))"
  by (induction dir arbitrary: n) (auto simp: fdDirFilter_def split: list.splits)

subsection \<open>Properties\<close>

text \<open>
  The name of the process is what stands in parentheses in \<open>/proc/self/stat\<close>, but only up to the
  first closing one: a name that has one itself is cut.
\<close>

theorem procName_cut:
  assumes "open_file os ''/proc/self/stat'' w = (Inr fd, w1)" "reads os fd rest"
    and "rest w1 = num @ ''('' @ comm @ '')'' @ others" "length (rest w1) \<le> 65536"
    and "CHR ''('' \<notin> set num" "CHR '')'' \<notin> set num"
  shows "\<exists>w'. procName os w = (takeWhile (\<lambda>c. c \<noteq> CHR '')'') comm, w')"
proof -
  obtain fd' w' where r: "read_loop os fd 65536 '''' w1 = (0, take 65536 ('''' @ rest w1), w')"
    using read_loop_correct [OF assms(2), of "''''" 65536 w1] by auto
  then have "readFile os ''/proc/self/stat'' 65536 '''' w = (0, rest w1, close_file os fd w')"
    using assms(1,4) by (simp add: readFile_def new_FileReader_def readToString_def delete_FileReader_def)
  then show ?thesis
    using name_of_stat_cut [OF assms(5,6), of comm others] assms(3) by (simp add: procName_def procStat_def)
qed

lemma procName_cut_witness: "\<exists>w'. procName demo_files ''12 (a)b) S'' = (''a'', w')"
proof -
  have 1: "open_file demo_files f w = (Inr 3, w)" for f w
    by (simp add: demo_files_def)
  have 2: "reads demo_files 3 (\<lambda>w. w)"
    by (auto simp: reads_def demo_files_def)
  have 3: "''12 (a)b) S'' = ''12 '' @ ''('' @ ''a)b'' @ '')'' @ '' S''" "length ''12 (a)b) S'' \<le> 65536"
    "CHR ''('' \<notin> set ''12 ''" "CHR '')'' \<notin> set ''12 ''"
    by simp_all
  have 4: "takeWhile (\<lambda>c. c \<noteq> CHR '')'') ''a)b'' = ''a''"
    by simp
  show ?thesis
    using procName_cut [where os = demo_files and rest = "\<lambda>w. w" and fd = 3 and w = "''12 (a)b) S''" and num = "''12 ''"
        and ?w1.0 = "''12 (a)b) S''" and comm = "''a)b''" and others = "'' S''", OF 1 2 3] unfolding 4 .
qed

text \<open>
  \<open>threads\<close> gives the numbers of all entries of the task directory that start with a digit, sorted, and
  \<open>openedFiles\<close> counts such entries: other entries, like the two dots, are passed over.
\<close>

theorem threads_sorted:
  assumes "\<And>d. d \<in> set dir \<Longrightarrow> d \<noteq> [] \<Longrightarrow> digit (hd d) \<Longrightarrow> atoi d \<noteq> None"
  shows "\<exists>ps. threads dir = Some ps \<and> sorted ps
    \<and> mset ps = mset (map (\<lambda>d. the (atoi d)) (filter (\<lambda>d. d \<noteq> [] \<and> digit (hd d)) dir))
    \<and> openedFiles dir = Some (int (length ps))"
proof -
  have "scanDir taskDirFilter dir [] = Some (map (\<lambda>d. the (atoi d)) (filter (\<lambda>d. d \<noteq> [] \<and> digit (hd d)) dir))"
    using scan_tasks [of dir "[]"] assms by simp
  then show ?thesis
    using scan_fds [of dir 0] by (simp add: threads_def openedFiles_def)
qed

lemma threads_sorted_witness:
  "\<exists>ps. threads [''.'', ''..'', ''204'', ''17''] = Some ps \<and> sorted ps \<and> openedFiles [''.'', ''..'', ''204'', ''17''] = Some (int (length ps))"
proof -
  have "atoi ''204'' \<noteq> None" "atoi ''17'' \<noteq> None"
    by (simp_all add: atoi_def space_def digit_def)
  then have "d \<noteq> [] \<Longrightarrow> digit (hd d) \<Longrightarrow> atoi d \<noteq> None" if "d \<in> set [''.'', ''..'', ''204'', ''17'']" for d
    using that by (auto simp: digit_def)
  then show ?thesis
    using threads_sorted [of "[''.'', ''..'', ''204'', ''17'']"] by blast
qed

text \<open>
  \<open>gethostname\<close> as documented: the name with its terminating zero, cut to the size of the buffer.
\<close>

definition stores_name :: "(nat \<Rightarrow> bytes) \<Rightarrow> string \<Rightarrow> bool" where
  "stores_name g name \<longleftrightarrow> CHR 0x00 \<notin> set name \<and> (\<forall>n. g n = take n (name @ [CHR 0x00]))"

text \<open>
  The zero at the end of the buffer is stored before the call, which may overwrite it: a host name of
  64 characters, the longest that Linux allows, is read past the end of the buffer.
\<close>

theorem hostName_limit:
  assumes "stores_name g name"
  shows "hostName g = (if length name < 64 then Some name else None)"
proof -
  let ?b = "''unknownhost'' @ replicate 53 (CHR 0x00)"
  have b: "hostName g = do { buf2 \<leftarrow> wr ?b 0 (take 64 (name @ [CHR 0x00])); c_str buf2 }"
    using assms by (simp add: hostName_def stores_name_def numeral_eq_Suc)
  have z: "CHR 0x00 \<notin> set name"
    using assms by (simp add: stores_name_def)
  show ?thesis
  proof (cases "length name < 64")
    case True
    have "takeWhile (\<lambda>c. c \<noteq> CHR 0x00) (name @ CHR 0x00 # rest) = name" for rest
      using z by (subst takeWhile_append2) auto
    then show ?thesis
      using True unfolding b by (simp add: wr_def c_str_def)
  next
    case False
    then show ?thesis
      using z unfolding b by (auto simp: wr_def c_str_def dest: in_set_takeD)
  qed
qed

lemma hostName_limit_witness:
  "hostName (\<lambda>n. take n (''db1'' @ [CHR 0x00])) = Some ''db1''
   \<and> hostName (\<lambda>n. take n (replicate 64 CHR ''h'' @ [CHR 0x00])) = None"
  using hostName_limit [of _ "''db1''"] hostName_limit [of _ "replicate 64 CHR ''h''"]
  by (simp add: stores_name_def)

end
