(* ===== verification/Spec2Isabelle.thy ===== *)
theory Spec2Isabelle
  imports TcpServer TcpClient TcpStream LogMessage MinHeap Sync BoundedQueue Atomic ProcessInfo
begin

text \<open>
  Verification of the C++ library \<open>libiak\<close>: an event loop with non-blocking TCP connections
  (\<open>src/net\<close>), a logging library (\<open>src/log\<close>), and small tools for dates, threads and processes
  (\<open>src/base\<close>, \<open>src/util\<close>).

  \<^bold>\<open>The program.\<close>  An \<open>EventLoop\<close> waits on \<open>epoll\<close> through its \<open>EPollPoller\<close>, which marks the \<open>Channel\<close> of
  each ready descriptor as active; the loop then runs the callbacks of the active channels and the
  functors that other threads queued.  An \<open>Acceptor\<close> or a \<open>Connector\<close> owns the channel of a listening
  or connecting socket; \<open>TcpServer\<close> and \<open>TcpClient\<close> make a \<open>TcpConnection\<close> of every socket these
  deliver, a server spreading them over the loops of an \<open>EventLoopThreadPool\<close>.  A connection buffers
  both directions in chains of ring buffers from a \<open>BufferPool\<close>.  A log message formats into a \<open>LogStream\<close>
  and goes to a \<open>Logger\<close>, which writes and rolls files, or to an \<open>AsyncLogger\<close>, whose buffers the
  thread of \<open>AsyncLogging\<close> writes.

  \<^bold>\<open>Conventions.\<close>  An operation of a class is a function on the record of its fields that returns the
  new record.  A computation of type \<open>'a option\<close> is \<open>None\<close> where C++ has undefined behaviour (a null,
  dangling or uninitialised pointer, an access out of bounds, a division by zero, a failed
  \<open>assert\<close>) and where a loop does not end; theorems that a result is \<open>Some\<close> exclude both.
  Unsigned 32-bit arithmetic wraps, written out on \<open>nat\<close> (\<open>Prelude\<close>) or on \<open>32 word\<close>.  The operating
  system (\<open>readv\<close>, \<open>writev\<close>, \<open>epoll_wait\<close>, sockets, files, clocks) is a parameter; what the code relies
  on is a named predicate (\<open>epoll_ok\<close>, \<open>accepts\<close>, \<open>attempts\<close>, \<open>reads\<close>, \<open>socket_ok\<close> and others), and each
  property that uses one has a witness with a concrete system.  Concurrency is a step relation: a
  critical section is one step, a thread's place in the code a program counter.

  \<^bold>\<open>The theories and the code.\<close>
    \<^item> \<open>Prelude\<close>: wrapping arithmetic, checked copies (\<open>memcpy\<close>), facts on lists and options.
    \<^item> \<open>MinHeap\<close> (\<open>util/MinHeap.h\<close>): sift-up and sift-down as the loops of the code, the heap as a
      priority queue.  The orders it needs are the locale \<open>strict_weak\<close>, also that of \<open>TimeZone\<close>.
    \<^item> \<open>NetBuffer\<close> (\<open>net/Buffer.h\<close>), \<open>Channel\<close> (\<open>net/Channel.cpp\<close>), \<open>EPoll\<close> (\<open>net/EPollPoller.cpp\<close>).
    \<^item> \<open>TcpState\<close>, \<open>TcpBuffers\<close>, \<open>TcpIo\<close>, \<open>TcpLife\<close> (\<open>net/TcpConnection.cpp\<close>): the fields and the chains in
      memory; \<open>PeekData\<close>, \<open>ReadData\<close> and \<open>writeData\<close>; the event handlers and \<open>send\<close>; establishing,
      closing and the destructor.  \<open>TcpRecv\<close> and \<open>TcpRead\<close> prove the receiving side, for every user
      whose callbacks keep the stream (locale \<open>receiver\<close>), \<open>TcpSend\<close> and \<open>TcpWrite\<close> the sending side.
    \<^item> \<open>Streams\<close> states what a connection promises: a pair of byte queues (locale \<open>duplex\<close>), and two of
      them joined by a network (\<open>link_end\<close>, \<open>link\<close>).  \<open>TcpStream\<close> interprets these on the connection, with
      the poller's events, the handlers and the calls of the user in any order.
    \<^item> \<open>EventLoop\<close> (\<open>net/EventLoop.cpp\<close>).  \<open>LoopEvents\<close> states what callbacks may do (locale
      \<open>loop_callbacks\<close>) and which of them a turn runs (locale \<open>noted_callbacks\<close>, where every callback leaves a
      note of its call); \<open>LoopCalls\<close> shows that code which acts through the interface of the loop and its
      channels keeps these contracts; \<open>LoopWake\<close> adds the other threads (locale \<open>loop_program\<close>).  Its thread
      takes the same turns as the function \<open>loop\<close>, in single steps; a lemma of \<open>LoopThread\<close>, for use in
      \<open>LoopPool\<close>, says so.
    \<^item> \<open>LoopPool\<close> (\<open>net/EventLoopThreadPool.cpp\<close>), \<open>Sockets\<close> (\<open>net/Socket.cpp\<close>, \<open>net/InetAddress.cpp\<close>),
      \<open>Acceptor\<close>, \<open>Connector\<close>, \<open>TcpServer\<close>, \<open>TcpClient\<close> (the files of these names in \<open>net\<close>).
    \<^item> \<open>LogStream\<close>, \<open>LogFile\<close> (with the destination of \<open>Logging.h\<close>), \<open>Logger\<close>, \<open>AsyncLogger\<close>,
      \<open>AsyncLogging\<close>, \<open>LogMessage\<close> (the files of these names in \<open>log\<close>).  A logger as the messages see it is
      the locale \<open>log_sink\<close>, which both loggers provide.
    \<^item> \<open>Date\<close>, \<open>TimeZone\<close>, \<open>FileUtil\<close>, \<open>ProcessInfo\<close>, \<open>Atomic\<close> (the files of these names in \<open>base\<close>), and \<open>Sync\<close>
      (\<open>BlockingQueue.h\<close>, \<open>CountDownLatch.h\<close>, \<open>Singleton.h\<close>) and \<open>BoundedQueue\<close> (\<open>BoundedBlockingQueue.h\<close>).

  \<^bold>\<open>What the lemmas show.\<close>
    \<^item> Connections: received bytes are kept and handed out in order over any number of nodes, and
      \<open>onRead\<close> ends for every socket and every user who keeps the stream; one turn of \<open>onWrite\<close> sends
      the oldest bytes; the destructor frees every node once.  In sequences of events and calls that
      meet none of three faults, and only in these, both directions are queues, and what one of two
      joined connections fetches is a prefix of what the other wrote.  The faults (a stale count when
      \<open>ReadData\<close> stops inside a later node, stale bytes sent after a full drain by \<open>onWrite\<close>, \<open>send\<close>
      overtaking pending bytes) are theorems of their own, and that \<open>send\<close> can stall a lemma.
    \<^item> Loop: exactly the reported events for which a channel is ready become pending, and a turn runs
      exactly their callbacks, once and in order; functors run once and in order; the thread never sleeps
      on a queued functor or a request to quit, except a request made before the loop has started, after
      which the thread goes round for ever and the destructor of a pool does not return.
    \<^item> Accepting and connecting: the queue of connections is emptied in order exactly when there are
      more free descriptors than waiting connections, and otherwise the accept handler never returns on
      a kernel that looks for a descriptor first.  A connect is retried until it succeeds, whether its
      attempts end at once or in progress, and delivered once; theorems exhibit the states in which an
      acceptor or connector is stuck or loses its channel.  The server's map holds exactly the live
      connections, and connections are spread evenly.
    \<^item> Logging: a stream holds whole items; lines are written whole and in order by both loggers, in
      every interleaving; \<open>stop\<close> can lose a line, and can leave the background thread asleep until a later
      line, notification or spurious wake-up.
    \<^item> Tools: the calendar conversions are inverse and agree with the Gregorian calendar without
      overflow; zone files decode to the zone they encode and the time conversions are inverse; the
      heap is a priority queue; queue and latch lose no wake-up; counters count below their bound; files
      are read completely.

  \<^bold>\<open>Termination and bounds.\<close>  Loops that decrease a measure are total functions.  Those that follow
  pointers or the kernel's answers (\<open>release_chain\<close>, \<open>onRead_loop\<close>, \<open>onWrite_loop\<close>, \<open>accept_loop\<close>, \<open>turns\<close>) are
  \<open>partial_function (option)\<close>, and that they return, or do not, is proved where a property needs it.  The only
  fuel is a number of rounds or of steps that a theorem names exactly.

  \<^bold>\<open>Not modelled.\<close>
    \<^item> \<open>base/BoundedBlockingQueue.h\<close> cannot be instantiated (\<open>std::deque\<close> has no \<open>full\<close>, and one wait lacks
      its lock); \<open>BoundedQueue\<close> models it as it reads, with the missing member as a parameter.
    \<^item> Class boilerplate without behaviour: factory functions that only call a constructor, the
      addresses and the user data a connection carries along, declarations.
    \<^item> Data races on plain fields that several threads access (\<open>quit_\<close>, \<open>close_\<close>, \<open>accept_\<close>): a store is
      a step of its own, seen at once.
    \<^item> Reference counts: a functor bound to a \<open>shared_ptr\<close> keeps its object, and only the bindings of a
      raw \<open>this\<close>, which do not, are remarked on.
    \<^item> A listening socket that cannot be opened, and allocation that fails.
    \<^item> The test programs.
\<close>

end
